(* ===== verification/Garret_Prelude.thy ===== *)
theory Garret_Prelude
  imports
    Main
    "HOL-Library.Word"
    "HOL-Library.Char_ord"
    "HOL-Library.List_Lexorder"
    "HOL-Library.Multiset"
    "HOL-Library.Product_Lexorder"
begin

text \<open>
  Shared vocabulary of the development.

  Rust's \<^verbatim>\<open>String\<close> and \<^verbatim>\<open>&str\<close> are UTF-8 byte sequences; Isabelle's \<^typ>\<open>char\<close> is one
  byte, so a \<^typ>\<open>string\<close> models the bytes and \<^term>\<open>length\<close> is Rust's \<^verbatim>\<open>len()\<close>. The order on
  strings (from \<open>Char_ord\<close> and \<open>List_Lexorder\<close>) is the bytewise order of Rust's \<^verbatim>\<open>Ord for str\<close>
  and of SQLite's BINARY collation. A raw byte buffer is a list of 8-bit words.

  This theory holds the string primitives of the standard library the sources use
  (\<^verbatim>\<open>strip_prefix\<close>, \<^verbatim>\<open>strip_suffix\<close>, \<^verbatim>\<open>split_once\<close>, \<^verbatim>\<open>rsplit\<close>, \<^verbatim>\<open>trim_end_matches\<close>, \<^verbatim>\<open>get(..n)\<close>,
  \<^verbatim>\<open>replace\<close>, \<^verbatim>\<open>chunks\<close>) with their characteristic laws, the \<open>named_theorems\<close> collections the
  components feed, and the lemmas on lists several components share.
\<close>

named_theorems str_laws \<open>characteristic laws of the string primitives\<close>
named_theorems inv_rules \<open>operations preserve their component's invariant\<close>
named_theorems frame_simps \<open>what an operation leaves unchanged\<close>

type_synonym u8 = "8 word"
type_synonym u32 = "32 word"
type_synonym bytes = "u8 list"

text \<open>A store path hash: the object key.\<close>
type_synonym hash = string

section \<open>String primitives\<close>

fun strip_prefix :: "'a list \<Rightarrow> 'a list \<Rightarrow> 'a list option" where
  "strip_prefix [] s = Some s"
| "strip_prefix (p # ps) [] = None"
| "strip_prefix (p # ps) (x # xs) = (if p = x then strip_prefix ps xs else None)"

definition strip_suffix :: "'a list \<Rightarrow> 'a list \<Rightarrow> 'a list option" where
  "strip_suffix p s = map_option rev (strip_prefix (rev p) (rev s))"

fun split_once :: "'a \<Rightarrow> 'a list \<Rightarrow> ('a list \<times> 'a list) option" where
  "split_once c [] = None"
| "split_once c (x # xs) =
     (if x = c then Some ([], xs)
      else (case split_once c xs of None \<Rightarrow> None | Some (a, b) \<Rightarrow> Some (x # a, b)))"

text \<open>\<^verbatim>\<open>s.split(c).next()\<close> and \<^verbatim>\<open>s.rsplit(c).next()\<close>; both always yield a piece.\<close>

definition split_first :: "'a \<Rightarrow> 'a list \<Rightarrow> 'a list" where
  "split_first c s = takeWhile (\<lambda>x. x \<noteq> c) s"

definition rsplit_first :: "'a \<Rightarrow> 'a list \<Rightarrow> 'a list" where
  "rsplit_first c s = rev (takeWhile (\<lambda>x. x \<noteq> c) (rev s))"

definition trim_end_matches :: "'a \<Rightarrow> 'a list \<Rightarrow> 'a list" where
  "trim_end_matches c s = rev (dropWhile (\<lambda>x. x = c) (rev s))"

text \<open>\<^verbatim>\<open>char::is_ascii_alphanumeric\<close> on a byte.\<close>

definition is_ascii_alphanumeric :: "char \<Rightarrow> bool" where
  "is_ascii_alphanumeric c =
     (let n = (of_char c :: nat) in
        (48 \<le> n \<and> n \<le> 57) \<or> (65 \<le> n \<and> n \<le> 90) \<or> (97 \<le> n \<and> n \<le> 122))"

text \<open>
  \<^verbatim>\<open>s.get(..n)\<close>: a prefix of \<open>n\<close> bytes, and \<^verbatim>\<open>None\<close> past the end or inside a
  multi-byte character (a UTF-8 continuation byte is 0x80..0xBF).
\<close>

definition is_char_boundary :: "string \<Rightarrow> nat \<Rightarrow> bool" where
  "is_char_boundary s i =
     (i = 0 \<or> i = length s \<or>
      (i < length s \<and> \<not> (128 \<le> (of_char (s ! i) :: nat) \<and> (of_char (s ! i) :: nat) < 192)))"

definition str_get_to :: "nat \<Rightarrow> string \<Rightarrow> string option" where
  "str_get_to n s = (if n \<le> length s \<and> is_char_boundary s n then Some (take n s) else None)"

text \<open>\<^verbatim>\<open>s.replace(pat, rep)\<close> for a non-empty pattern: left to right, non-overlapping.\<close>

function replace_all :: "'a list \<Rightarrow> 'a list \<Rightarrow> 'a list \<Rightarrow> 'a list" where
  "replace_all pat rep [] = []"
| "replace_all pat rep (x # xs) =
     (case strip_prefix pat (x # xs) of
        None \<Rightarrow> x # replace_all pat rep xs
      | Some rest \<Rightarrow>
          if pat = [] then x # xs else rep @ replace_all pat rep rest)"
  by pat_completeness auto

text \<open>\<^verbatim>\<open>xs.chunks(n)\<close> for a positive chunk size.\<close>

function chunks :: "nat \<Rightarrow> 'a list \<Rightarrow> 'a list list" where
  "chunks n xs = (if xs = [] \<or> n = 0 then [] else take n xs # chunks n (drop n xs))"
  by pat_completeness auto
termination
  by (relation "measure (\<lambda>(n, xs). length xs)") auto

declare chunks.simps [simp del]

text \<open>\<^verbatim>\<open>xs.get(i)\<close>.\<close>

definition get_at :: "'a list \<Rightarrow> nat \<Rightarrow> 'a option" where
  "get_at xs i = (if i < length xs then Some (xs ! i) else None)"

subsection \<open>Their laws\<close>

lemma strip_prefix_Some [str_laws]: "strip_prefix p s = Some r \<longleftrightarrow> s = p @ r"
  by (induction p s rule: strip_prefix.induct) auto

lemma strip_prefix_None: "strip_prefix p s = None \<longleftrightarrow> (\<nexists>r. s = p @ r)"
  by (metis not_Some_eq strip_prefix_Some)

lemma strip_prefix_append [simp]: "strip_prefix p (p @ r) = Some r"
  by (simp add: strip_prefix_Some)

lemma strip_suffix_Some [str_laws]: "strip_suffix p s = Some r \<longleftrightarrow> s = r @ p"
proof -
  have "strip_suffix p s = Some r \<longleftrightarrow> rev s = rev p @ rev r"
    by (auto simp: strip_suffix_def strip_prefix_Some)
  also have "\<dots> \<longleftrightarrow> s = r @ p"
    by (metis rev_append rev_rev_ident)
  finally show ?thesis .
qed

lemma strip_suffix_append [simp]: "strip_suffix p (r @ p) = Some r"
  by (simp add: strip_suffix_Some)

termination replace_all
proof (relation "measure (\<lambda>(pat, rep, s). length s)")
  fix pat rep :: "'a list" and x xs rest
  assume "strip_prefix pat (x # xs) = Some rest" "pat \<noteq> []"
  then have "x # xs = pat @ rest" by (simp add: strip_prefix_Some)
  then have "length (x # xs) = length pat + length rest" by (metis length_append)
  with \<open>pat \<noteq> []\<close> show "((pat, rep, rest), pat, rep, x # xs) \<in> measure (\<lambda>(pat, rep, s). length s)"
    by (cases pat) auto
qed auto

lemma split_once_Some [str_laws]:
  "split_once c s = Some (a, b) \<longleftrightarrow> s = a @ c # b \<and> c \<notin> set a"
proof (induction s arbitrary: a)
  case (Cons x xs)
  show ?case
  proof (cases "x = c")
    case True
    then show ?thesis by (cases a) auto
  next
    case False
    then show ?thesis
      by (cases a; cases "split_once c xs") (use Cons.IH in fastforce)+
  qed
qed simp

lemma split_once_None [str_laws]: "split_once c s = None \<longleftrightarrow> c \<notin> set s"
  by (induction s) (auto split: option.splits)

lemma split_first_free: "c \<notin> set a \<Longrightarrow> split_first c (a @ c # b) = a"
  unfolding split_first_def by (subst takeWhile_append2) auto

lemma split_first_id: "c \<notin> set a \<Longrightarrow> split_first c a = a"
  unfolding split_first_def takeWhile_eq_all_conv by blast

lemma rsplit_first_free: "c \<notin> set b \<Longrightarrow> rsplit_first c (a @ c # b) = b"
proof -
  assume "c \<notin> set b"
  then have "takeWhile (\<lambda>x. x \<noteq> c) (rev b @ c # rev a) = rev b"
    by (subst takeWhile_append2) auto
  then show ?thesis unfolding rsplit_first_def by (metis append.assoc append_Cons append_Nil rev.simps(2) rev_append rev_rev_ident)
qed

lemma rsplit_first_id: "c \<notin> set b \<Longrightarrow> rsplit_first c b = b"
proof -
  assume "c \<notin> set b"
  then have "takeWhile (\<lambda>x. x \<noteq> c) (rev b) = rev b"
    unfolding takeWhile_eq_all_conv by auto
  then show ?thesis unfolding rsplit_first_def by (metis rev_rev_ident)
qed

lemma trim_end_matches_id:
  "s = [] \<or> last s \<noteq> c \<Longrightarrow> trim_end_matches c s = s"
  by (cases s rule: rev_cases) (auto simp: trim_end_matches_def)

lemma trim_end_matches_snoc: "trim_end_matches c (s @ [c]) = trim_end_matches c s"
  by (simp add: trim_end_matches_def)

lemma get_at_Some: "get_at xs i = Some x \<longleftrightarrow> i < length xs \<and> xs ! i = x"
  by (auto simp: get_at_def)

lemma find_SomeD: "find P xs = Some x \<Longrightarrow> x \<in> set xs \<and> P x"
  by (auto simp: find_Some_iff)

lemma map_sum_id_Inl [simp]: "map_sum id f x = Inl e \<longleftrightarrow> x = Inl e"
  by (cases x) auto

lemma map_sum_id_Inr [simp]: "map_sum id f x = Inr y \<longleftrightarrow> (\<exists>z. x = Inr z \<and> y = f z)"
  by (cases x) auto

section \<open>Chunking and ordering of lists\<close>

lemma chunks_Nil [simp]: "chunks n [] = []"
  by (simp add: chunks.simps)

lemma concat_chunks [simp]: "0 < n \<Longrightarrow> concat (chunks n xs) = xs"
proof (induction n xs rule: chunks.induct)
  case (1 n xs)
  then show ?case by (cases "xs = []") (simp_all add: chunks.simps [of n xs])
qed

lemma chunks_length: "c \<in> set (chunks n xs) \<Longrightarrow> 0 < length c \<and> length c \<le> n"
proof (induction n xs rule: chunks.induct)
  case (1 n xs)
  then show ?case by (auto simp: chunks.simps [of n xs] split: if_splits)
qed

lemma sort_key_Nil_iff [simp]: "sort_key f xs = [] \<longleftrightarrow> xs = []"
  by (metis length_0_conv length_sort)

lemma set_sort_key_filter [simp]: "set (sort_key f (filter P xs)) = {x \<in> set xs. P x}"
  by simp

lemma sum_list_filter_partition:
  "sum_list (map f xs) = sum_list (map f (filter P xs)) + (sum_list (map f (filter (\<lambda>x. \<not> P x) xs)) :: int)"
  by (induction xs) auto

lemma distinct_map_filterI: "distinct (map f xs) \<Longrightarrow> distinct (map f (filter P xs))"
  by (induction xs) auto

lemma distinct_key_unique:
  "distinct (map f xs) \<Longrightarrow> x \<in> set xs \<Longrightarrow> y \<in> set xs \<Longrightarrow> f x = f y \<Longrightarrow> x = y"
  by (auto simp: distinct_map inj_on_def)

lemma filter_key_single:
  "distinct (map f xs) \<Longrightarrow> x \<in> set xs \<Longrightarrow> filter (\<lambda>y. f y = f x) xs = [x]"
proof (induction xs)
  case (Cons y ys)
  then show ?case by (cases "y = x") (auto simp: filter_empty_conv image_iff)
qed simp

end
