(* ===== verification/Store_Paths.thy ===== *)
theory Store_Paths
  imports Garret_Prelude
begin

text \<open>
  \<^verbatim>\<open>crates/garret-common/src/lib.rs\<close>: the framed preamble of an upload, the Nix base32
  spelling of digests, and the recognisers of store paths and store path hashes.

  \<^verbatim>\<open>serde_json\<close> is not part of the repository: the JSON printer and parser are the parameters
  \<open>to_vec\<close> and \<open>from_slice\<close> of the definitions that use them. Lengths are \<^typ>\<open>nat\<close> for
  \<^verbatim>\<open>usize\<close> (64 bits on the supported targets; no value here can reach \<open>2 ^ 64\<close>), and the
  narrowing \<^verbatim>\<open>as u32\<close> of the frame length is the wrapping conversion into \<^typ>\<open>u32\<close>.
\<close>

unbundle bit_operations_syntax

section \<open>The framed preamble\<close>

record preamble =
  pre_store_path :: string
  pre_nar_hash :: string
  pre_nar_size :: int
  pre_references :: "string list"
  pre_deriver :: "string option"
  pre_ca :: "string option"

text \<open>\<^verbatim>\<open>u32::to_le_bytes\<close> and \<^verbatim>\<open>u32::from_le_bytes\<close>.\<close>

definition to_le_bytes :: "u32 \<Rightarrow> bytes" where
  "to_le_bytes w = [ucast w, ucast (drop_bit 8 w), ucast (drop_bit 16 w), ucast (drop_bit 24 w)]"

definition from_le_bytes :: "u8 \<Rightarrow> u8 \<Rightarrow> u8 \<Rightarrow> u8 \<Rightarrow> u32" where
  "from_le_bytes a b c d =
     ucast a OR push_bit 8 (ucast b) OR push_bit 16 (ucast c) OR push_bit 24 (ucast d)"

definition to_framed :: "(preamble \<Rightarrow> 'e + bytes) \<Rightarrow> preamble \<Rightarrow> 'e + bytes" where
  "to_framed to_vec p =
     (case to_vec p of
        Inl e \<Rightarrow> Inl e
      | Inr json \<Rightarrow> Inr (to_le_bytes (word_of_nat (length json)) @ json))"

text \<open>
  \<open>Inr None\<close> while the frame is incomplete, \<open>Inr (Some n)\<close> for a frame of \<open>n\<close> bytes,
  \<open>Inl len\<close> for a declared length over \<open>max\<close>.
\<close>

definition preamble_end :: "bytes \<Rightarrow> nat \<Rightarrow> nat + nat option" where
  "preamble_end buf mx =
     (case buf of
        a # b # c # d # rest \<Rightarrow>
          (let len = unat (from_le_bytes a b c d) in
             if len > mx then Inl len
             else Inr (if length buf - 4 \<ge> len then Some (4 + len) else None))
      | _ \<Rightarrow> Inr None)"

section \<open>Store path hashes\<close>

definition hash_of_store_path :: "string \<Rightarrow> string" where
  "hash_of_store_path path =
     (let base = rsplit_first (CHR ''/'') path in
        case str_get_to 32 base of Some h \<Rightarrow> h | None \<Rightarrow> base)"

definition NIX_BASE32_ALPHABET :: string where
  "NIX_BASE32_ALPHABET = ''0123456789abcdfghijklmnpqrsvwxyz''"

definition is_nix_base32 :: "string \<Rightarrow> bool" where
  "is_nix_base32 s = list_all (\<lambda>b. b \<in> set NIX_BASE32_ALPHABET) s"

definition nix_base32_len :: "nat \<Rightarrow> nat" where
  "nix_base32_len n = (if n = 0 then 0 else (n * 8 - 1) div 5 + 1)"

text \<open>
  The \<open>n\<close>-th group of five bits. The shift \<^verbatim>\<open>next << (8 - j)\<close> drops the bits above the
  byte, as Rust's \<^verbatim>\<open>u8\<close> shift does.
\<close>

definition base32_group :: "bytes \<Rightarrow> nat \<Rightarrow> u8" where
  "base32_group bs n =
     (let b = n * 5; i = b div 8; j = b mod 8;
          lo = drop_bit j (bs ! i);
          hi = (case get_at bs (i + 1) of
                  None \<Rightarrow> 0
                | Some nxt \<Rightarrow> if j = 0 then 0 else push_bit (8 - j) nxt)
      in (lo OR hi) AND 31)"

definition nix_base32_encode :: "bytes \<Rightarrow> string" where
  "nix_base32_encode bs =
     map (\<lambda>n. NIX_BASE32_ALPHABET ! unat (base32_group bs n)) (rev [0..<nix_base32_len (length bs)])"

definition sha256_nix32 :: "bytes \<Rightarrow> string" where
  "sha256_nix32 digest = ''sha256:'' @ nix_base32_encode digest"

definition is_store_hash :: "string \<Rightarrow> bool" where
  "is_store_hash s = (length s = 32 \<and> is_nix_base32 s)"

definition is_name_byte :: "char \<Rightarrow> bool" where
  "is_name_byte b = (is_ascii_alphanumeric b \<or> b \<in> set ''+-._?='')"

definition store_basename :: "string \<Rightarrow> string \<Rightarrow> string option" where
  "store_basename path store_dir =
     (case strip_prefix store_dir path of
        None \<Rightarrow> None
      | Some rest \<Rightarrow>
          (case strip_prefix ''/'' rest of
             None \<Rightarrow> None
           | Some base \<Rightarrow>
               (case split_once (CHR ''-'') base of
                  None \<Rightarrow> None
                | Some (hash, name) \<Rightarrow>
                    (let name_ok = 1 \<le> length name \<and> length name \<le> 211 \<and> list_all is_name_byte name
                     in if is_store_hash hash \<and> name_ok then Some base else None))))"

definition parse_store_hash :: "string \<Rightarrow> string option" where
  "parse_store_hash text =
     (let base = rsplit_first (CHR ''/'') (trim_end_matches (CHR ''/'') text);
          hash = split_first (CHR ''-'') base
      in if is_store_hash hash then Some hash else None)"

text \<open>Seconds a Negotiation protects the paths it reported present.\<close>

definition PUSH_GRACE :: int where "PUSH_GRACE = 86400"

definition PUSH_GRACE_HOURS :: int where "PUSH_GRACE_HOURS = PUSH_GRACE div 3600"

text \<open>
  \<^verbatim>\<open>remove_stale_socket\<close>: what \<^verbatim>\<open>symlink_metadata\<close> reports about the path decides. The
  result carries whether the path is removed.
\<close>

datatype path_kind = IsSocket | IsOther | IsAbsent | IsIoError

datatype io_error = AlreadyExists | OtherIoError

definition remove_stale_socket :: "path_kind \<Rightarrow> (io_error + unit) \<Rightarrow> (io_error + unit) \<times> bool" where
  "remove_stale_socket meta remove_file =
     (case meta of
        IsSocket \<Rightarrow> (remove_file, remove_file = Inr ())
      | IsOther \<Rightarrow> (Inl AlreadyExists, False)
      | IsAbsent \<Rightarrow> (Inr (), False)
      | IsIoError \<Rightarrow> (Inl OtherIoError, False))"

section \<open>Framing\<close>

lemma length_to_le_bytes [simp]: "length (to_le_bytes w) = 4"
  by (simp add: to_le_bytes_def)

lemma from_to_le_bytes:
  "from_le_bytes (ucast w) (ucast (drop_bit 8 w)) (ucast (drop_bit 16 w)) (ucast (drop_bit 24 w)) = w"
proof (rule bit_word_eqI)
  fix n assume "n < LENGTH(32)"
  then have n: "n < 32" by simp
  then consider "n < 8" | "8 \<le> n" "n < 16" | "16 \<le> n" "n < 24" | "24 \<le> n" by linarith
  then show "bit (from_le_bytes (ucast w) (ucast (drop_bit 8 w)) (ucast (drop_bit 16 w))
      (ucast (drop_bit 24 w))) n = bit w n"
    using n by cases (auto simp: from_le_bytes_def bit_simps less_diff_conv2)
qed

lemma preamble_end_framed:
  "length json < 2 ^ 32 \<Longrightarrow>
   preamble_end (to_le_bytes (word_of_nat (length json)) @ json @ rest) mx =
     (if length json > mx then Inl (length json) else Inr (Some (4 + length json)))"
  by (simp add: preamble_end_def to_le_bytes_def from_to_le_bytes unat_of_nat Let_def)

lemma preamble_end_prefix:
  assumes "n < 4 + length json" "length json \<le> mx" "length json < 2 ^ 32"
  shows "preamble_end (take n (to_le_bytes (word_of_nat (length json)) @ json)) mx = Inr None"
proof (cases "n < 4")
  case True
  then consider "n = 0" | "n = 1" | "n = 2" | "n = 3" by linarith
  then show ?thesis by cases (simp_all add: preamble_end_def to_le_bytes_def numeral_2_eq_2 numeral_3_eq_3)
next
  case False
  then have "n = Suc (Suc (Suc (Suc (n - 4))))" by simp
  then obtain m where "n = Suc (Suc (Suc (Suc m)))" by blast
  then show ?thesis using assms
    by (simp add: preamble_end_def to_le_bytes_def from_to_le_bytes unat_of_nat Let_def)
qed

text \<open>A reported frame is exactly the declared length, within the maximum and inside the buffer.\<close>

lemma preamble_end_Some:
  assumes "preamble_end buf mx = Inr (Some e)"
  obtains a b c d rest where "buf = a # b # c # d # rest"
    "e = 4 + unat (from_le_bytes a b c d)" "e \<le> length buf" "e \<le> 4 + mx"
  using assms that by (auto simp: preamble_end_def Let_def split: list.splits if_splits)

lemma preamble_end_mono:
  assumes "preamble_end buf mx = Inr (Some e)"
  shows "preamble_end (buf @ sfx) mx = Inr (Some e)"
  using assms by (auto simp: preamble_end_def Let_def split: list.splits if_splits)

lemma preamble_end_Inl_mono:
  assumes "preamble_end buf mx = Inl l"
  shows "preamble_end (buf @ sfx) mx = Inl l"
  using assms by (auto simp: preamble_end_def Let_def split: list.splits if_splits)

section \<open>Base32\<close>

lemma bit_horner_bytes:
  "bit (horner_sum unat 256 bs :: nat) q \<longleftrightarrow> q div 8 < length bs \<and> bit (bs ! (q div 8)) (q mod 8)"
  for bs :: bytes
proof (induction bs arbitrary: q)
  case Nil
  then show ?case by simp
next
  case (Cons b bs)
  let ?X = "horner_sum unat 256 bs :: nat"
  have lt: "unat b < 2 ^ 8" using unsigned_less [of b] by simp
  have eq: "horner_sum unat 256 (b # bs) = unat b + 2 ^ 8 * ?X" by simp
  have split: "bit (unat b + 2 ^ 8 * ?X) q \<longleftrightarrow> (if q < 8 then bit (unat b) q else bit ?X (q - 8))"
  proof (cases "q < 8")
    case True
    have "bit (unat b + 2 ^ 8 * ?X) q \<longleftrightarrow> bit (take_bit 8 (unat b + 2 ^ 8 * ?X)) q"
      using True by (simp add: bit_take_bit_iff)
    also have "take_bit 8 (unat b + 2 ^ 8 * ?X) = unat b"
      using lt by (simp add: take_bit_eq_mod)
    finally show ?thesis using True by simp
  next
    case False
    then have "q = 8 + (q - 8)" by simp
    then have "bit (unat b + 2 ^ 8 * ?X) q \<longleftrightarrow> bit (drop_bit 8 (unat b + 2 ^ 8 * ?X)) (q - 8)"
      by (metis bit_drop_bit_eq comp_apply)
    also have "drop_bit 8 (unat b + 2 ^ 8 * ?X) = ?X"
      using lt by (simp add: drop_bit_eq_div)
    finally show ?thesis using False by simp
  qed
  show ?case
  proof (cases "q < 8")
    case True
    then show ?thesis using split eq by (simp add: bit_unsigned_iff)
  next
    case False
    then have "q div 8 = Suc ((q - 8) div 8)" "q mod 8 = (q - 8) mod 8"
      by (simp_all add: div_if mod_if)
    then show ?thesis using False split eq Cons.IH by simp
  qed
qed

lemma base32_group_less: "unat (base32_group bs n) < 32"
proof -
  have "base32_group bs n = base32_group bs n AND 31"
    by (simp add: base32_group_def Let_def ac_simps)
  then have "base32_group bs n \<le> 31" by (metis word_and_le1)
  then show ?thesis by (simp add: word_le_nat_alt)
qed

lemma base32_index_in_range:
  "n < nix_base32_len (length bs) \<Longrightarrow> n * 5 div 8 < length bs"
proof -
  assume n: "n < nix_base32_len (length bs)"
  then have "length bs \<noteq> 0" by (auto simp: nix_base32_len_def)
  moreover from this n have "n \<le> (length bs * 8 - 1) div 5" by (simp add: nix_base32_len_def)
  ultimately show ?thesis by linarith
qed

lemma bit_base32_group:
  assumes "n < nix_base32_len (length bs)" "k < 5"
  shows "bit (base32_group bs n) k \<longleftrightarrow> bit (horner_sum unat 256 bs :: nat) (n * 5 + k)"
proof -
  define i j where "i = n * 5 div 8" and "j = n * 5 mod 8"
  have n5: "n * 5 = 8 * i + j" "j < 8" by (simp_all add: i_def j_def)
  have i: "i < length bs" using base32_index_in_range assms(1) by (simp add: i_def)
  have m31: "bit (31 :: u8) k" using assms(2)
    by (simp add: less_Suc_eq numeral_eq_Suc) (auto simp: numeral_eq_Suc [symmetric])
  show ?thesis
  proof (cases "j + k < 8")
    case True
    then have "(n * 5 + k) div 8 = i" "(n * 5 + k) mod 8 = j + k"
      unfolding n5(1) by (simp_all add: add.assoc)
    moreover have "bit (base32_group bs n) k \<longleftrightarrow> bit (bs ! i) (j + k)"
      using True m31 by (auto simp: base32_group_def Let_def i_def [symmetric] j_def [symmetric]
          bit_simps split: option.splits)
    ultimately show ?thesis using i by (simp add: bit_horner_bytes)
  next
    case False
    then have "n * 5 + k = 8 * (i + 1) + (j + k - 8)" "j + k - 8 < 8"
      using n5 assms(2) by simp_all
    then have q: "(n * 5 + k) div 8 = i + 1" "(n * 5 + k) mod 8 = j + k - 8"
      by (simp_all only: div_mult_self4 mod_mult_self4) simp_all
    have over: "\<not> bit (bs ! i) (j + k)" using False bit_imp_le_length [of "bs ! i" "j + k"] by auto
    have "bit (base32_group bs n) k \<longleftrightarrow> i + 1 < length bs \<and> bit (bs ! (i + 1)) (j + k - 8)"
      using False m31 over assms(2) n5(2)
      by (auto simp: base32_group_def Let_def i_def [symmetric] j_def [symmetric] get_at_def
          bit_simps add.commute [of k j])
    then show ?thesis using q by (simp add: bit_horner_bytes)
  qed
qed

lemma base32_group_eq:
  assumes "n < nix_base32_len (length bs)"
  shows "unat (base32_group bs n) = horner_sum unat 256 bs div 32 ^ n mod 32"
proof -
  let ?N = "horner_sum unat 256 bs :: nat"
  have "?N div 32 ^ n mod 32 = take_bit 5 (drop_bit (n * 5) ?N)"
    by (simp add: take_bit_eq_mod drop_bit_eq_div power_mult mult.commute [of n 5])
  also have "\<dots> = unat (base32_group bs n)"
  proof (rule bit_eqI)
    fix k
    have "\<not> k < 5 \<Longrightarrow> \<not> bit (unat (base32_group bs n)) k"
    proof -
      assume "\<not> k < 5"
      then have "(2::nat) ^ 5 \<le> 2 ^ k" by (intro power_increasing) auto
      then show ?thesis
        using base32_group_less [of bs n] by (simp add: bit_iff_odd)
    qed
    then show "bit (take_bit 5 (drop_bit (n * 5) ?N)) k = bit (unat (base32_group bs n)) k"
      using bit_base32_group [OF assms, of k]
      by (cases "k < 5") (auto simp: bit_simps bit_unsigned_iff dest: bit_imp_le_length)
  qed
  finally show ?thesis by simp
qed

lemma length_NIX_BASE32_ALPHABET [simp]: "length NIX_BASE32_ALPHABET = 32"
  by (simp add: NIX_BASE32_ALPHABET_def)

lemma distinct_NIX_BASE32_ALPHABET: "distinct NIX_BASE32_ALPHABET"
  by (simp add: NIX_BASE32_ALPHABET_def)

lemma length_nix_base32_encode [simp]: "length (nix_base32_encode bs) = nix_base32_len (length bs)"
  by (simp add: nix_base32_encode_def)

lemma is_nix_base32_encode: "is_nix_base32 (nix_base32_encode bs)"
  by (auto simp: is_nix_base32_def nix_base32_encode_def list_all_iff base32_group_less nth_mem)

lemma nix_base32_len_covers: "8 * n \<le> 5 * nix_base32_len n"
  by (auto simp: nix_base32_len_def)

text \<open>The bits beyond the encoded number are zero, so equal groups give equal numbers.\<close>

lemma nix_base32_encode_group:
  assumes "nix_base32_encode xs = nix_base32_encode ys" "length xs = length ys"
    "n < nix_base32_len (length xs)"
  shows "base32_group xs n = base32_group ys n"
proof -
  have "NIX_BASE32_ALPHABET ! unat (base32_group xs n) = NIX_BASE32_ALPHABET ! unat (base32_group ys n)"
    using assms by (auto simp: nix_base32_encode_def)
  then have "unat (base32_group xs n) = unat (base32_group ys n)"
    using distinct_NIX_BASE32_ALPHABET base32_group_less
    by (simp add: nth_eq_iff_index_eq)
  then show ?thesis by (rule unsigned_word_eqI)
qed

lemma nix_base32_encode_inject:
  assumes "nix_base32_encode xs = nix_base32_encode ys" "length xs = length ys"
  shows "xs = ys"
proof (rule nth_equalityI)
  fix i assume i: "i < length xs"
  show "xs ! i = ys ! i"
  proof (rule bit_word_eqI)
    fix p assume "p < LENGTH(8)"
    then have p: "p < 8" by simp
    define q where "q = 8 * i + p"
    have q: "q div 8 = i" "q mod 8 = p" using p by (simp_all add: q_def)
    have "q < 5 * nix_base32_len (length xs)"
      using nix_base32_len_covers [of "length xs"] i p by (simp add: q_def)
    then have n: "q div 5 < nix_base32_len (length xs)" by (simp add: less_mult_imp_div_less mult.commute)
    have split: "q = q div 5 * 5 + q mod 5" by simp
    have "bit (horner_sum unat 256 xs :: nat) q = bit (base32_group xs (q div 5)) (q mod 5)"
      using bit_base32_group [OF n, of "q mod 5"] split by simp
    also have "\<dots> = bit (base32_group ys (q div 5)) (q mod 5)"
      using nix_base32_encode_group [OF assms n] by simp
    also have "\<dots> = bit (horner_sum unat 256 ys :: nat) q"
      using bit_base32_group [of "q div 5" ys "q mod 5"] n assms(2) split by simp
    finally show "bit (xs ! i) p = bit (ys ! i) p"
      using i assms(2) by (simp add: bit_horner_bytes q)
  qed
qed (use assms in simp)

section \<open>Store paths\<close>

lemma is_store_hash_in_alphabet: "is_store_hash h \<Longrightarrow> c \<in> set h \<Longrightarrow> c \<in> set NIX_BASE32_ALPHABET"
  by (simp add: is_store_hash_def is_nix_base32_def list_all_iff)

lemma alphabet_chars:
  "CHR ''/'' \<notin> set NIX_BASE32_ALPHABET" "CHR ''-'' \<notin> set NIX_BASE32_ALPHABET"
  "\<forall>c \<in> set NIX_BASE32_ALPHABET. (of_char c :: nat) < 128"
  by (simp_all add: NIX_BASE32_ALPHABET_def)

lemma is_store_hash_chars:
  "is_store_hash h \<Longrightarrow> CHR ''/'' \<notin> set h \<and> CHR ''-'' \<notin> set h"
  using is_store_hash_in_alphabet alphabet_chars by blast

lemma store_basename_Some [str_laws]:
  "store_basename path dir = Some base \<longleftrightarrow>
     path = dir @ ''/'' @ base \<and>
     (\<exists>h n. base = h @ ''-'' @ n \<and> is_store_hash h \<and> 1 \<le> length n \<and> length n \<le> 211 \<and> list_all is_name_byte n)"
proof
  assume "store_basename path dir = Some base"
  then show "path = dir @ ''/'' @ base \<and>
     (\<exists>h n. base = h @ ''-'' @ n \<and> is_store_hash h \<and> 1 \<le> length n \<and> length n \<le> 211 \<and> list_all is_name_byte n)"
    by (auto simp: store_basename_def strip_prefix_Some split_once_Some Let_def
        split: option.splits if_splits) blast
next
  assume "path = dir @ ''/'' @ base \<and>
     (\<exists>h n. base = h @ ''-'' @ n \<and> is_store_hash h \<and> 1 \<le> length n \<and> length n \<le> 211 \<and> list_all is_name_byte n)"
  then obtain h n where "path = dir @ ''/'' @ base" "base = h @ ''-'' @ n" "is_store_hash h"
    "1 \<le> length n" "length n \<le> 211" "list_all is_name_byte n" by blast
  moreover from this have "split_once (CHR ''-'') base = Some (h, n)"
    using is_store_hash_chars by (simp add: split_once_Some)
  moreover have "strip_prefix dir path = Some (''/'' @ base)"
    using calculation(1) by (simp add: strip_prefix_Some)
  ultimately show "store_basename path dir = Some base"
    by (simp add: store_basename_def Let_def)
qed

lemma is_name_byte_ascii: "is_name_byte c \<Longrightarrow> (of_char c :: nat) < 128 \<and> c \<noteq> CHR ''/''"
  by (auto simp: is_name_byte_def is_ascii_alphanumeric_def Let_def)

lemma rsplit_first_path:
  assumes "CHR ''/'' \<notin> set b"
  shows "rsplit_first (CHR ''/'') (dir @ ''/'' @ b) = b"
  using rsplit_first_free [OF assms, of dir] by simp

text \<open>A valid basename is plain ASCII and holds no slash, so the hash is its first 32 bytes.\<close>

lemma hash_of_store_path_basename:
  assumes "store_basename path dir = Some base"
  shows "hash_of_store_path path = take 32 base \<and> is_store_hash (take 32 base)"
proof -
  obtain h n where *: "path = dir @ ''/'' @ base" "base = h @ ''-'' @ n" "is_store_hash h"
    "list_all is_name_byte n"
    using assms by (auto simp: store_basename_Some)
  then have len: "length h = 32" by (simp add: is_store_hash_def)
  have "CHR ''/'' \<notin> set base"
    using * is_store_hash_chars is_name_byte_ascii by (auto simp: list_all_iff)
  then have "rsplit_first (CHR ''/'') path = base"
    using *(1) rsplit_first_path by simp
  moreover have "str_get_to 32 base = Some (take 32 base)"
    using * len by (auto simp: str_get_to_def is_char_boundary_def nth_append)
  ultimately show ?thesis
    using * len by (simp add: hash_of_store_path_def)
qed

lemma parse_store_hash_bare: "is_store_hash h \<Longrightarrow> parse_store_hash h = Some h"
proof -
  assume h: "is_store_hash h"
  then have "last h \<noteq> CHR ''/''"
    using is_store_hash_chars [of h] by (metis is_store_hash_def last_in_set length_0_conv zero_neq_numeral)
  then show ?thesis
    using h is_store_hash_chars [of h]
    by (simp add: parse_store_hash_def trim_end_matches_id rsplit_first_id split_first_id)
qed

lemma parse_store_hash_path:
  assumes "store_basename path dir = Some base"
  shows "parse_store_hash path = Some (take 32 base) \<and> parse_store_hash (path @ ''/'') = Some (take 32 base)"
proof -
  obtain h n where *: "path = dir @ ''/'' @ base" "base = h @ ''-'' @ n" "is_store_hash h"
    "list_all is_name_byte n"
    using assms by (auto simp: store_basename_Some)
  then have len: "length h = 32" by (simp add: is_store_hash_def)
  have nb: "CHR ''/'' \<notin> set base"
    using * is_store_hash_chars is_name_byte_ascii by (auto simp: list_all_iff)
  then have "last path \<noteq> CHR ''/''"
    using * by (metis Nil_is_append_conv last_appendR last_in_set list.distinct(1))
  then have trim: "trim_end_matches (CHR ''/'') path = path" by (simp add: trim_end_matches_id)
  have "rsplit_first (CHR ''/'') path = base"
    using *(1) rsplit_first_path [OF nb] by simp
  moreover have "split_first (CHR ''-'') base = h"
    using *(2,3) is_store_hash_chars split_first_free [of "CHR ''-''" h n] by simp
  moreover have "trim_end_matches (CHR ''/'') (path @ ''/'') = path"
    using trim by (simp add: trim_end_matches_snoc)
  ultimately show ?thesis
    using trim *(2,3) len by (simp add: parse_store_hash_def)
qed

end
