(* ===== verification/Wire.thy ===== *)
theory Wire
  imports Store_Paths
begin

text \<open>
  \<^verbatim>\<open>crates/garret-common/src/wire.rs\<close>: the HTTP contract between the services and their
  clients. Routes and file names are strings, the response bodies are records with the
  source's fields; only the JSON spelling of a body (\<^verbatim>\<open>serde\<close>) is left out.
\<close>

section \<open>Routes and file names\<close>

definition MISSING_PATHS :: string where "MISSING_PATHS = ''/api/v1/missing-paths''"
definition NAR_UPLOAD :: string where "NAR_UPLOAD = ''/api/v1/nar/{hash}''"
definition DISCOVERY :: string where "DISCOVERY = ''/api/v1/discovery''"
definition OBJECTS :: string where "OBJECTS = ''/api/v1/objects''"
definition OBJECT :: string where "OBJECT = ''/api/v1/objects/{hash}''"
definition OBJECT_TREE :: string where "OBJECT_TREE = ''/api/v1/objects/{hash}/tree''"
definition OBJECT_REFERRERS :: string where "OBJECT_REFERRERS = ''/api/v1/objects/{hash}/referrers''"
definition PINS :: string where "PINS = ''/api/v1/pins''"
definition NIX_CACHE_INFO :: string where "NIX_CACHE_INFO = ''/nix-cache-info''"
definition NAR_FILE :: string where "NAR_FILE = ''/nar/{file}''"

definition DEFAULT_LIMIT :: nat where "DEFAULT_LIMIT = 50"
definition MAX_LIMIT :: nat where "MAX_LIMIT = 500"

definition with_hash :: "string \<Rightarrow> string \<Rightarrow> string" where
  "with_hash route hash = replace_all ''{hash}'' hash route"

definition NARINFO_SUFFIX :: string where "NARINFO_SUFFIX = ''.narinfo''"
definition NAR_SUFFIX :: string where "NAR_SUFFIX = ''.nar.zst''"

definition narinfo_file :: "string \<Rightarrow> string" where
  "narinfo_file hash = hash @ NARINFO_SUFFIX"

definition narinfo_hash :: "string \<Rightarrow> string option" where
  "narinfo_hash file = strip_suffix NARINFO_SUFFIX file"

definition nar_url :: "string \<Rightarrow> string" where
  "nar_url hash = ''nar/'' @ hash @ NAR_SUFFIX"

definition nar_file_hash :: "string \<Rightarrow> string option" where
  "nar_file_hash file = strip_suffix NAR_SUFFIX file"

section \<open>Bodies\<close>

datatype upload_ack = Created | Exists | InProgress

text \<open>The \<^verbatim>\<open>status\<close> tag, \<^verbatim>\<open>rename_all = "kebab-case"\<close>.\<close>

fun upload_ack_tag :: "upload_ack \<Rightarrow> string" where
  "upload_ack_tag Created = ''created''"
| "upload_ack_tag Exists = ''exists''"
| "upload_ack_tag InProgress = ''in-progress''"

record oidc =
  oidc_audience :: string
  oidc_client_id :: "string option"
  oidc_issuer :: string

record discovery =
  disc_oidc :: "oidc option"
  disc_public_keys :: "string list"
  disc_puller_endpoint :: "string option"

record summary =
  sum_hash :: hash
  sum_name :: string
  sum_store_path :: string
  sum_nar_size :: int
  sum_file_size :: int
  sum_created_at :: int

record object_detail =
  det_store_path_hash :: hash
  det_store_path :: string
  det_name :: string
  det_nar_hash :: string
  det_nar_size :: int
  det_file_hash :: string
  det_file_size :: int
  det_deriver :: "string option"
  det_ca :: "string option"
  det_references :: "string list"
  det_sigs :: "string list"
  det_pushed_by :: "string option"

record page =
  page_objects :: "summary list"
  page_next_cursor :: "string option"

datatype tree_node = TreeNode
  (tree_hash: hash) (tree_name: string) (tree_missing: bool) (tree_truncated: bool)
  (tree_children: "tree_node list")

record pin =
  pin_name :: string
  pin_store_path_hash :: hash
  pin_store_path :: string
  pin_expires_at :: "int option"
  pin_created_at :: int

section \<open>Laws\<close>

lemma narinfo_hash_file [simp]: "narinfo_hash (narinfo_file h) = Some h"
  by (simp add: narinfo_hash_def narinfo_file_def)

lemma narinfo_hash_Some [str_laws]: "narinfo_hash f = Some h \<longleftrightarrow> f = narinfo_file h"
  by (simp add: narinfo_hash_def narinfo_file_def strip_suffix_Some)

lemma nar_file_hash_Some [str_laws]: "nar_file_hash f = Some h \<longleftrightarrow> ''nar/'' @ f = nar_url h"
  by (simp add: nar_file_hash_def nar_url_def strip_suffix_Some)

lemma replace_all_free:
  assumes "c \<notin> set s" "pat = c # ps"
  shows "replace_all pat rep s = s"
  using assms(1)
proof (induction s)
  case (Cons x xs)
  then show ?case using assms(2) by auto
qed simp

text \<open>Each parameterised route has the hash in exactly one place.\<close>

lemma with_hash_routes:
  "with_hash NAR_UPLOAD h = ''/api/v1/nar/'' @ h"
  "with_hash OBJECT h = ''/api/v1/objects/'' @ h"
  "with_hash OBJECT_TREE h = ''/api/v1/objects/'' @ h @ ''/tree''"
  "with_hash OBJECT_REFERRERS h = ''/api/v1/objects/'' @ h @ ''/referrers''"
  by (simp_all add: with_hash_def NAR_UPLOAD_def OBJECT_def OBJECT_TREE_def OBJECT_REFERRERS_def)

lemma upload_ack_tag_inject: "upload_ack_tag a = upload_ack_tag b \<Longrightarrow> a = b"
  by (cases a; cases b) simp_all

end
