(* ===== verification/InFlight.thy ===== *)
theory InFlight
  imports Garret_Prelude
begin

text \<open>
  \<^verbatim>\<open>crates/garret-server/src/inflight.rs\<close>: the in-memory claims on store paths and the quiesce
  gate. Every method runs under the one lock, so it is a function on the state. A \<^verbatim>\<open>Claim\<close> is a
  value its holder owns; here it is the hash it names, and dropping it is \<open>drop_claim\<close>. The
  waiting of \<^verbatim>\<open>drain\<close> is a list of the upload counts it reads, one per wake-up before the timeout.

  \<^verbatim>\<open>usize\<close> counters that would go below zero panic in Rust; \<open>claims_inv\<close> and \<open>claim_system_inv\<close>
  show that the subtractions here never truncate.
\<close>

section \<open>State and operations\<close>

datatype kind = Upload | Delete

datatype refused = RefusedUploading | RefusedDeleting | RefusedQuiescing

datatype busy = BusyUploading | BusyDeleting

fun refused_of_busy :: "busy \<Rightarrow> refused" where
  "refused_of_busy BusyUploading = RefusedUploading"
| "refused_of_busy BusyDeleting = RefusedDeleting"

record in_flight =
  claims :: "hash \<rightharpoonup> kind"
  uploads :: nat
  quiescers :: nat

definition new_in_flight :: in_flight where
  "new_in_flight = \<lparr>claims = Map.empty, uploads = 0, quiescers = 0\<rparr>"

definition take_claim :: "in_flight \<Rightarrow> hash \<Rightarrow> kind \<Rightarrow> busy + in_flight" where
  "take_claim st h k =
     (case claims st h of
        Some Upload \<Rightarrow> Inl BusyUploading
      | Some Delete \<Rightarrow> Inl BusyDeleting
      | None \<Rightarrow> Inr (st\<lparr>claims := (claims st)(h \<mapsto> k),
                        uploads := (if k = Upload then uploads st + 1 else uploads st)\<rparr>))"

definition claim :: "in_flight \<Rightarrow> hash \<Rightarrow> refused + in_flight" where
  "claim st h =
     (if quiescers st > 0 then Inl RefusedQuiescing
      else map_sum refused_of_busy id (take_claim st h Upload))"

definition claim_delete :: "in_flight \<Rightarrow> hash \<Rightarrow> busy + in_flight" where
  "claim_delete st h = take_claim st h Delete"

definition is_claimed :: "in_flight \<Rightarrow> hash \<Rightarrow> bool" where
  "is_claimed st h = (claims st h \<noteq> None)"

definition is_quiescing :: "in_flight \<Rightarrow> bool" where
  "is_quiescing st = (quiescers st > 0)"

definition quiesce :: "in_flight \<Rightarrow> in_flight" where
  "quiesce st = st\<lparr>quiescers := quiescers st + 1\<rparr>"

definition drop_guard :: "in_flight \<Rightarrow> in_flight" where
  "drop_guard st = st\<lparr>quiescers := quiescers st - 1\<rparr>"

definition drop_claim :: "in_flight \<Rightarrow> hash \<Rightarrow> in_flight" where
  "drop_claim st h =
     st\<lparr>claims := (claims st)(h := None),
        uploads := (if claims st h = Some Upload then uploads st - 1 else uploads st)\<rparr>"

fun drain :: "nat list \<Rightarrow> bool" where
  "drain [] = False"
| "drain (u # us) = (u = 0 \<or> drain us)"

text \<open>
  Collecting claims into a \<^verbatim>\<open>Result<Vec<_>>\<close>: the first refusal stops, and the claims taken so far
  are dropped in order.
\<close>

fun acquire_all ::
  "('s \<Rightarrow> 'k \<Rightarrow> 'e + 's) \<Rightarrow> ('s \<Rightarrow> 'k \<Rightarrow> 's) \<Rightarrow> 'k list \<Rightarrow> 'k list \<Rightarrow> 's \<Rightarrow> ('k \<times> 'e + 'k list) \<times> 's" where
  "acquire_all acq rel taken [] s = (Inr taken, s)"
| "acquire_all acq rel taken (k # ks) s =
     (case acq s k of
        Inl e \<Rightarrow> (Inl (k, e), fold (\<lambda>k s. rel s k) taken s)
      | Inr s' \<Rightarrow> acquire_all acq rel (taken @ [k]) ks s')"

section \<open>Interface: exclusive claims\<close>

text \<open>
  What the deletion sequence and the upload handler rely on: while claims are admitted, taking a
  free key succeeds and holds it, taking a held one is refused, and releasing undoes taking.
\<close>

locale exclusive_claims =
  fixes held :: "'s \<Rightarrow> 'k set"
    and admits :: "'s \<Rightarrow> bool"
    and acq :: "'s \<Rightarrow> 'k \<Rightarrow> 'e + 's"
    and rel :: "'s \<Rightarrow> 'k \<Rightarrow> 's"
  assumes acq_free: "admits s \<Longrightarrow> k \<notin> held s \<Longrightarrow>
        \<exists>s'. acq s k = Inr s' \<and> held s' = insert k (held s) \<and> admits s'"
    and acq_held: "k \<in> held s \<Longrightarrow> \<exists>e. acq s k = Inl e"
    and acq_rel: "acq s k = Inr s' \<Longrightarrow> rel s' k = s"
    and rel_commute: "rel (rel s j) k = rel (rel s k) j"
begin

lemma fold_rel_snoc: "fold (\<lambda>k s. rel s k) ks (rel s k) = rel (fold (\<lambda>k s. rel s k) ks s) k"
  by (induction ks arbitrary: s) (simp_all add: rel_commute)

lemma acquire_all_refuses:
  "admits s \<Longrightarrow> \<not> (distinct ks \<and> set ks \<inter> held s = {}) \<Longrightarrow>
   \<exists>k e. k \<in> set ks \<and> acquire_all acq rel taken ks s = (Inl (k, e), fold (\<lambda>k s. rel s k) taken s)"
proof (induction ks arbitrary: taken s)
  case (Cons k ks)
  show ?case
  proof (cases "k \<in> held s")
    case True
    then show ?thesis using acq_held by force
  next
    case False
    then obtain s' where s': "acq s k = Inr s'" "held s' = insert k (held s)" "admits s'"
      using acq_free Cons.prems(1) by blast
    have "\<not> (distinct ks \<and> set ks \<inter> held s' = {})" using Cons.prems(2) False s'(2) by auto
    from Cons.IH [OF s'(3) this, of "taken @ [k]"]
    obtain j e where j: "j \<in> set ks"
      "acquire_all acq rel (taken @ [k]) ks s' = (Inl (j, e), fold (\<lambda>k s. rel s k) (taken @ [k]) s')"
      by blast
    have "fold (\<lambda>k s. rel s k) (taken @ [k]) s' = fold (\<lambda>k s. rel s k) taken s"
      using fold_rel_snoc [of taken s' k] acq_rel [OF s'(1)] by simp
    then show ?thesis using j s'(1) by auto
  qed
qed simp

lemma acquire_all_grants:
  "admits s \<Longrightarrow> distinct ks \<Longrightarrow> set ks \<inter> held s = {} \<Longrightarrow>
   \<exists>s'. acquire_all acq rel taken ks s = (Inr (taken @ ks), s') \<and> held s' = held s \<union> set ks
      \<and> fold (\<lambda>k s. rel s k) ks s' = s"
proof (induction ks arbitrary: taken s)
  case (Cons k ks)
  then obtain s1 where s1: "acq s k = Inr s1" "held s1 = insert k (held s)" "admits s1"
    using acq_free by force
  obtain s' where s': "acquire_all acq rel (taken @ [k]) ks s1 = (Inr (taken @ k # ks), s')"
    "held s' = held s1 \<union> set ks" "fold (\<lambda>k s. rel s k) ks s' = s1"
    using Cons.IH [OF s1(3), of "taken @ [k]"] Cons.prems s1(2) by auto
  have "fold (\<lambda>k s. rel s k) (k # ks) s' = s"
    using fold_rel_snoc [of ks s' k] s'(3) acq_rel [OF s1(1)] by simp
  then show ?case using s' s1 by auto
qed simp

text \<open>All or nothing: every path is claimed, or the state is as before.\<close>

lemma acquire_all_atomic:
  assumes "admits s"
  shows "(\<exists>s'. acquire_all acq rel [] ks s = (Inr ks, s') \<and> held s' = held s \<union> set ks
            \<and> distinct ks \<and> set ks \<inter> held s = {} \<and> fold (\<lambda>k s. rel s k) ks s' = s)
       \<or> (\<exists>k e. k \<in> set ks \<and> acquire_all acq rel [] ks s = (Inl (k, e), s))"
proof (cases "distinct ks \<and> set ks \<inter> held s = {}")
  case True
  then show ?thesis using acquire_all_grants [OF assms, of ks "[]"] by auto
next
  case False
  then show ?thesis using acquire_all_refuses [OF assms False, of "[]"] by auto
qed

end

lemma take_claim_free [simp]: "claims st h = None \<Longrightarrow> take_claim st h k =
   Inr (st\<lparr>claims := (claims st)(h \<mapsto> k), uploads := (if k = Upload then uploads st + 1 else uploads st)\<rparr>)"
  by (simp add: take_claim_def)

lemma take_claim_Inr:
  "take_claim st h k = Inr st' \<longleftrightarrow> claims st h = None \<and>
     st' = st\<lparr>claims := (claims st)(h \<mapsto> k), uploads := (if k = Upload then uploads st + 1 else uploads st)\<rparr>"
  by (auto simp: take_claim_def split: option.splits kind.splits)

lemma take_claim_held: "claims st h \<noteq> None \<Longrightarrow> \<exists>e. take_claim st h k = Inl e"
  by (auto simp: take_claim_def split: kind.splits)

lemma claim_Inr:
  "claim st h = Inr st' \<longleftrightarrow> quiescers st = 0 \<and> take_claim st h Upload = Inr st'"
  by (cases "take_claim st h Upload") (auto simp: claim_def)

lemma drop_take: "take_claim st h k = Inr st' \<Longrightarrow> drop_claim st' h = st"
  by (auto simp: take_claim_Inr drop_claim_def fun_eq_iff)

lemma drop_claim_commute: "drop_claim (drop_claim st j) k = drop_claim (drop_claim st k) j"
  by (cases "j = k") (auto simp: drop_claim_def fun_eq_iff)

interpretation deletes: exclusive_claims "\<lambda>st. dom (claims st)" "\<lambda>_. True" claim_delete drop_claim
proof unfold_locales
  fix st h
  show "h \<in> dom (claims st) \<Longrightarrow> \<exists>e. claim_delete st h = Inl e"
    using take_claim_held [of st h] by (auto simp: claim_delete_def)
qed (auto simp: claim_delete_def drop_take drop_claim_commute)

interpretation upload_claims: exclusive_claims "\<lambda>st. dom (claims st)" "\<lambda>st. quiescers st = 0" claim drop_claim
proof unfold_locales
  fix st h
  show "h \<in> dom (claims st) \<Longrightarrow> \<exists>e. claim st h = Inl e"
    using take_claim_held [of st h Upload] by (auto simp: claim_def)
next
  fix st :: in_flight and h assume "quiescers st = 0" "h \<notin> dom (claims st)"
  then show "\<exists>st'. claim st h = Inr st' \<and> dom (claims st') = insert h (dom (claims st)) \<and> quiescers st' = 0"
    by (auto simp: claim_def)
qed (auto simp: claim_Inr drop_take drop_claim_commute)

section \<open>Holders\<close>

text \<open>
  The process as a whole: the state together with the claims and guards that live values hold.
  A claim is dropped only by its holder, so a step drops one that is outstanding.
\<close>

record claim_system =
  cs_state :: in_flight
  cs_claims :: "(hash \<times> kind) list"
  cs_guards :: nat

inductive claim_step :: "claim_system \<Rightarrow> claim_system \<Rightarrow> bool" where
  ClaimUpload: "claim (cs_state s) h = Inr st \<Longrightarrow>
    claim_step s (s\<lparr>cs_state := st, cs_claims := (h, Upload) # cs_claims s\<rparr>)"
| ClaimDelete: "claim_delete (cs_state s) h = Inr st \<Longrightarrow>
    claim_step s (s\<lparr>cs_state := st, cs_claims := (h, Delete) # cs_claims s\<rparr>)"
| DropClaim: "(h, k) \<in> set (cs_claims s) \<Longrightarrow>
    claim_step s (s\<lparr>cs_state := drop_claim (cs_state s) h, cs_claims := remove1 (h, k) (cs_claims s)\<rparr>)"
| Quiesce: "claim_step s (s\<lparr>cs_state := quiesce (cs_state s), cs_guards := cs_guards s + 1\<rparr>)"
| DropGuard: "cs_guards s > 0 \<Longrightarrow>
    claim_step s (s\<lparr>cs_state := drop_guard (cs_state s), cs_guards := cs_guards s - 1\<rparr>)"

inductive claim_reachable :: "claim_system \<Rightarrow> bool" where
  ClaimStart: "claim_reachable \<lparr>cs_state = new_in_flight, cs_claims = [], cs_guards = 0\<rparr>"
| ClaimStep: "claim_reachable s \<Longrightarrow> claim_step s s' \<Longrightarrow> claim_reachable s'"

inductive_cases claim_stepE: "claim_step s s'"

definition claim_system_inv :: "claim_system \<Rightarrow> bool" where
  "claim_system_inv s \<longleftrightarrow>
     distinct (map fst (cs_claims s))
   \<and> claims (cs_state s) = map_of (cs_claims s)
   \<and> uploads (cs_state s) = length (filter (\<lambda>c. snd c = Upload) (cs_claims s))
   \<and> quiescers (cs_state s) = cs_guards s"

lemma map_of_remove1:
  "distinct (map fst xs) \<Longrightarrow> (k, v) \<in> set xs \<Longrightarrow> map_of (remove1 (k, v) xs) = (map_of xs)(k := None)"
proof (induction xs)
  case (Cons x xs)
  show ?case
  proof (cases "x = (k, v)")
    case True
    then show ?thesis using Cons.prems by (auto simp: map_of_eq_None_iff)
  next
    case False
    then have "(k, v) \<in> set xs" "fst x \<noteq> k" using Cons.prems by (auto simp: image_iff)
    then show ?thesis using False Cons by (cases x) (auto simp: fun_eq_iff)
  qed
qed simp

lemma uploads_remove1:
  "(h, k) \<in> set xs \<Longrightarrow> length (filter (\<lambda>c. snd c = Upload) (remove1 (h, k) xs)) =
     (if k = Upload then length (filter (\<lambda>c. snd c = Upload) xs) - 1
      else length (filter (\<lambda>c. snd c = Upload) xs))"
proof (induction xs)
  case (Cons x xs)
  have "(h, k) \<in> set xs \<Longrightarrow> k = Upload \<Longrightarrow> 0 < length (filter (\<lambda>c. snd c = Upload) xs)"
    by (force simp: filter_empty_conv)
  then show ?case using Cons by auto
qed simp

lemma claim_system_inv_step:
  assumes "claim_step s s'" "claim_system_inv s"
  shows "claim_system_inv s'"
  using assms
proof (induction rule: claim_step.induct)
  case (ClaimUpload s h st)
  then show ?case by (auto simp: claim_Inr take_claim_Inr claim_system_inv_def map_of_eq_None_iff)
next
  case (ClaimDelete s h st)
  then show ?case by (auto simp: claim_delete_def take_claim_Inr claim_system_inv_def map_of_eq_None_iff)
next
  case (DropClaim h k s)
  have "map_of (cs_claims s) h = Some k" using DropClaim by (simp add: claim_system_inv_def)
  then show ?case
    using DropClaim map_of_remove1 [of "cs_claims s" h k] uploads_remove1 [of h k "cs_claims s"]
    by (auto simp: claim_system_inv_def drop_claim_def distinct_map inj_on_def set_remove1_subset
        dest: notin_set_remove1 set_remove1_subset [THEN subsetD])
qed (auto simp: claim_system_inv_def quiesce_def drop_guard_def)

lemma claim_system_inv_start: "claim_system_inv \<lparr>cs_state = new_in_flight, cs_claims = [], cs_guards = 0\<rparr>"
  by (simp add: claim_system_inv_def new_in_flight_def)

lemma claim_reachable_inv: "claim_reachable s \<Longrightarrow> claim_system_inv s"
  by (induction rule: claim_reachable.induct) (auto intro: claim_system_inv_start claim_system_inv_step)

text \<open>
  C10. In every state the process can reach, a path is claimed by at most one holder, \<^verbatim>\<open>contains\<close>
  answers exactly whether some holder has it, the upload counter is the number of upload claims
  held (so its decrement never underflows), and the gate is shut exactly while a guard lives.
\<close>

theorem claims_are_exclusive:
  assumes "claim_reachable s"
  shows "distinct (map fst (cs_claims s))
       \<and> (\<forall>h. is_claimed (cs_state s) h \<longleftrightarrow> h \<in> fst ` set (cs_claims s))
       \<and> uploads (cs_state s) = length (filter (\<lambda>c. snd c = Upload) (cs_claims s))
       \<and> (is_quiescing (cs_state s) \<longleftrightarrow> cs_guards s > 0)"
  using claim_reachable_inv [OF assms]
  by (auto simp: claim_system_inv_def is_claimed_def is_quiescing_def map_of_eq_None_iff)

lemma upload_then_refused:
  "claim_reachable \<lparr>cs_state = new_in_flight\<lparr>claims := [''x'' \<mapsto> Upload], uploads := 1\<rparr>,
     cs_claims = [(''x'', Upload)], cs_guards = 0\<rparr>"
proof -
  let ?s = "\<lparr>cs_state = new_in_flight, cs_claims = [], cs_guards = 0\<rparr>"
  have "claim (cs_state ?s) ''x'' = Inr (new_in_flight\<lparr>claims := [''x'' \<mapsto> Upload], uploads := 1\<rparr>)"
    by (simp add: claim_def new_in_flight_def)
  from ClaimStep [OF ClaimStart ClaimUpload [OF this]] show ?thesis by simp
qed

theorem claims_are_exclusive_witness:
  "is_claimed (new_in_flight\<lparr>claims := [''x'' \<mapsto> Upload], uploads := 1\<rparr>) ''x''
   \<and> uploads (new_in_flight\<lparr>claims := [''x'' \<mapsto> Upload], uploads := 1\<rparr>) = 1"
  using claims_are_exclusive [OF upload_then_refused] by simp

section \<open>Quiescing\<close>

text \<open>The runs during which some guard lives throughout.\<close>

inductive gated :: "claim_system \<Rightarrow> claim_system \<Rightarrow> bool" for s :: claim_system where
  GatedRefl: "gated s s"
| GatedStep: "gated s s1 \<Longrightarrow> cs_guards s1 > 0 \<Longrightarrow> claim_step s1 s2 \<Longrightarrow> gated s s2"

lemma gated_step_uploads:
  assumes "claim_step s s'" "claim_system_inv s" "cs_guards s > 0"
  shows "set (filter (\<lambda>c. snd c = Upload) (cs_claims s')) \<subseteq> set (filter (\<lambda>c. snd c = Upload) (cs_claims s))"
  using assms
proof (induction rule: claim_step.induct)
  case (DropClaim h k s)
  then show ?case using set_remove1_subset [of "(h, k)" "cs_claims s"] by auto
qed (auto simp: claim_Inr claim_system_inv_def)

text \<open>
  C27. While \<^verbatim>\<open>fsck --quiesce\<close> holds its guard no new upload is admitted: once \<^verbatim>\<open>drain\<close> has read
  a count of zero, no upload claim is held in any state until every guard is gone, however
  deletions, other guards and failed claims interleave.
\<close>

theorem drained_stays_drained:
  assumes "claim_reachable s" and "drain [uploads (cs_state s)]" and "gated s s'"
  shows "uploads (cs_state s') = 0 \<and> (\<forall>h. (h, Upload) \<notin> set (cs_claims s'))"
proof -
  have inv: "claim_system_inv s" using assms(1) by (rule claim_reachable_inv)
  then have none: "filter (\<lambda>c. snd c = Upload) (cs_claims s) = []"
    using assms(2) by (simp add: claim_system_inv_def)
  from assms(3) have "claim_system_inv s' \<and> filter (\<lambda>c. snd c = Upload) (cs_claims s') = []"
  proof induction
    case (GatedStep s1 s2)
    then show ?case using gated_step_uploads [of s1 s2] claim_system_inv_step [of s1 s2]
      by (auto simp: filter_empty_conv)
  qed (use inv none in simp)
  then show ?thesis by (auto simp: claim_system_inv_def filter_empty_conv)
qed

theorem drained_stays_drained_witness:
  "uploads (quiesce new_in_flight) = 0 \<and> claim (quiesce new_in_flight) ''x'' = Inl RefusedQuiescing"
proof -
  let ?s = "\<lparr>cs_state = quiesce new_in_flight, cs_claims = [], cs_guards = 1\<rparr>"
  have r: "claim_reachable ?s"
    using ClaimStep [OF ClaimStart Quiesce] by simp
  have "drain [uploads (cs_state ?s)]" by (simp add: quiesce_def new_in_flight_def)
  from drained_stays_drained [OF r this GatedRefl] show ?thesis
    by (simp add: claim_def quiesce_def new_in_flight_def)
qed

end
