(* ===== verification/Storage.thy ===== *)
theory Storage
  imports Wire InFlight
begin

text \<open>
  \<^verbatim>\<open>crates/garret-server/src/storage.rs\<close>, apart from the upload itself: the memory budget, the
  blob keys, the paginated listings, the batched delete and the sweep of stale multiparts. The
  streaming upload is in theories \<open>Body_Reader\<close> and \<open>Upload_Stream\<close>.

  S3 is a service outside the repository: each request is a parameter, a function from the
  request (and the service's state, where it changes) to the response. Pagination ends only when
  the service says so, hence \<open>partial_function (option)\<close>: \<^verbatim>\<open>None\<close> is a listing that never ends.
  \<^verbatim>\<open>usize\<close> and \<^verbatim>\<open>u64\<close> are \<^typ>\<open>nat\<close>; \<open>budget_fits\<close> shows the one narrowing cast, to \<^verbatim>\<open>u32\<close>, loses
  nothing. Durations are seconds.
\<close>

section \<open>The memory budget\<close>

record upload_limits =
  part_size :: nat
  max_parts_in_flight :: nat
  body_idle :: nat
  unit_bytes :: nat
  part_units :: nat
  total_units :: nat

text \<open>\<^verbatim>\<open>x.clamp(lo, hi)\<close> for \<open>lo \<le> hi\<close>, and \<^verbatim>\<open>ilog2\<close> of a positive number.\<close>

definition clamp :: "nat \<Rightarrow> nat \<Rightarrow> nat \<Rightarrow> nat" where
  "clamp lo hi x = max lo (min hi x)"

fun ilog2 :: "nat \<Rightarrow> nat" where
  "ilog2 n = (if n \<le> 1 then 0 else Suc (ilog2 (n div 2)))"

declare ilog2.simps [simp del]

definition units_ceil :: "nat \<Rightarrow> nat \<Rightarrow> nat" where
  "units_ceil n shift = drop_bit shift n + (if n AND (2 ^ shift - 1) \<noteq> 0 then 1 else 0)"

definition budget_shift :: "nat \<Rightarrow> nat" where
  "budget_shift psize = ilog2 (clamp 1 (64 * 1024) (drop_bit 8 psize))"

definition budget :: "nat \<Rightarrow> nat \<Rightarrow> nat \<times> nat \<times> nat" where
  "budget psize max_in_flight_bytes =
     (let shift = budget_shift psize;
          punits = units_ceil psize shift
      in (2 ^ shift, punits, max (drop_bit shift max_in_flight_bytes) punits))"

definition new_limits :: "nat \<Rightarrow> nat \<Rightarrow> nat \<Rightarrow> nat \<Rightarrow> upload_limits" where
  "new_limits psize mparts max_in_flight_bytes idle =
     (case budget psize max_in_flight_bytes of (u, p, t) \<Rightarrow>
        \<lparr>part_size = psize, max_parts_in_flight = mparts, body_idle = idle,
         unit_bytes = u, part_units = p, total_units = t\<rparr>)"

definition total_slots :: "upload_limits \<Rightarrow> nat" where
  "total_slots l = total_units l div part_units l"

text \<open>\<^verbatim>\<open>unit.trailing_zeros()\<close> of a power of two.\<close>

definition units_for :: "nat \<Rightarrow> nat \<Rightarrow> nat \<Rightarrow> nat" where
  "units_for n un punits = clamp 1 punits (units_ceil n (ilog2 un))"

text \<open>
  \<^verbatim>\<open>acquire\<close> on a semaphore with \<open>free\<close> permits: \<^verbatim>\<open>None\<close> while it waits, else the permits left
  and the reservation. The request is cast to \<^verbatim>\<open>u32\<close>.
\<close>

definition acquire :: "upload_limits \<Rightarrow> nat \<Rightarrow> nat \<Rightarrow> (nat \<times> nat) option" where
  "acquire l free n =
     (let units = units_for n (unit_bytes l) (part_units l);
          permits = units mod 2 ^ 32
      in if permits \<le> free then Some (free - permits, permits) else None)"

section \<open>Keys\<close>

definition key_for :: "hash \<Rightarrow> string" where
  "key_for h = ''nar/'' @ h @ ''.nar.zst''"

definition hash_for :: "string \<Rightarrow> hash option" where
  "hash_for key =
     (case strip_prefix ''nar/'' key of
        None \<Rightarrow> None
      | Some k \<Rightarrow>
          (case strip_suffix ''.nar.zst'' k of
             None \<Rightarrow> None
           | Some h \<Rightarrow> if h = [] then None else Some h))"

section \<open>Listings\<close>

record blob =
  blob_hash :: hash
  blob_age :: int
  blob_size :: int

definition orphan_hashes :: "blob list \<Rightarrow> hash set \<Rightarrow> in_flight \<Rightarrow> int \<Rightarrow> hash list" where
  "orphan_hashes blobs known fl grace =
     map blob_hash (filter (\<lambda>b. blob_hash b \<notin> known \<and> \<not> is_claimed fl (blob_hash b)
                                \<and> blob_age b \<ge> grace) blobs)"

text \<open>Time since an S3 timestamp; zero when it is missing or in the future.\<close>

definition age :: "int \<Rightarrow> int option \<Rightarrow> int" where
  "age now at = (case at of None \<Rightarrow> 0 | Some t \<Rightarrow> if t \<le> now then now - t else 0)"

record s3_object =
  s3_key :: "string option"
  s3_last_modified :: "int option"
  s3_size :: "int option"

record s3_page =
  page_contents :: "s3_object list"
  page_next_token :: "string option"

datatype storage_error =
    RequestFailed
  | NoSize string
  | NotDeleted nat
  | NoMarker

text \<open>The loop over one page.\<close>

fun page_blobs :: "int \<Rightarrow> s3_object list \<Rightarrow> storage_error + blob list" where
  "page_blobs now [] = Inr []"
| "page_blobs now (ob # obs) =
     (case s3_key ob of
        None \<Rightarrow> page_blobs now obs
      | Some key \<Rightarrow>
          (case hash_for key of
             None \<Rightarrow> page_blobs now obs
           | Some h \<Rightarrow>
               (case s3_size ob of
                  None \<Rightarrow> Inl (NoSize key)
                | Some sz \<Rightarrow>
                    map_sum id (Cons \<lparr>blob_hash = h, blob_age = age now (s3_last_modified ob),
                                      blob_size = sz\<rparr>) (page_blobs now obs))))"

partial_function (option) list_blobs_from ::
  "(string option \<Rightarrow> s3_page option) \<Rightarrow> int \<Rightarrow> blob list \<Rightarrow> string option \<Rightarrow>
   (storage_error + blob list) option" where
  "list_blobs_from list_page now out token =
     (case list_page token of
        None \<Rightarrow> Some (Inl RequestFailed)
      | Some page \<Rightarrow>
          (case page_blobs now (page_contents page) of
             Inl e \<Rightarrow> Some (Inl e)
           | Inr bs \<Rightarrow>
               (case page_next_token page of
                  None \<Rightarrow> Some (Inr (out @ bs))
                | Some t \<Rightarrow> list_blobs_from list_page now (out @ bs) (Some t))))"

definition list_blobs ::
  "(string option \<Rightarrow> s3_page option) \<Rightarrow> int \<Rightarrow> (storage_error + blob list) option" where
  "list_blobs list_page now = list_blobs_from list_page now [] None"

section \<open>Deleting blobs\<close>

record s3_error =
  err_key :: "string option"
  err_code :: "string option"

definition DELETE_BATCH :: nat where "DELETE_BATCH = 1000"

definition real_errors :: "s3_error list \<Rightarrow> s3_error list" where
  "real_errors es = filter (\<lambda>e. err_code e \<noteq> Some ''NoSuchKey'') es"

text \<open>\<^verbatim>\<open>del\<close>: one \<^verbatim>\<open>DeleteObjects\<close>, \<^verbatim>\<open>None\<close> for a failed request, else the per-key errors.\<close>

fun delete_batches ::
  "('s \<Rightarrow> string list \<Rightarrow> s3_error list option \<times> 's) \<Rightarrow> nat \<Rightarrow> string list list \<Rightarrow> 's \<Rightarrow>
   (storage_error + unit) \<times> 's" where
  "delete_batches del failed [] s = (if failed = 0 then Inr () else Inl (NotDeleted failed), s)"
| "delete_batches del failed (batch # rest) s =
     (case del s batch of
        (None, s') \<Rightarrow> (Inl RequestFailed, s')
      | (Some es, s') \<Rightarrow> delete_batches del (failed + length (real_errors es)) rest s')"

definition delete_objects ::
  "('s \<Rightarrow> string list \<Rightarrow> s3_error list option \<times> 's) \<Rightarrow> 's \<Rightarrow> string list \<Rightarrow>
   (storage_error + unit) \<times> 's" where
  "delete_objects del s keys = delete_batches del 0 (chunks DELETE_BATCH keys) s"

section \<open>Stale multiparts\<close>

record mpu =
  mpu_key :: "string option"
  mpu_id :: "string option"
  mpu_initiated :: "int option"

record mpu_page =
  mp_uploads :: "mpu list"
  mp_truncated :: "bool option"
  mp_key_marker :: "string option"
  mp_id_marker :: "string option"

definition stale_mpu :: "int \<Rightarrow> in_flight \<Rightarrow> int \<Rightarrow> mpu \<Rightarrow> (string \<times> string) option" where
  "stale_mpu grace fl now u =
     (case (mpu_key u, mpu_id u) of
        (Some key, Some i) \<Rightarrow>
          (case hash_for key of
             None \<Rightarrow> None
           | Some h \<Rightarrow> if is_claimed fl h \<or> age now (mpu_initiated u) < grace then None else Some (key, i))
      | _ \<Rightarrow> None)"

text \<open>
  The aborts of one page, in order, up to the first that fails. \<^verbatim>\<open>abort\<close> is the request; the
  result carries what was aborted.
\<close>

fun abort_page ::
  "(string \<times> string \<Rightarrow> bool) \<Rightarrow> int \<Rightarrow> in_flight \<Rightarrow> int \<Rightarrow> mpu list \<Rightarrow> bool \<times> (string \<times> string) list" where
  "abort_page abort grace fl now [] = (True, [])"
| "abort_page abort grace fl now (u # us) =
     (case stale_mpu grace fl now u of
        None \<Rightarrow> abort_page abort grace fl now us
      | Some x \<Rightarrow>
          if abort x then map_prod id (Cons x) (abort_page abort grace fl now us) else (False, []))"

partial_function (option) abort_from ::
  "(string option \<times> string option \<Rightarrow> mpu_page option) \<Rightarrow> (string \<times> string \<Rightarrow> bool) \<Rightarrow> int \<Rightarrow> in_flight \<Rightarrow>
   int \<Rightarrow> (string \<times> string) list \<Rightarrow> string option \<times> string option \<Rightarrow>
   ((storage_error + nat) \<times> (string \<times> string) list) option" where
  "abort_from list_page abort grace fl now aborted marker =
     (case list_page marker of
        None \<Rightarrow> Some (Inl RequestFailed, aborted)
      | Some page \<Rightarrow>
          (case abort_page abort grace fl now (mp_uploads page) of (ok, xs) \<Rightarrow>
             if \<not> ok then Some (Inl RequestFailed, aborted @ xs)
             else if mp_truncated page \<noteq> Some True then Some (Inr (length (aborted @ xs)), aborted @ xs)
             else if mp_key_marker page = None then Some (Inl NoMarker, aborted @ xs)
             else abort_from list_page abort grace fl now (aborted @ xs)
                    (mp_key_marker page, mp_id_marker page)))"

definition abort_stale_multiparts ::
  "(string option \<times> string option \<Rightarrow> mpu_page option) \<Rightarrow> (string \<times> string \<Rightarrow> bool) \<Rightarrow> int \<Rightarrow> in_flight \<Rightarrow>
   int \<Rightarrow> ((storage_error + nat) \<times> (string \<times> string) list) option" where
  "abort_stale_multiparts list_page abort grace fl now =
     abort_from list_page abort grace fl now [] (None, None)"

section \<open>The budget is enough and not exceeded\<close>

lemma ilog2_power [simp]: "ilog2 (2 ^ k) = k"
proof (induction k)
  case 0
  then show ?case by (simp add: ilog2.simps [of "Suc 0"])
next
  case (Suc k)
  have "(1::nat) \<le> 2 ^ k" by simp
  then have "\<not> (2::nat) ^ Suc k \<le> 1" unfolding power_Suc by linarith
  then show ?case using Suc by (simp add: ilog2.simps [of "2 * 2 ^ k"])
qed

lemma ilog2_le: "0 < n \<Longrightarrow> 2 ^ ilog2 n \<le> n"
proof (induction n rule: ilog2.induct)
  case (1 n)
  show ?case
  proof (cases "n \<le> 1")
    case True
    then show ?thesis using 1(2) by (simp add: ilog2.simps)
  next
    case False
    then have "2 ^ ilog2 (n div 2) \<le> n div 2" using 1(1) by simp
    then show ?thesis using False by (simp add: ilog2.simps [of n])
  qed
qed

lemma ilog2_upper: "n < 2 ^ Suc (ilog2 n)"
proof (induction n rule: ilog2.induct)
  case (1 n)
  show ?case
  proof (cases "n \<le> 1")
    case True
    then show ?thesis by (simp add: ilog2.simps)
  next
    case False
    then have "n div 2 < 2 ^ Suc (ilog2 (n div 2))" using 1 by simp
    then show ?thesis using False by (simp add: ilog2.simps [of n])
  qed
qed

lemma units_ceil_eq: "units_ceil n s = (n + 2 ^ s - 1) div 2 ^ s"
proof -
  have mask: "n AND (2 ^ s - 1) = n mod 2 ^ s"
    by (simp only: take_bit_eq_mod flip: mask_eq_exp_minus_1 take_bit_eq_mask)
  define q r where "q = n div 2 ^ s" and "r = n mod 2 ^ s"
  have n: "n = q * 2 ^ s + r" unfolding q_def r_def by (rule div_mult_mod_eq [symmetric])
  have r: "r < 2 ^ s" by (simp add: r_def)
  have "(n + 2 ^ s - 1) div 2 ^ s = q + (if r \<noteq> 0 then 1 else 0)"
  proof (rule div_nat_eqI)
    have one: "(1::nat) \<le> 2 ^ s" by simp
    show "2 ^ s * (q + (if r \<noteq> 0 then 1 else 0)) \<le> n + 2 ^ s - 1"
    proof (cases "r = 0")
      case True
      moreover have "q * 2 ^ s \<le> q * 2 ^ s + 2 ^ s - 1" using one by linarith
      ultimately show ?thesis unfolding n by (simp add: mult.commute)
    next
      case False
      then show ?thesis using r unfolding n by (simp add: algebra_simps)
    qed
  qed (use r in \<open>auto simp: n algebra_simps\<close>)
  then show ?thesis by (simp only: units_ceil_def mask drop_bit_eq_div q_def r_def)
qed

lemma units_ceil_covers: "n \<le> units_ceil n s * 2 ^ s" and units_ceil_tight: "units_ceil n s * 2 ^ s < n + 2 ^ s"
proof -
  let ?m = "n + 2 ^ s - 1"
  have m: "?m = ?m div 2 ^ s * 2 ^ s + ?m mod 2 ^ s" "?m mod 2 ^ s < 2 ^ s" "0 < (2::nat) ^ s"
    by (simp_all only: div_mult_mod_eq) simp_all
  show "n \<le> units_ceil n s * 2 ^ s" unfolding units_ceil_eq using m by linarith
  show "units_ceil n s * 2 ^ s < n + 2 ^ s" unfolding units_ceil_eq using m by linarith
qed

lemma units_ceil_mono: "m \<le> n \<Longrightarrow> units_ceil m s \<le> units_ceil n s"
  unfolding units_ceil_eq by (intro div_le_mono) simp


lemma budget_shift_le: "budget_shift psize \<le> 16"
proof -
  have "2 ^ budget_shift psize \<le> clamp 1 (64 * 1024) (drop_bit 8 psize)"
    unfolding budget_shift_def by (rule ilog2_le) (simp add: clamp_def)
  also have "\<dots> \<le> 2 ^ 16" by (simp add: clamp_def)
  finally show ?thesis by (simp only: power_increasing_iff numeral_less_iff)
qed

lemma budget_part_units:
  assumes "psize \<le> 5 * 2 ^ 30"
  shows "units_ceil psize (budget_shift psize) < 2 ^ 32"
proof -
  let ?s = "budget_shift psize"
  have "units_ceil psize ?s \<le> units_ceil psize ?s * 2 ^ ?s" by simp
  also have "\<dots> < psize + 2 ^ ?s" by (rule units_ceil_tight)
  finally have tight: "units_ceil psize ?s < psize + 2 ^ ?s" .
  show ?thesis
  proof (cases "psize < 2 ^ 31")
    case True
    have "(2::nat) ^ ?s \<le> 2 ^ 16" using budget_shift_le by (intro power_increasing) simp_all
    then show ?thesis using tight True by simp
  next
    case False
    have shift16: "?s = 16"
    proof -
      have "drop_bit 8 psize \<ge> 65536" using False by (simp add: drop_bit_eq_div)
      then have "clamp 1 (64 * 1024) (drop_bit 8 psize) = 2 ^ 16" by (simp add: clamp_def)
      then show ?thesis by (simp only: budget_shift_def ilog2_power)
    qed
    have "units_ceil psize 16 * 2 ^ 16 < psize + 2 ^ 16" by (rule units_ceil_tight)
    then show ?thesis unfolding shift16 using assms by simp
  qed
qed

text \<open>What a limits value built by \<^verbatim>\<open>new\<close> promises.\<close>

lemma new_limits_fields:
  assumes "l = new_limits psize mparts mif idle"
  shows "part_size l = psize" "max_parts_in_flight l = mparts" "unit_bytes l = 2 ^ budget_shift psize"
    "part_units l = units_ceil psize (budget_shift psize)"
    "total_units l = max (drop_bit (budget_shift psize) mif) (part_units l)"
  using assms by (simp_all add: new_limits_def budget_def Let_def)

lemma units_for_new:
  assumes "l = new_limits psize mparts mif idle" "0 < psize"
  shows "1 \<le> units_for n (unit_bytes l) (part_units l)"
    "units_for n (unit_bytes l) (part_units l) \<le> part_units l"
    "n \<le> psize \<Longrightarrow> n \<le> units_for n (unit_bytes l) (part_units l) * unit_bytes l"
proof -
  let ?s = "budget_shift psize"
  note f = new_limits_fields [OF assms(1)]
  have pos: "1 \<le> part_units l"
    unfolding f using units_ceil_covers [of psize ?s] assms(2) by (cases "units_ceil psize ?s") auto
  then show "1 \<le> units_for n (unit_bytes l) (part_units l)"
    "units_for n (unit_bytes l) (part_units l) \<le> part_units l"
    by (auto simp: units_for_def clamp_def)
  assume "n \<le> psize"
  then have "units_ceil n ?s \<le> units_for n (unit_bytes l) (part_units l)"
    using units_ceil_mono [of n psize ?s] by (simp add: units_for_def f clamp_def)
  then have "units_ceil n ?s * 2 ^ ?s \<le> units_for n (unit_bytes l) (part_units l) * unit_bytes l"
    unfolding f by (intro mult_le_mono1)
  then show "n \<le> units_for n (unit_bytes l) (part_units l) * unit_bytes l"
    using units_ceil_covers [of n ?s] by (rule order_trans [rotated])
qed

text \<open>
  C29. For every part size S3 accepts, a reservation covers the buffer it is taken for, no
  request is truncated or ever larger than the whole budget (so an idle server can always serve
  it), the permits in circulation never exceed the total, and the bytes they stand for stay
  within the configured maximum rounded down to units, or one part if that is more.
\<close>

theorem budget_fits:
  assumes "0 < psize" "psize \<le> 5 * 2 ^ 30" and l: "l = new_limits psize mparts mif idle"
    and "n \<le> psize" and "free \<le> total_units l"
  shows "(\<forall>free' got. acquire l free n = Some (free', got) \<longrightarrow>
            n \<le> got * unit_bytes l \<and> free' + got = free)
       \<and> acquire l (total_units l) n \<noteq> None
       \<and> total_units l * unit_bytes l \<le> max mif (part_units l * unit_bytes l)
       \<and> part_units l * unit_bytes l < psize + unit_bytes l"
proof -
  let ?u = "units_for n (unit_bytes l) (part_units l)"
  note f = new_limits_fields [OF l] and uf = units_for_new [OF l assms(1), of n]
  have "?u < 2 ^ 32" using uf(2) budget_part_units [OF assms(2)] f(4) by linarith
  then have permits: "?u mod 2 ^ 32 = ?u" by simp
  have "total_units l * unit_bytes l \<le> max mif (part_units l * unit_bytes l)"
  proof (cases "part_units l \<le> drop_bit (budget_shift psize) mif")
    case True
    then have "total_units l * unit_bytes l = mif div 2 ^ budget_shift psize * 2 ^ budget_shift psize"
      unfolding f(3,5) by (simp add: drop_bit_eq_div)
    then show ?thesis by (metis div_times_less_eq_dividend le_max_iff_disj)
  next
    case False
    then show ?thesis unfolding f(5) by simp
  qed
  moreover have "part_units l * unit_bytes l < psize + unit_bytes l"
    unfolding f(3,4) by (rule units_ceil_tight)
  moreover have "?u \<le> total_units l" using uf(2) f(5) by simp
  ultimately show ?thesis using uf(3) [OF assms(4)] permits by (auto simp: acquire_def Let_def)
qed

theorem budget_fits_witness:
  "acquire (new_limits (5 * 2 ^ 20) 4 (64 * 2 ^ 20) 60) 4096 70000 = Some (4091, 5)
   \<and> 70000 \<le> 5 * unit_bytes (new_limits (5 * 2 ^ 20) 4 (64 * 2 ^ 20) 60)"
proof -
  let ?l = "new_limits (5 * 2 ^ 20) 4 (64 * 2 ^ 20) 60"
  have "acquire ?l 4096 70000 = Some (4091, 5)" "4096 \<le> total_units ?l"
    by (simp_all add: acquire_def new_limits_def budget_def budget_shift_def Let_def clamp_def
        drop_bit_eq_div units_ceil_eq units_for_def ilog2.simps [of "numeral _"] ilog2.simps [of "Suc 0"])
  then show ?thesis
    using budget_fits [of "5 * 2 ^ 20" ?l 4 "64 * 2 ^ 20" 60 70000 4096] by simp
qed

section \<open>Keys and hashes\<close>

lemma hash_for_Some: "hash_for key = Some h \<longleftrightarrow> key = key_for h \<and> h \<noteq> []"
  by (auto simp: hash_for_def key_for_def str_laws strip_prefix_None split: option.splits)

lemma key_for_inject [simp]: "key_for a = key_for b \<longleftrightarrow> a = b"
  by (simp add: key_for_def)

lemma key_for_nar_url: "key_for h = nar_url h"
  by (simp add: key_for_def nar_url_def NAR_SUFFIX_def)

text \<open>
  Blob keys and store path hashes determine each other, so the sweep and fsck can tell
  from a key which row a blob belongs to; and a narinfo's URL names the blob's key.
\<close>

theorem key_roundtrip:
  "(hash_for key = Some h \<longleftrightarrow> key = key_for h \<and> h \<noteq> [])
   \<and> (key_for a = key_for b \<longleftrightarrow> a = b) \<and> key_for h = nar_url h"
  by (intro conjI hash_for_Some key_for_inject key_for_nar_url)

section \<open>Listing\<close>

text \<open>The pages a listing walks through, each naming the next, the last naming none.\<close>

inductive page_chain :: "(string option \<Rightarrow> s3_page option) \<Rightarrow> string option \<Rightarrow> s3_page list \<Rightarrow> bool"
  for list_page :: "string option \<Rightarrow> s3_page option" where
  LastPage: "list_page tok = Some p \<Longrightarrow> page_next_token p = None \<Longrightarrow> page_chain list_page tok [p]"
| NextPage: "list_page tok = Some p \<Longrightarrow> page_next_token p = Some t \<Longrightarrow> page_chain list_page (Some t) ps \<Longrightarrow>
    page_chain list_page tok (p # ps)"

lemma page_blobs_Inr:
  assumes "\<forall>ob \<in> set obs. s3_size ob \<noteq> None"
  shows "\<exists>bs. page_blobs now obs = Inr bs \<and>
    blob_hash ` set bs = {h. h \<noteq> [] \<and> (\<exists>ob \<in> set obs. s3_key ob = Some (key_for h))}"
  using assms
proof (induction obs)
  case (Cons ob obs)
  then obtain bs where bs: "page_blobs now obs = Inr bs"
    "blob_hash ` set bs = {h. h \<noteq> [] \<and> (\<exists>ob \<in> set obs. s3_key ob = Some (key_for h))}" by auto
  show ?case
  proof (cases "\<exists>h. h \<noteq> [] \<and> s3_key ob = Some (key_for h)")
    case True
    then obtain h where h: "h \<noteq> []" "s3_key ob = Some (key_for h)" by blast
    then have "hash_for (key_for h) = Some h" by (simp add: hash_for_Some)
    moreover obtain sz where "s3_size ob = Some sz" using Cons.prems by auto
    ultimately show ?thesis using bs h by auto
  next
    case False
    then have "page_blobs now (ob # obs) = page_blobs now obs"
      by (auto simp: hash_for_Some split: option.splits)
    then show ?thesis using bs False by auto
  qed
qed simp

lemma list_blobs_chain:
  assumes "page_chain list_page tok ps"
    and "\<forall>p \<in> set ps. \<forall>ob \<in> set (page_contents p). s3_size ob \<noteq> None"
  shows "\<exists>bs. list_blobs_from list_page now out tok = Some (Inr (out @ bs)) \<and> blob_hash ` set bs =
    {h. h \<noteq> [] \<and> (\<exists>p \<in> set ps. \<exists>ob \<in> set (page_contents p). s3_key ob = Some (key_for h))}"
  using assms
proof (induction arbitrary: out rule: page_chain.induct)
  case (LastPage tok p)
  then show ?case using page_blobs_Inr [of "page_contents p" now]
    by (auto simp: list_blobs_from.simps [of _ _ _ tok])
next
  case (NextPage tok p t ps)
  obtain bs where bs: "page_blobs now (page_contents p) = Inr bs" "blob_hash ` set bs =
      {h. h \<noteq> [] \<and> (\<exists>ob \<in> set (page_contents p). s3_key ob = Some (key_for h))}"
    using page_blobs_Inr [of "page_contents p" now] NextPage.prems by auto
  obtain cs where cs: "list_blobs_from list_page now (out @ bs) (Some t) = Some (Inr ((out @ bs) @ cs))"
    "blob_hash ` set cs =
      {h. h \<noteq> [] \<and> (\<exists>p \<in> set ps. \<exists>ob \<in> set (page_contents p). s3_key ob = Some (key_for h))}"
    using NextPage.IH [of "out @ bs"] NextPage.prems by auto
  have "list_blobs_from list_page now out tok = Some (Inr (out @ bs @ cs))"
    using NextPage.hyps(1,2) bs(1) cs(1) by (simp add: list_blobs_from.simps [of _ _ _ tok])
  moreover have "blob_hash ` set (bs @ cs) =
      {h. h \<noteq> [] \<and> (\<exists>p \<in> set (p # ps). \<exists>ob \<in> set (page_contents p). s3_key ob = Some (key_for h))}"
    using bs(2) cs(2) by (simp add: image_Un) blast
  ultimately show ?case by blast
qed

text \<open>
  When the service's pagination ends, listing the bucket returns, and lists exactly the
  hashes of the keys in the flat layout on every page, past the first one.
\<close>

theorem list_blobs_complete:
  assumes "page_chain list_page None ps"
    and "\<forall>p \<in> set ps. \<forall>ob \<in> set (page_contents p). s3_size ob \<noteq> None"
  shows "\<exists>bs. list_blobs list_page now = Some (Inr bs) \<and> blob_hash ` set bs =
    {h. h \<noteq> [] \<and> (\<exists>p \<in> set ps. \<exists>ob \<in> set (page_contents p). s3_key ob = Some (key_for h))}"
  using list_blobs_chain [OF assms, of now "[]"] by (simp add: list_blobs_def)

definition two_pages :: "string option \<Rightarrow> s3_page option" where
  "two_pages tok = Some (case tok of
      None \<Rightarrow> \<lparr>page_contents = [\<lparr>s3_key = Some ''nar/a.nar.zst'', s3_last_modified = Some 5, s3_size = Some 7\<rparr>],
             page_next_token = Some ''t''\<rparr>
    | Some _ \<Rightarrow> \<lparr>page_contents = [\<lparr>s3_key = Some ''nar/b.nar.zst'', s3_last_modified = None, s3_size = Some 8\<rparr>,
                               \<lparr>s3_key = Some ''nar/c.tmp'', s3_last_modified = None, s3_size = Some 9\<rparr>],
             page_next_token = None\<rparr>)"

theorem list_blobs_complete_witness:
  "\<exists>bs. list_blobs two_pages 10 = Some (Inr bs) \<and> ''a'' \<in> blob_hash ` set bs \<and> ''b'' \<in> blob_hash ` set bs"
proof -
  define p q where "p = the (two_pages None)" and "q = the (two_pages (Some ''t''))"
  note pq = p_def q_def two_pages_def
  have "page_chain two_pages None [p, q]"
    by (rule NextPage [where t = "''t''"], simp add: pq, simp add: pq, rule LastPage) (simp_all add: pq)
  moreover have "\<forall>x \<in> set [p, q]. \<forall>ob \<in> set (page_contents x). s3_size ob \<noteq> None" by (simp add: pq)
  ultimately obtain bs where bs: "list_blobs two_pages 10 = Some (Inr bs)" "blob_hash ` set bs =
      {h. h \<noteq> [] \<and> (\<exists>x \<in> set [p, q]. \<exists>ob \<in> set (page_contents x). s3_key ob = Some (key_for h))}"
    using list_blobs_complete [of two_pages "[p, q]" 10] by blast
  have "''a'' \<in> blob_hash ` set bs" "''b'' \<in> blob_hash ` set bs"
    unfolding bs(2) by (simp_all add: pq key_for_def)
  then show ?thesis using bs(1) by blast
qed

section \<open>Deleting\<close>

text \<open>
  S3's \<^verbatim>\<open>DeleteObjects\<close>, as documented: it touches only the keys it names, and after a response
  every named key is gone unless an error other than \<^verbatim>\<open>NoSuchKey\<close> is reported for it.
\<close>

definition s3_delete_law ::
  "('s \<Rightarrow> string list \<Rightarrow> s3_error list option \<times> 's) \<Rightarrow> ('s \<Rightarrow> string set) \<Rightarrow> bool" where
  "s3_delete_law del present \<longleftrightarrow>
     (\<forall>s batch r s'. del s batch = (r, s') \<longrightarrow>
        present s - set batch \<subseteq> present s' \<and> present s' \<subseteq> present s
      \<and> (\<forall>es. r = Some es \<longrightarrow> (\<forall>k \<in> set batch \<inter> present s'. \<exists>e \<in> set (real_errors es). err_key e = Some k)))"

lemma delete_batches_law:
  assumes law: "s3_delete_law del present"
  shows "delete_batches del failed bs s = (r, s') \<Longrightarrow>
         present s - set (concat bs) \<subseteq> present s' \<and> present s' \<subseteq> present s
       \<and> (r = Inr () \<longrightarrow> failed = 0 \<and> present s' \<inter> set (concat bs) = {})"
proof (induction bs arbitrary: failed s)
  case (Cons batch rest)
  obtain r1 s1 where del: "del s batch = (r1, s1)" by fastforce
  then have sub: "present s - set batch \<subseteq> present s1" "present s1 \<subseteq> present s"
    and gone: "\<And>es k. r1 = Some es \<Longrightarrow> k \<in> set batch \<inter> present s1 \<Longrightarrow>
        \<exists>e \<in> set (real_errors es). err_key e = Some k"
    using law unfolding s3_delete_law_def by blast+
  show ?case
  proof (cases r1)
    case None
    then show ?thesis using Cons.prems del sub by auto
  next
    case (Some es)
    then have run: "delete_batches del (failed + length (real_errors es)) rest s1 = (r, s')"
      using Cons.prems del by simp
    note ih = Cons.IH [OF this]
    have "r = Inr () \<Longrightarrow> real_errors es = []" using ih by simp
    then have "r = Inr () \<Longrightarrow> set batch \<inter> present s1 = {}" using gone [OF Some] by auto
    then have "r = Inr () \<Longrightarrow> present s' \<inter> set (concat (batch # rest)) = {}" using ih by fastforce
    then show ?thesis using ih sub by auto
  qed
qed (auto split: if_splits)

text \<open>
  Deleting blobs touches no other key, however the service answers; and when it reports
  success, every requested key, over all its batches, is gone: a per-key failure hidden in a
  successful response is never taken for a deletion.
\<close>

theorem delete_objects_deletes:
  assumes "s3_delete_law del present" and "delete_objects del s keys = (r, s')"
  shows "present s - set keys \<subseteq> present s' \<and> present s' \<subseteq> present s
       \<and> (r = Inr () \<longrightarrow> present s' = present s - set keys)"
  using delete_batches_law [OF assms(1), of 0 "chunks DELETE_BATCH keys" s r s'] assms(2)
  by (auto simp: delete_objects_def DELETE_BATCH_def)

definition set_del :: "string set \<Rightarrow> string list \<Rightarrow> s3_error list option \<times> string set" where
  "set_del s batch =
     (Some (if ''locked'' \<in> s \<and> ''locked'' \<in> set batch
            then [\<lparr>err_key = Some ''locked'', err_code = Some ''AccessDenied''\<rparr>] else []),
      s - (set batch - {''locked''}))"

theorem delete_objects_deletes_witness:
  "fst (delete_objects set_del {''k'', ''l''} [''k'']) = Inr ()
   \<and> snd (delete_objects set_del {''k'', ''l''} [''k'']) = {''l''}
   \<and> fst (delete_objects set_del {''locked''} [''locked'']) = Inl (NotDeleted 1)"
proof -
  have law: "s3_delete_law set_del id"
    by (auto simp: s3_delete_law_def set_del_def real_errors_def)
  have "delete_objects set_del {''k'', ''l''} [''k''] = (Inr (), {''k'', ''l''} - {''k''})"
    "fst (delete_objects set_del {''locked''} [''locked'']) = Inl (NotDeleted 1)"
    by (simp_all add: delete_objects_def chunks.simps DELETE_BATCH_def set_del_def real_errors_def)
  then show ?thesis
    using delete_objects_deletes [OF law, of "{''k'', ''l''}" "[''k'']"] by simp
qed

section \<open>Sweeping multiparts\<close>

lemma abort_page_stale:
  "set (snd (abort_page abort grace fl now us)) \<subseteq> {x. \<exists>u \<in> set us. stale_mpu grace fl now u = Some x}"
  by (induction us) (auto split: option.splits)

lemma stale_mpu_Some:
  "stale_mpu grace fl now u = Some (key, i) \<Longrightarrow>
     \<exists>h. key = key_for h \<and> \<not> is_claimed fl h \<and> grace \<le> age now (mpu_initiated u) \<and> mpu_id u = Some i"
  by (auto simp: stale_mpu_def hash_for_Some split: option.splits if_splits)

text \<open>Which uploads a sweep may abort: in the flat layout, and claimed by nobody.\<close>

definition sweepable :: "in_flight \<Rightarrow> string \<times> string \<Rightarrow> bool" where
  "sweepable fl x \<longleftrightarrow> (\<exists>h. fst x = key_for h \<and> \<not> is_claimed fl h)"

lemma abort_from_stale:
  assumes "abort_from list_page abort grace fl now aborted marker = Some y"
  shows "list_all (sweepable fl) aborted \<longrightarrow> list_all (sweepable fl) (snd y)"
  using assms
proof (rule abort_from.raw_induct [rotated])
  fix rec_abort list_page abort grace fl now aborted marker y
  assume ih: "\<And>list_page abort grace fl now aborted marker y.
      rec_abort list_page abort grace fl now aborted marker = Some y \<Longrightarrow>
      list_all (sweepable fl) aborted \<longrightarrow> list_all (sweepable fl) (snd y)"
    and eq: "(case list_page marker of None \<Rightarrow> Some (Inl RequestFailed, aborted)
      | Some page \<Rightarrow>
          case abort_page abort grace fl now (mp_uploads page) of (ok, xs) \<Rightarrow>
            if \<not> ok then Some (Inl RequestFailed, aborted @ xs)
            else if mp_truncated page \<noteq> Some True then Some (Inr (length (aborted @ xs)), aborted @ xs)
            else if mp_key_marker page = None then Some (Inl NoMarker, aborted @ xs)
            else rec_abort list_page abort grace fl now (aborted @ xs)
                   (mp_key_marker page, mp_id_marker page)) = Some y"
  show "list_all (sweepable fl) aborted \<longrightarrow> list_all (sweepable fl) (snd y)"
  proof (cases "list_page marker")
    case None
    then show ?thesis using eq by auto
  next
    case (Some page)
    obtain ok xs where run: "abort_page abort grace fl now (mp_uploads page) = (ok, xs)" by fastforce
    then have "list_all (sweepable fl) xs"
      using abort_page_stale [of abort grace fl now "mp_uploads page"]
      by (auto simp: list_all_iff sweepable_def dest!: stale_mpu_Some)
    then show ?thesis
      using eq Some run ih [of list_page abort grace fl now "aborted @ xs"]
      by (auto split: if_splits)
  qed
qed

text \<open>
  The multipart sweep aborts only uploads of keys no live upload or deletion has claimed,
  on every page and whether it finishes or fails part way: a live multipart survives it.
\<close>

theorem sweep_spares_claimed:
  assumes "abort_stale_multiparts list_page abort grace fl now = Some (r, aborted)"
    and "(key, i) \<in> set aborted"
  shows "\<exists>h. key = key_for h \<and> \<not> is_claimed fl h"
  using abort_from_stale [of list_page abort grace fl now "[]" "(None, None)" "(r, aborted)"] assms
  by (auto simp: abort_stale_multiparts_def list_all_iff sweepable_def)

theorem sweep_spares_claimed_witness:
  "\<exists>h. ''nar/a.nar.zst'' = key_for h \<and>
     \<not> is_claimed (new_in_flight\<lparr>claims := [''b'' \<mapsto> Upload], uploads := 1\<rparr>) h"
proof -
  let ?u = "\<lambda>k. \<lparr>mpu_key = Some k, mpu_id = Some ''i'', mpu_initiated = Some 0\<rparr>"
  let ?page = "\<lparr>mp_uploads = [?u ''nar/a.nar.zst'', ?u ''nar/b.nar.zst''], mp_truncated = None,
      mp_key_marker = None, mp_id_marker = None\<rparr>"
  let ?fl = "new_in_flight\<lparr>claims := [''b'' \<mapsto> Upload], uploads := 1\<rparr>"
  have "hash_for ''nar/a.nar.zst'' = Some ''a''" "hash_for ''nar/b.nar.zst'' = Some ''b''"
    by (simp_all add: hash_for_Some key_for_def)
  then have "abort_stale_multiparts (\<lambda>_. Some ?page) (\<lambda>_. True) 10 ?fl 100 =
      Some (Inr 1, [(''nar/a.nar.zst'', ''i'')])"
    by (simp add: abort_stale_multiparts_def abort_from.simps stale_mpu_def age_def is_claimed_def)
  from sweep_spares_claimed [OF this, of "''nar/a.nar.zst''" "''i''"] show ?thesis by simp
qed

end
