(* ===== verification/Kahn.thy ===== *)
theory Kahn
  imports Garret_Prelude
begin

text \<open>
  Kahn's algorithm as both of its users write it: prune's \<^verbatim>\<open>referrers_first\<close>
  (\<^verbatim>\<open>crates/garret-server/src/db.rs\<close>, a stack of ready indexes) and the client's
  \<^verbatim>\<open>references_first\<close> (\<^verbatim>\<open>crates/garret-client/src/push.rs\<close>, a queue). They share the index, the
  adjacency lists with their counters, and the loop that releases the successors of a placed
  index; they differ in which ready index is taken next and in what happens to a cycle.

  The invariant \<open>kahn_inv\<close> and its step lemma \<open>kahn_step\<close> are stated for any choice of the next
  ready index, so that each user's loop only has to apply them.
\<close>

section \<open>The shared parts\<close>

text \<open>Collecting \<^verbatim>\<open>(key, position)\<close> pairs into a \<^verbatim>\<open>HashMap\<close>: the last position of a key wins.\<close>

definition key_index :: "'k list \<Rightarrow> 'k \<Rightarrow> nat option" where
  "key_index ks k = map_of (rev (zip ks [0..<length ks])) k"

text \<open>One edge: the successor is pushed on \<open>a\<close>'s list, \<open>b\<close>'s counter goes up.\<close>

definition add_edge :: "nat \<times> nat \<Rightarrow> nat list list \<times> nat list \<Rightarrow> nat list list \<times> nat list" where
  "add_edge e g =
     (case (e, g) of ((a, b), (succ, cnt)) \<Rightarrow> (succ[a := succ ! a @ [b]], cnt[b := cnt ! b + 1]))"

definition build_edges :: "nat \<Rightarrow> (nat \<times> nat) list \<Rightarrow> nat list list \<times> nat list" where
  "build_edges n es = fold add_edge es (replicate n [], replicate n 0)"

text \<open>
  The body \<^verbatim>\<open>for &j in ..\<close>: decrement, push on zero. \<^verbatim>\<open>None\<close> stands for the panic of an
  out-of-range index or of \<^verbatim>\<open>0 - 1\<close> on \<^verbatim>\<open>usize\<close>.
\<close>

fun release :: "nat list \<Rightarrow> nat list \<Rightarrow> nat list \<Rightarrow> (nat list \<times> nat list) option" where
  "release cnt ready [] = Some (cnt, ready)"
| "release cnt ready (j # js) =
     (case get_at cnt j of
        None \<Rightarrow> None
      | Some 0 \<Rightarrow> None
      | Some (Suc m) \<Rightarrow> release (cnt[j := m]) (if m = 0 then ready @ [j] else ready) js)"

section \<open>Building the graph\<close>

lemma key_index_Some:
  assumes "distinct ks"
  shows "key_index ks k = Some j \<longleftrightarrow> j < length ks \<and> ks ! j = k"
proof -
  have "map fst (rev (zip ks [0..<length ks])) = rev ks" by (simp flip: rev_map)
  then have "distinct (map fst (rev (zip ks [0..<length ks])))" using assms by (metis distinct_rev)
  then show ?thesis unfolding key_index_def by (auto simp: map_of_eq_Some_iff in_set_zip)
qed

lemma build_edges_fold:
  assumes "\<forall>(a, b) \<in> set es. a < n \<and> b < n" "length (fst g) = n" "length (snd g) = n"
  shows "length (fst (fold add_edge es g)) = n \<and> length (snd (fold add_edge es g)) = n
    \<and> (\<forall>a < n. fst (fold add_edge es g) ! a = fst g ! a @ map snd (filter (\<lambda>e. fst e = a) es))
    \<and> (\<forall>b < n. snd (fold add_edge es g) ! b = snd g ! b + count_list (map snd es) b)"
  using assms
proof (induction es arbitrary: g)
  case (Cons e es)
  obtain a b where e: "e = (a, b)" by fastforce
  have "\<forall>(a, b) \<in> set es. a < n \<and> b < n" "length (fst (add_edge e g)) = n"
    "length (snd (add_edge e g)) = n"
    using Cons.prems by (auto simp: e add_edge_def split: prod.splits)
  from Cons.IH [OF this] Cons.prems show ?case
    by (auto simp: e add_edge_def nth_list_update split: prod.splits)
qed simp

lemma build_edges:
  assumes "\<forall>(a, b) \<in> set es. a < n \<and> b < n"
  shows "length (fst (build_edges n es)) = n" "length (snd (build_edges n es)) = n"
    and "a < n \<Longrightarrow> fst (build_edges n es) ! a = map snd (filter (\<lambda>e. fst e = a) es)"
    and "b < n \<Longrightarrow> snd (build_edges n es) ! b = count_list (map snd es) b"
  using build_edges_fold [OF assms, of "(replicate n [], replicate n 0)"]
  by (simp_all add: build_edges_def)

lemma count_list_by_source:
  fixes es :: "(nat \<times> 'b) list"
  assumes "\<forall>e \<in> set es. fst e < n"
  shows "count_list (map snd es) b = (\<Sum>a<n. count_list (map snd (filter (\<lambda>e. fst e = a) es)) b)"
  using assms
proof (induction es)
  case (Cons e es)
  have "(\<Sum>a<n. count_list (map snd (filter (\<lambda>e. fst e = a) (e # es))) b) =
      (\<Sum>a<n. (if a = fst e \<and> snd e = b then 1 else 0) + count_list (map snd (filter (\<lambda>e. fst e = a) es)) b)"
    by (intro sum.cong) auto
  also have "\<dots> = (if snd e = b then 1 else 0) + count_list (map snd es) b"
  proof -
    have "(\<Sum>a<n. if a = fst e \<and> snd e = b then 1 else 0) = (if snd e = b then 1 else (0::nat))"
      using Cons.prems by (cases "snd e = b") simp_all
    then show ?thesis using Cons by (simp add: sum.distrib)
  qed
  finally show ?case by simp
qed simp

section \<open>Releasing successors\<close>

lemma release_ok:
  assumes "\<forall>j \<in> set js. j < length cnt" "\<forall>j < length cnt. count_list js j \<le> cnt ! j"
  shows "\<exists>cnt' new. release cnt ready js = Some (cnt', ready @ new) \<and> length cnt' = length cnt
    \<and> (\<forall>j < length cnt. cnt' ! j = cnt ! j - count_list js j)
    \<and> distinct new \<and> set new = {j \<in> set js. cnt' ! j = 0}"
  using assms
proof (induction js arbitrary: cnt ready)
  case (Cons j js)
  then have j: "j < length cnt" by simp
  then have "1 + count_list js j \<le> cnt ! j" using Cons.prems(2) by force
  then obtain m where m: "cnt ! j = Suc m" "count_list js j \<le> m" by (cases "cnt ! j") auto
  let ?ready = "if m = 0 then ready @ [j] else ready"
  have "\<forall>k < length (cnt[j := m]). count_list js k \<le> cnt[j := m] ! k"
  proof (intro allI impI)
    fix k assume "k < length (cnt[j := m])"
    then have "count_list (j # js) k \<le> cnt ! k" using Cons.prems(2) by (metis length_list_update)
    then show "count_list js k \<le> cnt[j := m] ! k" using m j by (cases "k = j") auto
  qed
  with Cons.IH [of "cnt[j := m]" ?ready] Cons.prems(1)
  obtain cnt' new where r: "release (cnt[j := m]) ?ready js = Some (cnt', ?ready @ new)"
    and len: "length cnt' = length cnt" and sub: "\<forall>k < length cnt. cnt' ! k = cnt[j := m] ! k - count_list js k"
    and new: "distinct new" "set new = {k \<in> set js. cnt' ! k = 0}" by auto
  have zero: "m = 0 \<Longrightarrow> j \<notin> set js" using m(2) by (simp add: count_list_0_iff)
  have "cnt' ! j = m - count_list js j" using sub j by simp
  then have cj: "cnt' ! j = 0 \<longleftrightarrow> (if j \<in> set js then j \<in> set new else m = 0)"
    using new(2) zero m(2) by (auto simp: count_list_0_iff)
  let ?new = "if m = 0 then j # new else new"
  have "set ?new = {k \<in> set (j # js). cnt' ! k = 0}"
  proof (cases "m = 0")
    case True
    then have "cnt' ! j = 0" using zero cj by simp
    then show ?thesis using True by (auto simp: new(2))
  next
    case False
    then have "cnt' ! j = 0 \<Longrightarrow> j \<in> set js" using cj by (cases "j \<in> set js") simp_all
    then show ?thesis using False new(2) by (simp add: set_eq_iff) blast
  qed
  moreover have "distinct ?new" using new zero by auto
  moreover have "release cnt ready (j # js) = Some (cnt', ready @ ?new)"
    using r j m by (simp add: get_at_def)
  moreover have "\<forall>k < length cnt. cnt' ! k = cnt ! k - count_list (j # js) k"
    using sub m(1) j by (auto simp: nth_list_update)
  ultimately show ?case using len by blast
qed simp

text \<open>The measure of both loops: releasing never raises it.\<close>

lemma release_measure:
  "release cnt ready js = Some (cnt', ready') \<Longrightarrow>
   2 * sum_list cnt' + length ready' \<le> 2 * sum_list cnt + length ready"
proof (induction cnt ready js rule: release.induct)
  case (2 cnt ready j js)
  then obtain m where m: "get_at cnt j = Some (Suc m)"
    by (cases "get_at cnt j") (auto split: nat.splits)
  have "sum_list cnt = sum_list (cnt[j := m]) + 1"
    using m elem_le_sum_list [of j cnt] by (simp add: get_at_Some sum_list_update)
  moreover have "2 * sum_list cnt' + length ready' \<le>
      2 * sum_list (cnt[j := m]) + length (if m = 0 then ready @ [j] else ready)"
    using 2(1) [OF m refl] 2(2) m by simp
  ultimately show ?case by (auto split: if_splits)
qed simp

section \<open>The invariant\<close>

text \<open>
  \<open>done\<close> is what has been placed, \<open>ready\<close> what waits to be: counters count the edges from what is
  not yet placed, an index is placed or ready exactly when its counter is zero, and every edge
  into a placed index comes from an earlier one.
\<close>

definition kahn_inv :: "nat list list \<Rightarrow> nat list \<Rightarrow> nat list \<Rightarrow> nat list \<Rightarrow> bool" where
  "kahn_inv succ cnt ready don \<longleftrightarrow>
     length cnt = length succ
   \<and> (\<forall>a < length succ. set (succ ! a) \<subseteq> {..<length succ})
   \<and> distinct (don @ ready)
   \<and> set (don @ ready) = {j. j < length succ \<and> cnt ! j = 0}
   \<and> (\<forall>j < length succ. cnt ! j = (\<Sum>a \<in> {..<length succ} - set don. count_list (succ ! a) j))
   \<and> (\<forall>k < length don. \<forall>a < length succ. don ! k \<in> set (succ ! a) \<longrightarrow> a \<in> set (take k don))"

lemma kahn_init:
  assumes "\<forall>(a, b) \<in> set es. a < n \<and> b < n" "build_edges n es = (succ, cnt)"
  shows "kahn_inv succ cnt (filter (\<lambda>i. cnt ! i = 0) [0..<n]) [] \<and> length succ = n"
proof -
  note be = build_edges [OF assms(1), unfolded assms(2) fst_conv snd_conv]
  have "cnt ! j = (\<Sum>a<n. count_list (succ ! a) j)" if "j < n" for j
  proof -
    have "cnt ! j = (\<Sum>a<n. count_list (map snd (filter (\<lambda>e. fst e = a) es)) j)"
      using be(4) [OF that] assms(1) by (subst count_list_by_source [symmetric]) auto
    also have "\<dots> = (\<Sum>a<n. count_list (succ ! a) j)" using be(3) by (intro sum.cong) auto
    finally show ?thesis .
  qed
  moreover have "\<forall>a < n. set (succ ! a) \<subseteq> {..<n}" using be(3) assms(1) by auto
  ultimately show ?thesis
    unfolding kahn_inv_def be(1,2) by (intro conjI) (simp_all add: atLeast0LessThan)
qed

lemma kahn_step:
  assumes inv: "kahn_inv succ cnt ready don" and i: "i \<in> set ready"
    and rest: "distinct rest" "set rest = set ready - {i}"
  shows "\<exists>cnt' rest'. release cnt rest (succ ! i) = Some (cnt', rest')
           \<and> kahn_inv succ cnt' rest' (don @ [i])"
proof -
  let ?n = "length succ"
  have len: "length cnt = ?n" and dist: "distinct (don @ ready)"
    and zero: "set (don @ ready) = {j. j < ?n \<and> cnt ! j = 0}"
    and cnt: "\<forall>j < ?n. cnt ! j = (\<Sum>a \<in> {..<?n} - set don. count_list (succ ! a) j)"
    and rng: "\<forall>a < ?n. set (succ ! a) \<subseteq> {..<?n}"
    and ord: "\<forall>k < length don. \<forall>a < ?n. don ! k \<in> set (succ ! a) \<longrightarrow> a \<in> set (take k don)"
    by (insert inv, unfold kahn_inv_def, (erule conjE)+, assumption)+
  have i_n: "i < ?n" and i_new: "i \<notin> set don" using i zero dist by auto
  have split: "cnt ! j = count_list (succ ! i) j + (\<Sum>a \<in> {..<?n} - set (don @ [i]). count_list (succ ! a) j)"
    if "j < ?n" for j
  proof -
    let ?f = "\<lambda>a. count_list (succ ! a) j"
    have "cnt ! j = sum ?f ({..<?n} - set don)" using cnt that by blast
    also have "{..<?n} - set don = insert i ({..<?n} - set (don @ [i]))" using i_n i_new by auto
    also have "sum ?f \<dots> = ?f i + sum ?f ({..<?n} - set (don @ [i]))" by (subst sum.insert) auto
    finally show ?thesis .
  qed
  have pre: "\<forall>j \<in> set (succ ! i). j < length cnt" "\<forall>j < length cnt. count_list (succ ! i) j \<le> cnt ! j"
    using rng i_n len split by auto
  obtain cnt' new where r: "release cnt rest (succ ! i) = Some (cnt', rest @ new)"
    and len': "length cnt' = length cnt" and sub: "\<forall>j < length cnt. cnt' ! j = cnt ! j - count_list (succ ! i) j"
    and new: "distinct new" "set new = {j \<in> set (succ ! i). cnt' ! j = 0}"
    using release_ok [OF pre, of rest] by (elim exE conjE) (rule that; assumption)
  have pos: "cnt ! j \<noteq> 0" if "j \<in> set (succ ! i)" for j
  proof -
    have "count_list (succ ! i) j \<noteq> 0" using that by (simp add: count_list_0_iff)
    then show ?thesis using pre that by (metis le_zero_eq)
  qed
  have same: "cnt' ! j = cnt ! j" if "j < ?n" "j \<notin> set (succ ! i)" for j
    using sub that len by (simp add: count_list_0_iff)
  have mem: "j < ?n \<and> cnt' ! j = 0 \<longleftrightarrow> (j < ?n \<and> cnt ! j = 0) \<or> j \<in> set new" for j
    using new(2) pos [of j] same [of j] pre(1) len by (cases "j \<in> set (succ ! i)") auto
  have old_new: "set new \<inter> set (don @ ready) = {}"
    unfolding zero new(2) using pos by blast
  have "kahn_inv succ cnt' (rest @ new) (don @ [i])"
    unfolding kahn_inv_def
  proof (intro conjI allI impI)
    show "distinct ((don @ [i]) @ rest @ new)"
      using dist rest new(1) old_new i i_new by auto
    have "set ((don @ [i]) @ rest @ new) = set (don @ ready) \<union> set new"
      using rest(2) i by auto
    then show "set ((don @ [i]) @ rest @ new) = {j. j < ?n \<and> cnt' ! j = 0}"
      using zero mem by blast
    show "cnt' ! j = (\<Sum>a \<in> {..<?n} - set (don @ [i]). count_list (succ ! a) j)" if "j < ?n" for j
      using split [OF that] sub that len by simp
    fix k a assume k: "k < length (don @ [i])" and a: "a < ?n" "(don @ [i]) ! k \<in> set (succ ! a)"
    show "a \<in> set (take k (don @ [i]))"
    proof (cases "k < length don")
      case True
      then show ?thesis using ord a by (simp add: nth_append)
    next
      case False
      then have "i \<in> set (succ ! a)" "k = length don" using a k by (auto simp: nth_append)
      moreover have "(\<Sum>a \<in> {..<?n} - set don. count_list (succ ! a) i) = 0"
        using cnt [THEN spec, THEN mp, OF i_n] i zero by (metis (mono_tags, lifting) UnI2 mem_Collect_eq set_append)
      ultimately show ?thesis using a(1) by (auto simp: count_list_0_iff)
    qed
  qed (use len len' rng in auto)
  then show ?thesis using r by blast
qed

section \<open>When the ready indexes run out\<close>

definition index_edges :: "nat list list \<Rightarrow> (nat \<times> nat) set" where
  "index_edges succ = {(a, b). a < length succ \<and> b \<in> set (succ ! a)}"

lemma kahn_end_order:
  assumes "kahn_inv succ cnt [] don"
  shows "distinct don" "set don = {j. j < length succ \<and> cnt ! j = 0}"
    and "k < length don \<Longrightarrow> (a, don ! k) \<in> index_edges succ \<Longrightarrow> a \<in> set (take k don)"
  using assms by (auto simp: kahn_inv_def index_edges_def)

text \<open>On an acyclic graph everything is placed: what is left over would hold a cycle.\<close>

lemma kahn_end_complete:
  assumes inv: "kahn_inv succ cnt [] don" and acyc: "acyclic (index_edges succ)"
  shows "set don = {..<length succ}"
proof (rule ccontr)
  let ?n = "length succ"
  let ?L = "{j. j < ?n \<and> cnt ! j \<noteq> 0}"
  assume "set don \<noteq> {..<?n}"
  then obtain j0 where j0: "j0 \<in> ?L" using kahn_end_order(2) [OF inv] by blast
  have pred: "\<exists>a \<in> ?L. (a, j) \<in> index_edges succ" if j: "j \<in> ?L" for j
  proof -
    have "(\<Sum>a \<in> {..<?n} - set don. count_list (succ ! a) j) \<noteq> 0"
      using inv j unfolding kahn_inv_def by (metis (mono_tags, lifting) mem_Collect_eq)
    then obtain a where a: "a \<in> {..<?n} - set don" "count_list (succ ! a) j \<noteq> 0"
      by (meson sum.neutral)
    then have "a \<in> ?L" using kahn_end_order(2) [OF inv] by auto
    then show ?thesis using a by (auto simp: index_edges_def count_list_0_iff)
  qed
  have "finite (index_edges succ)"
    by (rule finite_subset [of _ "\<Union>a<?n. {a} \<times> set (succ ! a)"]) (auto simp: index_edges_def)
  then have "wf (index_edges succ)" using acyc by (simp add: finite_acyclic_wf)
  then obtain z where "z \<in> ?L" "\<forall>y. (y, z) \<in> index_edges succ \<longrightarrow> y \<notin> ?L"
    using j0 by (metis (no_types, lifting) wfE_min)
  then show False using pred by blast
qed

text \<open>A graph that maps into an acyclic one is acyclic.\<close>

lemma acyclic_pullback:
  assumes "acyclic r" "\<And>a b. (a, b) \<in> s \<Longrightarrow> (f a, f b) \<in> r"
  shows "acyclic s"
proof (rule acyclicI, rule allI, rule notI)
  fix x assume "(x, x) \<in> s\<^sup>+"
  moreover have "(a, b) \<in> s\<^sup>+ \<Longrightarrow> (f a, f b) \<in> r\<^sup>+" for a b
    by (induction rule: trancl_induct) (auto intro: assms(2) trancl_into_trancl)
  ultimately show False using assms(1) by (auto simp: acyclic_def)
qed

lemmas kahn_end = kahn_end_order kahn_end_complete

end
