(* ===== verification/Database.thy ===== *)
theory Database
  imports Wire
begin

text \<open>
  \<^verbatim>\<open>crates/garret-server/src/db.rs\<close>: the SQLite schema and every statement on it, up to
  Negotiation (\<^verbatim>\<open>missing\<close>); prune is in theory \<open>Prune\<close>.

  A table is the list of its rows. \<^verbatim>\<open>PRIMARY KEY\<close>, foreign keys and the \<^verbatim>\<open>CHECK\<close> are the
  invariant \<open>db_inv\<close>; \<^verbatim>\<open>ON DELETE CASCADE\<close> is written out where a row is deleted. Each
  transaction is one function on the whole database, so a failed one changes nothing. Where a
  query has no \<^verbatim>\<open>ORDER BY\<close> its rows come in table order. Errors that the statements themselves
  can raise on a healthy database (a duplicate key, a \<^verbatim>\<open>sigs\<close> column that is not JSON, an
  \<^verbatim>\<open>ensure!\<close>) are values; I/O and lock errors of SQLite are not modelled. Timestamps and sizes are
  \<^verbatim>\<open>i64\<close> far below \<open>2 ^ 63\<close> and are integers here.

  The \<^verbatim>\<open>sigs\<close> column holds JSON text; \<^verbatim>\<open>serde_json\<close>'s printer and parser for string lists are the
  parameters \<open>enc\<close> and \<open>dec\<close>.
\<close>

section \<open>Schema\<close>

record object =
  obj_store_path_hash :: hash
  obj_store_path :: string
  obj_name :: string
  obj_nar_hash :: string
  obj_nar_size :: int
  obj_file_hash :: string
  obj_file_size :: int
  obj_deriver :: "string option"
  obj_ca :: "string option"
  obj_references :: "string list"
  obj_sigs :: "string list"
  obj_pushed_by :: "string option"

record object_row =
  row_hash :: hash
  row_store_path :: string
  row_name :: string
  row_nar_hash :: string
  row_nar_size :: int
  row_file_hash :: string
  row_file_size :: int
  row_deriver :: "string option"
  row_ca :: "string option"
  row_sigs :: string
  row_pushed_by :: "string option"
  row_created_at :: int
  row_last_accessed_at :: int
  row_pushed_at :: int

record pin_row =
  pr_name :: string
  pr_hash :: hash
  pr_expires_at :: "int option"
  pr_created_at :: int

text \<open>A row of \<^verbatim>\<open>object_refs\<close>: referrer and reference basename.\<close>

type_synonym ref_row = "hash \<times> string"

text \<open>
  The generated column \<^verbatim>\<open>reference_hash\<close>, \<^verbatim>\<open>substr(reference, 1, 32)\<close>. SQLite counts
  characters; the Pusher stores only basenames \<open>store_basename\<close> accepts, which are ASCII, so
  characters are bytes.
\<close>

definition reference_hash :: "ref_row \<Rightarrow> hash" where
  "reference_hash r = take 32 (snd r)"

record database =
  db_objects :: "object_row list"
  db_refs :: "ref_row list"
  db_pins :: "pin_row list"
  db_total :: int

definition empty_db :: database where
  "empty_db = \<lparr>db_objects = [], db_refs = [], db_pins = [], db_total = 0\<rparr>"

datatype db_error =
    UniqueViolation
  | CorruptSigs
  | NothingToPin
  | CutoffTooRecent
  | ReferenceCycle
  | Panic

record object_brief =
  brief_hash :: hash
  brief_name :: string
  brief_created_at :: int
  brief_file_size :: int

definition brief_from_row :: "object_row \<Rightarrow> object_brief" where
  "brief_from_row r =
     \<lparr>brief_hash = row_hash r, brief_name = row_name r,
      brief_created_at = row_created_at r, brief_file_size = row_file_size r\<rparr>"

definition PUSHED_AT_DEBOUNCE :: int where "PUSHED_AT_DEBOUNCE = 3600"

section \<open>Reads\<close>

text \<open>\<^verbatim>\<open>WHERE store_path_hash = ?1\<close>.\<close>

definition find_row :: "database \<Rightarrow> hash \<Rightarrow> object_row option" where
  "find_row d h = find (\<lambda>r. row_hash r = h) (db_objects d)"

definition refs_of :: "database \<Rightarrow> hash \<Rightarrow> string list" where
  "refs_of d h = map snd (filter (\<lambda>r. fst r = h) (db_refs d))"

definition get_object_and_last_accessed ::
  "(string \<Rightarrow> string list option) \<Rightarrow> database \<Rightarrow> hash \<Rightarrow> db_error + (object \<times> int) option" where
  "get_object_and_last_accessed dec d h =
     (case find_row d h of
        None \<Rightarrow> Inr None
      | Some r \<Rightarrow>
          (case dec (row_sigs r) of
             None \<Rightarrow> Inl CorruptSigs
           | Some sigs \<Rightarrow>
               Inr (Some (\<lparr>obj_store_path_hash = h, obj_store_path = row_store_path r,
                  obj_name = row_name r, obj_nar_hash = row_nar_hash r,
                  obj_nar_size = row_nar_size r, obj_file_hash = row_file_hash r,
                  obj_file_size = row_file_size r, obj_deriver = row_deriver r,
                  obj_ca = row_ca r, obj_references = sort (refs_of d h), obj_sigs = sigs,
                  obj_pushed_by = row_pushed_by r\<rparr>, row_last_accessed_at r))))"

definition get_object ::
  "(string \<Rightarrow> string list option) \<Rightarrow> database \<Rightarrow> hash \<Rightarrow> db_error + object option" where
  "get_object dec d h =
     (case get_object_and_last_accessed dec d h of
        Inl e \<Rightarrow> Inl e
      | Inr x \<Rightarrow> Inr (map_option fst x))"

definition exists_object :: "database \<Rightarrow> hash \<Rightarrow> bool" where
  "exists_object d h = (find_row d h \<noteq> None)"

definition created_at :: "database \<Rightarrow> hash \<Rightarrow> int option" where
  "created_at d h = map_option row_created_at (find_row d h)"

definition file_size :: "database \<Rightarrow> hash \<Rightarrow> int option" where
  "file_size d h = map_option row_file_size (find_row d h)"

definition total_bytes :: "database \<Rightarrow> int" where
  "total_bytes d = db_total d"

definition all_hashes :: "database \<Rightarrow> hash list" where
  "all_hashes d = map row_hash (db_objects d)"

definition all_objects_brief :: "database \<Rightarrow> object_brief list" where
  "all_objects_brief d = map brief_from_row (db_objects d)"

definition I64_MIN :: int where "I64_MIN = - (2 ^ 63)"

definition pushed_by :: "database \<Rightarrow> string \<Rightarrow> int option \<Rightarrow> object_brief list" where
  "pushed_by d subject since =
     map brief_from_row
       (sort_key (\<lambda>r. (row_created_at r, row_hash r))
         (filter (\<lambda>r. row_pushed_by r = Some subject
                    \<and> row_created_at r \<ge> (case since of None \<Rightarrow> I64_MIN | Some s \<Rightarrow> s))
            (db_objects d)))"

definition object_count :: "database \<Rightarrow> nat" where
  "object_count d = length (db_objects d)"

text \<open>\<^verbatim>\<open>ORDER BY last_accessed_at DESC LIMIT 1\<close>; SQL leaves the choice among ties open.\<close>

definition most_recently_accessed :: "database \<Rightarrow> hash option" where
  "most_recently_accessed d =
     (case sort_key (\<lambda>r. - row_last_accessed_at r) (db_objects d) of
        [] \<Rightarrow> None
      | r # _ \<Rightarrow> Some (row_hash r))"

section \<open>Insertion\<close>

definition row_of_object :: "(string list \<Rightarrow> string) \<Rightarrow> object \<Rightarrow> int \<Rightarrow> object_row" where
  "row_of_object enc ob now =
     \<lparr>row_hash = obj_store_path_hash ob, row_store_path = obj_store_path ob,
      row_name = obj_name ob, row_nar_hash = obj_nar_hash ob, row_nar_size = obj_nar_size ob,
      row_file_hash = obj_file_hash ob, row_file_size = obj_file_size ob,
      row_deriver = obj_deriver ob, row_ca = obj_ca ob, row_sigs = enc (obj_sigs ob),
      row_pushed_by = obj_pushed_by ob, row_created_at = now, row_last_accessed_at = now,
      row_pushed_at = now\<rparr>"

text \<open>\<^verbatim>\<open>INSERT .. ON CONFLICT (store_path_hash) DO UPDATE\<close>: every column of the old row is replaced.\<close>

fun upsert_row :: "object_row \<Rightarrow> object_row list \<Rightarrow> object_row list" where
  "upsert_row r [] = [r]"
| "upsert_row r (x # xs) = (if row_hash x = row_hash r then r # xs else x # upsert_row r xs)"

text \<open>
  The reference rows are inserted one by one; two equal basenames break the primary key
  \<^verbatim>\<open>(referrer, reference)\<close> and roll the whole transaction back.
\<close>

definition insert_object ::
  "(string list \<Rightarrow> string) \<Rightarrow> database \<Rightarrow> object \<Rightarrow> int \<Rightarrow> db_error + database" where
  "insert_object enc d ob now =
     (let h = obj_store_path_hash ob;
          previous = (case file_size d h of None \<Rightarrow> 0 | Some s \<Rightarrow> s);
          refs = filter (\<lambda>r. fst r \<noteq> h) (db_refs d)
      in if \<not> distinct (obj_references ob) then Inl UniqueViolation
         else Inr (d\<lparr>db_objects := upsert_row (row_of_object enc ob now) (db_objects d),
                     db_refs := refs @ map (\<lambda>b. (h, b)) (obj_references ob),
                     db_total := db_total d + (obj_file_size ob - previous)\<rparr>))"

section \<open>Accounting, eviction and deletion\<close>

definition sum_file_size :: "database \<Rightarrow> int" where
  "sum_file_size d = sum_list (map row_file_size (db_objects d))"

definition reconcile_total_bytes :: "database \<Rightarrow> int \<times> database" where
  "reconcile_total_bytes d = (let actual = sum_file_size d in (actual, d\<lparr>db_total := actual\<rparr>))"

definition pin_live :: "pin_row \<Rightarrow> int \<Rightarrow> bool" where
  "pin_live p now = (case pr_expires_at p of None \<Rightarrow> True | Some e \<Rightarrow> e > now)"

text \<open>The shared condition \<^verbatim>\<open>evictable_where!\<close>.\<close>

definition evictable_where :: "database \<Rightarrow> int \<Rightarrow> object_row \<Rightarrow> bool" where
  "evictable_where d now r =
     (\<not> list_ex (\<lambda>e. reference_hash e = row_hash r \<and> fst e \<noteq> row_hash r) (db_refs d)
      \<and> \<not> list_ex (\<lambda>p. pr_hash p = row_hash r \<and> pin_live p now) (db_pins d)
      \<and> row_pushed_at r < now - PUSH_GRACE)"

definition evictable :: "database \<Rightarrow> nat \<Rightarrow> int \<Rightarrow> (hash \<times> int) list" where
  "evictable d limit now =
     take limit (map (\<lambda>r. (row_hash r, row_file_size r))
       (sort_key (\<lambda>r. (row_last_accessed_at r, row_hash r))
         (filter (evictable_where d now) (db_objects d))))"

text \<open>\<^verbatim>\<open>DELETE FROM objects WHERE store_path_hash = ?1\<close>, with its two cascades.\<close>

definition delete_row :: "database \<Rightarrow> hash \<Rightarrow> database" where
  "delete_row d h =
     d\<lparr>db_objects := filter (\<lambda>r. row_hash r \<noteq> h) (db_objects d),
       db_refs := filter (\<lambda>r. fst r \<noteq> h) (db_refs d),
       db_pins := filter (\<lambda>p. pr_hash p \<noteq> h) (db_pins d)\<rparr>"

definition debit :: "database \<Rightarrow> int \<Rightarrow> database" where
  "debit d bytes = d\<lparr>db_total := max 0 (db_total d - bytes)\<rparr>"

definition remove_row :: "database \<Rightarrow> hash \<Rightarrow> int \<Rightarrow> database" where
  "remove_row d h sz = debit (delete_row d h) sz"

definition evict_object :: "database \<Rightarrow> hash \<Rightarrow> int \<Rightarrow> int option \<times> database" where
  "evict_object d h now =
     (case find (\<lambda>r. row_hash r = h \<and> evictable_where d now r) (db_objects d) of
        None \<Rightarrow> (None, d)
      | Some r \<Rightarrow> (Some (row_file_size r), remove_row d h (row_file_size r)))"

definition delete_object :: "database \<Rightarrow> hash \<Rightarrow> int option \<times> database" where
  "delete_object d h =
     (case file_size d h of
        None \<Rightarrow> (None, d)
      | Some sz \<Rightarrow> (Some sz, remove_row d h sz))"

section \<open>Pins, signatures and access times\<close>

definition pin_object ::
  "database \<Rightarrow> string \<Rightarrow> hash \<Rightarrow> int option \<Rightarrow> int \<Rightarrow> db_error + database" where
  "pin_object d name h expires_at now =
     (if \<not> exists_object d h then Inl NothingToPin
      else Inr (d\<lparr>db_pins := filter (\<lambda>p. pr_name p \<noteq> name) (db_pins d) @
             [\<lparr>pr_name = name, pr_hash = h, pr_expires_at = expires_at, pr_created_at = now\<rparr>]\<rparr>))"

definition unpin :: "database \<Rightarrow> string \<Rightarrow> bool \<times> database" where
  "unpin d name =
     (list_ex (\<lambda>p. pr_name p = name) (db_pins d),
      d\<lparr>db_pins := filter (\<lambda>p. pr_name p \<noteq> name) (db_pins d)\<rparr>)"

text \<open>\<^verbatim>\<open>UPDATE objects SET .. WHERE store_path_hash = ?1\<close>.\<close>

definition update_row :: "(object_row \<Rightarrow> object_row) \<Rightarrow> hash \<Rightarrow> database \<Rightarrow> database" where
  "update_row f h d =
     d\<lparr>db_objects := map (\<lambda>r. if row_hash r = h then f r else r) (db_objects d)\<rparr>"

definition update_sigs ::
  "(string list \<Rightarrow> string) \<Rightarrow> database \<Rightarrow> hash \<Rightarrow> string list \<Rightarrow> database" where
  "update_sigs enc d h sigs = update_row (\<lambda>r. r\<lparr>row_sigs := enc sigs\<rparr>) h d"

definition bump_row :: "int \<Rightarrow> int \<Rightarrow> object_row \<Rightarrow> object_row" where
  "bump_row now stale_after r =
     (if row_last_accessed_at r < now - stale_after then r\<lparr>row_last_accessed_at := now\<rparr> else r)"

definition bump_last_accessed :: "database \<Rightarrow> hash list \<Rightarrow> int \<Rightarrow> int \<Rightarrow> database" where
  "bump_last_accessed d hs now stale_after =
     fold (update_row (bump_row now stale_after)) hs d"

section \<open>Negotiation\<close>

text \<open>The read loop: what is missing and what is stale, in request order.\<close>

fun missing_scan :: "database \<Rightarrow> int \<Rightarrow> hash list \<Rightarrow> hash list \<times> hash list" where
  "missing_scan d now [] = ([], [])"
| "missing_scan d now (h # hs) =
     (let (missing, stale) = missing_scan d now hs in
        case find_row d h of
          None \<Rightarrow> (h # missing, stale)
        | Some r \<Rightarrow>
            if row_pushed_at r < now - PUSHED_AT_DEBOUNCE then (missing, h # stale)
            else (missing, stale))"

definition missing :: "database \<Rightarrow> hash list \<Rightarrow> int \<Rightarrow> hash list \<times> database" where
  "missing d hs now =
     (let (missing, stale) = missing_scan d now hs in
        (missing,
         if stale = [] then d else fold (update_row (\<lambda>r. r\<lparr>row_pushed_at := now\<rparr>)) stale d))"

section \<open>The schema's invariant\<close>

text \<open>
  Primary keys, foreign keys, and what the writers maintain beyond the schema: sizes are not
  negative and the \<^verbatim>\<open>stats\<close> counter is the sum of the rows.
\<close>

definition db_keys :: "database \<Rightarrow> hash set" where
  "db_keys d = row_hash ` set (db_objects d)"

definition db_inv :: "database \<Rightarrow> bool" where
  "db_inv d \<longleftrightarrow>
     distinct (map row_hash (db_objects d))
   \<and> distinct (db_refs d)
   \<and> distinct (map pr_name (db_pins d))
   \<and> fst ` set (db_refs d) \<subseteq> db_keys d
   \<and> pr_hash ` set (db_pins d) \<subseteq> db_keys d
   \<and> (\<forall>r \<in> set (db_objects d). 0 \<le> row_file_size r)
   \<and> db_total d = sum_file_size d"

text \<open>
  The reference graph on hashes, self-edges left out, and what it means that a change kept
  every surviving object's closure: no reference that was cached before is dangling after.
\<close>

definition ref_edges :: "database \<Rightarrow> (hash \<times> hash) set" where
  "ref_edges d = {(fst e, reference_hash e) | e. e \<in> set (db_refs d) \<and> reference_hash e \<noteq> fst e}"

definition closure_kept :: "database \<Rightarrow> database \<Rightarrow> bool" where
  "closure_kept d d' \<longleftrightarrow>
     (\<forall>(a, b) \<in> ref_edges d. a \<in> db_keys d' \<longrightarrow> b \<in> db_keys d \<longrightarrow> b \<in> db_keys d')"

section \<open>Lookup and keys\<close>

lemma find_row_SomeD: "find_row d h = Some r \<Longrightarrow> r \<in> set (db_objects d) \<and> row_hash r = h"
  by (auto simp: find_row_def find_Some_iff)

lemma find_row_None: "find_row d h = None \<longleftrightarrow> h \<notin> db_keys d"
  by (auto simp: find_row_def find_None_iff db_keys_def)

lemma find_row_Some:
  "db_inv d \<Longrightarrow> find_row d h = Some r \<longleftrightarrow> r \<in> set (db_objects d) \<and> row_hash r = h"
  using find_row_SomeD [of d h] find_row_None [of d h]
  by (cases "find_row d h")
    (auto simp: db_inv_def db_keys_def dest: distinct_key_unique [of row_hash "db_objects d"])

lemma exists_object_iff [simp]: "exists_object d h \<longleftrightarrow> h \<in> db_keys d"
  by (simp add: exists_object_def find_row_None)

lemma file_size_None [simp]: "file_size d h = None \<longleftrightarrow> h \<notin> db_keys d"
  by (simp add: file_size_def find_row_None)

lemma file_size_Some:
  "db_inv d \<Longrightarrow> file_size d h = Some s \<longleftrightarrow> (\<exists>r \<in> set (db_objects d). row_hash r = h \<and> row_file_size r = s)"
  by (auto simp: file_size_def find_row_Some)

lemma set_all_hashes [simp]: "set (all_hashes d) = db_keys d"
  by (simp add: all_hashes_def db_keys_def)

lemma row_hash_row_of_object [simp]: "row_hash (row_of_object enc ob now) = obj_store_path_hash ob"
  by (simp add: row_of_object_def)

lemma set_upsert_row:
  "distinct (map row_hash xs) \<Longrightarrow>
   set (upsert_row r xs) = insert r {x \<in> set xs. row_hash x \<noteq> row_hash r}"
  by (induction xs) (auto simp: image_iff)

lemma keys_upsert_row: "row_hash ` set (upsert_row r xs) = insert (row_hash r) (row_hash ` set xs)"
  by (induction xs) auto

lemma distinct_upsert_row:
  "distinct (map row_hash xs) \<Longrightarrow> distinct (map row_hash (upsert_row r xs))"
  by (induction xs) (auto simp: keys_upsert_row image_iff)

lemma sum_upsert_row:
  "distinct (map row_hash xs) \<Longrightarrow>
   sum_list (map row_file_size (upsert_row r xs)) =
     sum_list (map row_file_size xs) + row_file_size r
       - (case find (\<lambda>x. row_hash x = row_hash r) xs of None \<Rightarrow> 0 | Some x \<Rightarrow> row_file_size x)"
  by (induction xs) (auto split: option.splits)

section \<open>Every writer keeps the invariant\<close>

lemma db_inv_empty [inv_rules]: "db_inv empty_db"
  by (simp add: db_inv_def empty_db_def sum_file_size_def)

lemma db_keys_insert:
  "insert_object enc d ob now = Inr d' \<Longrightarrow> db_keys d' = insert (obj_store_path_hash ob) (db_keys d)"
  by (clarsimp simp: insert_object_def Let_def db_keys_def keys_upsert_row split: if_splits)

lemma db_inv_insert [inv_rules]:
  assumes d: "db_inv d" and ins: "insert_object enc d ob now = Inr d'" and sz: "0 \<le> obj_file_size ob"
  shows "db_inv d'"
proof -
  let ?h = "obj_store_path_hash ob"
  let ?r = "row_of_object enc ob now"
  have dist: "distinct (map row_hash (db_objects d))" using d by (simp add: db_inv_def)
  have d': "d' = d\<lparr>db_objects := upsert_row ?r (db_objects d),
       db_refs := filter (\<lambda>r. fst r \<noteq> ?h) (db_refs d) @ map (\<lambda>b. (?h, b)) (obj_references ob),
       db_total := db_total d + (obj_file_size ob - (case file_size d ?h of None \<Rightarrow> 0 | Some s \<Rightarrow> s))\<rparr>"
    and refs: "distinct (obj_references ob)"
    using ins by (auto simp: insert_object_def Let_def split: if_splits)
  have keys: "db_keys d' = insert ?h (db_keys d)" using ins by (rule db_keys_insert)
  have "sum_file_size d' = db_total d'"
    using d sum_upsert_row [OF dist, of ?r]
    by (auto simp: d' sum_file_size_def db_inv_def file_size_def find_row_def row_of_object_def
        split: option.splits)
  moreover have "distinct (db_refs d')"
    using d refs by (auto simp: d' db_inv_def distinct_map inj_on_def)
  moreover have "fst ` set (db_refs d') \<subseteq> db_keys d'"
    unfolding keys using d by (auto simp: d' db_inv_def)
  moreover have "pr_hash ` set (db_pins d') \<subseteq> db_keys d'"
    unfolding keys using d by (auto simp: d' db_inv_def)
  moreover have "\<forall>r \<in> set (db_objects d'). 0 \<le> row_file_size r"
    using d sz by (auto simp: d' db_inv_def set_upsert_row [OF dist] row_of_object_def)
  moreover have "distinct (map row_hash (db_objects d'))" "distinct (map pr_name (db_pins d'))"
    using d by (auto simp: d' db_inv_def distinct_upsert_row)
  ultimately show ?thesis by (simp add: db_inv_def)
qed

lemma db_inv_reconcile [inv_rules]: "db_inv d \<Longrightarrow> db_inv (snd (reconcile_total_bytes d))"
  by (simp add: db_inv_def reconcile_total_bytes_def Let_def sum_file_size_def db_keys_def)

lemma db_keys_delete_row [simp]: "db_keys (delete_row d h) = db_keys d - {h}"
  by (auto simp: delete_row_def db_keys_def)

lemma db_keys_debit [simp]: "db_keys (debit d b) = db_keys d"
  by (simp add: debit_def db_keys_def)

lemma db_keys_remove_row [simp]: "db_keys (remove_row d h s) = db_keys d - {h}"
  by (simp add: remove_row_def)

lemma sum_file_size_delete_row:
  assumes "db_inv d" "r \<in> set (db_objects d)"
  shows "sum_file_size (delete_row d (row_hash r)) = sum_file_size d - row_file_size r"
proof -
  have "filter (\<lambda>x. row_hash x = row_hash r) (db_objects d) = [r]"
    using assms by (intro filter_key_single) (auto simp: db_inv_def)
  then show ?thesis
    using sum_list_filter_partition [of row_file_size "db_objects d" "\<lambda>x. row_hash x = row_hash r"]
    by (simp add: sum_file_size_def delete_row_def)
qed

lemma sum_file_size_nonneg: "db_inv d \<Longrightarrow> 0 \<le> sum_file_size d"
  by (auto simp: db_inv_def sum_file_size_def intro!: sum_list_nonneg)

lemma delete_row_sizes:
  "\<forall>r \<in> set (db_objects d). 0 \<le> row_file_size r \<Longrightarrow>
   \<forall>r \<in> set (db_objects (delete_row d h)). 0 \<le> row_file_size r"
  by (simp add: delete_row_def)

text \<open>Debiting exactly the deleted row's size keeps the counter exact; the clamp at zero never bites.\<close>

lemma db_inv_remove_row:
  assumes d: "db_inv d" and r: "r \<in> set (db_objects d)"
  shows "db_inv (remove_row d (row_hash r) (row_file_size r))"
proof -
  let ?d' = "remove_row d (row_hash r) (row_file_size r)"
  have sum: "sum_file_size ?d' = sum_file_size d - row_file_size r"
    using sum_file_size_delete_row [OF d r]
    by (simp add: remove_row_def debit_def sum_file_size_def)
  have "0 \<le> sum_file_size ?d'"
    using d by (auto simp: db_inv_def sum_file_size_def remove_row_def debit_def delete_row_def
        intro!: sum_list_nonneg)
  then have "db_total ?d' = sum_file_size ?d'"
    using sum d by (simp add: db_inv_def remove_row_def debit_def delete_row_def)
  then show ?thesis
    using d by (auto simp: db_inv_def remove_row_def debit_def delete_row_def db_keys_def
        distinct_map_filterI)
qed

lemma delete_object_cases:
  assumes "db_inv d"
  obtains "h \<notin> db_keys d" "delete_object d h = (None, d)"
  | r where "r \<in> set (db_objects d)" "row_hash r = h"
      "delete_object d h = (Some (row_file_size r), remove_row d h (row_file_size r))"
proof (cases "find_row d h")
  case None
  then show ?thesis using that(1) by (simp add: delete_object_def file_size_def find_row_None [symmetric])
next
  case (Some r)
  then show ?thesis using that(2) find_row_SomeD by (auto simp: delete_object_def file_size_def)
qed

lemma db_inv_delete_object [inv_rules]: "db_inv d \<Longrightarrow> db_inv (snd (delete_object d h))"
  by (rule delete_object_cases [of d h]) (auto dest: db_inv_remove_row)

lemma db_keys_delete_object [simp]: "db_keys (snd (delete_object d h)) = db_keys d - {h}"
  by (auto simp: delete_object_def split: option.splits)

lemma evict_object_Some:
  assumes "evict_object d h now = (Some s, d')"
  obtains r where "r \<in> set (db_objects d)" "row_hash r = h" "evictable_where d now r"
    "s = row_file_size r" "d' = remove_row d h s"
  using assms that by (auto simp: evict_object_def dest: find_SomeD split: option.splits)

lemma evict_object_None:
  "evict_object d h now = (None, d') \<longleftrightarrow>
     d' = d \<and> (\<forall>r \<in> set (db_objects d). row_hash r = h \<longrightarrow> \<not> evictable_where d now r)"
  by (auto simp: evict_object_def find_None_iff find_Some_iff split: option.splits)

lemma db_inv_evict_object [inv_rules]: "db_inv d \<Longrightarrow> db_inv (snd (evict_object d h now))"
proof (cases "evict_object d h now")
  case (Pair x d')
  assume d: "db_inv d"
  show ?thesis
  proof (cases x)
    case None
    then show ?thesis using Pair d by (metis evict_object_None snd_conv)
  next
    case (Some s)
    then show ?thesis using Pair d by (auto elim!: evict_object_Some dest: db_inv_remove_row)
  qed
qed

lemma db_inv_pin [inv_rules]: "db_inv d \<Longrightarrow> pin_object d name h e now = Inr d' \<Longrightarrow> db_inv d'"
  by (clarsimp simp: pin_object_def db_inv_def db_keys_def sum_file_size_def distinct_map_filterI
      split: if_splits) blast

lemma db_inv_unpin [inv_rules]: "db_inv d \<Longrightarrow> db_inv (snd (unpin d name))"
  by (auto simp: unpin_def db_inv_def db_keys_def sum_file_size_def distinct_map_filterI
      image_subset_iff)

text \<open>An update that touches neither key nor size.\<close>

lemma update_row_frame:
  assumes "\<And>r. row_hash (f r) = row_hash r" "\<And>r. row_file_size (f r) = row_file_size r"
  shows "map row_hash (db_objects (update_row f h d)) = map row_hash (db_objects d)"
    and "map row_file_size (db_objects (update_row f h d)) = map row_file_size (db_objects d)"
    and "db_refs (update_row f h d) = db_refs d" "db_pins (update_row f h d) = db_pins d"
    and "db_total (update_row f h d) = db_total d"
  using assms by (auto simp: update_row_def)

lemma db_keys_map: "db_keys d = set (map row_hash (db_objects d))"
  by (simp add: db_keys_def)

lemma sizes_map:
  "(\<forall>r \<in> set (db_objects d). 0 \<le> row_file_size r) \<longleftrightarrow> (\<forall>s \<in> set (map row_file_size (db_objects d)). 0 \<le> s)"
  by simp

lemma db_inv_update_row:
  assumes "\<And>r. row_hash (f r) = row_hash r" "\<And>r. row_file_size (f r) = row_file_size r"
  shows "db_inv (update_row f h d) = db_inv d"
  unfolding db_inv_def db_keys_map sizes_map sum_file_size_def by (simp only: update_row_frame [OF assms])

lemma db_keys_update_row:
  assumes "\<And>r. row_hash (f r) = row_hash r"
  shows "db_keys (update_row f h d) = db_keys d"
proof -
  have "map row_hash (db_objects (update_row f h d)) = map row_hash (db_objects d)"
    using assms by (simp add: update_row_def)
  then show ?thesis by (simp only: db_keys_map)
qed

lemma db_inv_update_sigs [inv_rules]: "db_inv d \<Longrightarrow> db_inv (update_sigs enc d h sigs)"
  by (simp add: update_sigs_def db_inv_update_row)

lemma db_inv_fold_update_row:
  assumes "\<And>r. row_hash (f r) = row_hash r" "\<And>r. row_file_size (f r) = row_file_size r"
  shows "db_inv (fold (update_row f) hs d) = db_inv d"
  by (induction hs arbitrary: d) (simp_all add: db_inv_update_row assms)

lemma db_keys_fold_update_row:
  assumes "\<And>r. row_hash (f r) = row_hash r"
  shows "db_keys (fold (update_row f) hs d) = db_keys d"
  by (induction hs arbitrary: d) (simp_all add: db_keys_update_row assms)

lemma bump_row_frame [frame_simps]:
  "row_hash (bump_row now s r) = row_hash r" "row_file_size (bump_row now s r) = row_file_size r"
  by (simp_all add: bump_row_def)

lemma db_inv_bump [inv_rules]: "db_inv d \<Longrightarrow> db_inv (bump_last_accessed d hs now s)"
  by (simp add: bump_last_accessed_def db_inv_fold_update_row frame_simps)

lemma db_inv_missing [inv_rules]: "db_inv d \<Longrightarrow> db_inv (snd (missing d hs now))"
  by (auto simp: missing_def db_inv_fold_update_row split: prod.splits)

lemma db_keys_missing [simp]: "db_keys (snd (missing d hs now)) = db_keys d"
  by (auto simp: missing_def db_keys_fold_update_row split: prod.splits)

section \<open>Interface: a store of rows with references\<close>

text \<open>
  What eviction, prune and the operator's delete rely on: removing a key removes exactly that
  key and its outgoing edges. The lemmas say when a removal, or a sequence of removals, keeps
  the closure of every survivor.
\<close>

locale row_store =
  fixes inv :: "'db \<Rightarrow> bool"
    and keys :: "'db \<Rightarrow> 'k set"
    and edges :: "'db \<Rightarrow> ('k \<times> 'k) set"
    and remove :: "'db \<Rightarrow> 'k \<Rightarrow> 'db"
  assumes keys_remove: "inv d \<Longrightarrow> keys (remove d k) = keys d - {k}"
    and edges_remove: "inv d \<Longrightarrow> edges (remove d k) = {e \<in> edges d. fst e \<noteq> k}"
    and inv_remove: "inv d \<Longrightarrow> inv (remove d k)"
    and edges_from_keys: "inv d \<Longrightarrow> (a, b) \<in> edges d \<Longrightarrow> a \<in> keys d"
begin

lemma fold_remove:
  "inv d \<Longrightarrow>
     inv (fold (\<lambda>k d. remove d k) ks d)
   \<and> keys (fold (\<lambda>k d. remove d k) ks d) = keys d - set ks
   \<and> edges (fold (\<lambda>k d. remove d k) ks d) = {e \<in> edges d. fst e \<notin> set ks}"
proof (induction ks arbitrary: d)
  case (Cons k ks)
  then show ?case using Cons.IH [of "remove d k"]
    by (auto simp: keys_remove edges_remove inv_remove)
qed simp

lemma remove_unreferenced_keeps_closure:
  assumes "inv d" "\<forall>a. (a, k) \<notin> edges d"
  shows "\<forall>(a, b) \<in> edges d. a \<in> keys (remove d k) \<longrightarrow> b \<in> keys d \<longrightarrow> b \<in> keys (remove d k)"
  using assms by (auto simp: keys_remove)

text \<open>Referrers before references: then every prefix of the removals keeps the closure.\<close>

lemma ordered_removal_keeps_closure:
  assumes d: "inv d"
    and order: "\<And>i a. i < length ks \<Longrightarrow> (a, ks ! i) \<in> edges d \<Longrightarrow> a \<in> set (take i ks)"
    and n: "n \<le> length ks"
  shows "\<forall>(a, b) \<in> edges d. a \<in> keys (fold (\<lambda>k d. remove d k) (take n ks) d) \<longrightarrow>
           b \<in> keys d \<longrightarrow> b \<in> keys (fold (\<lambda>k d. remove d k) (take n ks) d)"
proof clarify
  fix a b
  assume e: "(a, b) \<in> edges d" and a: "a \<in> keys (fold (\<lambda>k d. remove d k) (take n ks) d)"
    and b: "b \<in> keys d"
  have "b \<notin> set (take n ks)"
  proof
    assume "b \<in> set (take n ks)"
    then obtain i where "i < n" "b = ks ! i" using n by (auto simp: in_set_conv_nth)
    then have "a \<in> set (take i ks)" using order [of i a] e n by auto
    then have "a \<in> set (take n ks)" using \<open>i < n\<close> set_take_subset_set_take [of i n ks] by auto
    then show False using a fold_remove [OF d] by auto
  qed
  then show "b \<in> keys (fold (\<lambda>k d. remove d k) (take n ks) d)"
    using b fold_remove [OF d, of "take n ks"] by auto
qed

end

text \<open>The foreign key of \<^verbatim>\<open>object_refs\<close> alone.\<close>

definition fk_inv :: "database \<Rightarrow> bool" where
  "fk_inv d \<longleftrightarrow> fst ` set (db_refs d) \<subseteq> db_keys d"

lemma db_inv_fk: "db_inv d \<Longrightarrow> fk_inv d"
  by (simp add: db_inv_def fk_inv_def)

lemma ref_edges_delete_row: "ref_edges (delete_row d h) = {e \<in> ref_edges d. fst e \<noteq> h}"
  by (auto simp: ref_edges_def delete_row_def)

lemma ref_edges_debit [simp]: "ref_edges (debit d b) = ref_edges d"
  by (simp add: ref_edges_def debit_def)

lemma ref_edges_from_keys: "fk_inv d \<Longrightarrow> (a, b) \<in> ref_edges d \<Longrightarrow> a \<in> db_keys d"
  by (auto simp: fk_inv_def ref_edges_def)

interpretation raw_rows: row_store fk_inv db_keys ref_edges delete_row
proof unfold_locales
  fix d h assume "fk_inv d"
  then show "fk_inv (delete_row d h)" by (auto simp: fk_inv_def delete_row_def db_keys_def)
qed (auto simp: ref_edges_delete_row dest: ref_edges_from_keys)

lemma ref_edges_delete_object:
  "fk_inv d \<Longrightarrow> ref_edges (snd (delete_object d h)) = {e \<in> ref_edges d. fst e \<noteq> h}"
  by (auto simp: delete_object_def remove_row_def ref_edges_delete_row dest: ref_edges_from_keys
      split: option.splits)

interpretation obj_rows: row_store db_inv db_keys ref_edges "\<lambda>d h. snd (delete_object d h)"
proof unfold_locales
  fix d h assume "db_inv d"
  then show "ref_edges (snd (delete_object d h)) = {e \<in> ref_edges d. fst e \<noteq> h}"
    by (intro ref_edges_delete_object db_inv_fk)
qed (auto intro: db_inv_delete_object dest: db_inv_fk ref_edges_from_keys)

section \<open>Eviction\<close>

lemma evictable_where_iff:
  "evictable_where d now r \<longleftrightarrow>
     (\<forall>a. (a, row_hash r) \<notin> ref_edges d)
   \<and> (\<forall>p \<in> set (db_pins d). pr_hash p = row_hash r \<longrightarrow> \<not> pin_live p now)
   \<and> row_pushed_at r < now - PUSH_GRACE"
  by (fastforce simp: evictable_where_def ref_edges_def list_ex_iff)

lemma evict_object_eq_delete:
  assumes "db_inv d" "evict_object d h now = (Some s, d')"
  shows "delete_object d h = (Some s, d')"
  using assms by (auto elim!: evict_object_Some simp: delete_object_def file_size_Some)
    (metis file_size_Some option.simps(5))

lemma evictable_where_delete_row:
  "evictable_where d now r \<Longrightarrow> evictable_where (delete_row d h) now r"
  by (auto simp: evictable_where_def delete_row_def list_ex_iff)

lemma evictable_where_debit [simp]: "evictable_where (debit d b) now r = evictable_where d now r"
  by (simp add: evictable_where_def debit_def)

text \<open>Candidates stay candidates while others go: they are evictable together.\<close>

lemma evictable_where_evict_object:
  "evictable_where d now r \<Longrightarrow> evictable_where (snd (evict_object d h now)) now r"
  by (auto simp: evict_object_def remove_row_def evictable_where_delete_row split: option.splits)

lemma set_evictable:
  "x \<in> set (evictable d limit now) \<Longrightarrow>
     \<exists>r \<in> set (db_objects d). x = (row_hash r, row_file_size r) \<and> evictable_where d now r"
  unfolding evictable_def by (drule in_set_takeD) auto

lemma evictable_Nil:
  "0 < limit \<Longrightarrow> evictable d limit now = [] \<longleftrightarrow> (\<forall>r \<in> set (db_objects d). \<not> evictable_where d now r)"
  by (simp add: evictable_def filter_empty_conv)

section \<open>Negotiation\<close>

lemma missing_scan_sets:
  "fst (missing_scan d now hs) = filter (\<lambda>h. h \<notin> db_keys d) hs"
  "set (snd (missing_scan d now hs)) =
     {h \<in> set hs. \<exists>r. find_row d h = Some r \<and> row_pushed_at r < now - PUSHED_AT_DEBOUNCE}"
  by (induction hs) (auto simp: Let_def simp flip: find_row_None split: prod.splits option.splits)

lemma fold_update_row_objects:
  assumes "\<And>r. row_hash (f r) = row_hash r" "\<And>r. f (f r) = f r"
  shows "db_objects (fold (update_row f) hs d) =
           map (\<lambda>r. if row_hash r \<in> set hs then f r else r) (db_objects d)"
proof (induction hs arbitrary: d)
  case (Cons h hs)
  show ?case
    unfolding fold_Cons comp_apply Cons.IH
    by (auto simp: update_row_def assms)
qed simp

lemma missing_answer: "fst (missing d hs now) = filter (\<lambda>h. h \<notin> db_keys d) hs"
  using missing_scan_sets(1) [of d now hs] by (auto simp: missing_def split: prod.splits)

lemma missing_refreshes:
  assumes d: "db_inv d" and h: "h \<in> set hs" and r: "r \<in> set (db_objects (snd (missing d hs now)))"
    and rh: "row_hash r = h"
  shows "row_pushed_at r \<ge> now - PUSHED_AT_DEBOUNCE"
proof -
  obtain ms stale where scan: "missing_scan d now hs = (ms, stale)" by fastforce
  then have stale: "set stale =
      {h \<in> set hs. \<exists>r. find_row d h = Some r \<and> row_pushed_at r < now - PUSHED_AT_DEBOUNCE}"
    using missing_scan_sets(2) [of d now hs] by simp
  obtain r0 where r0: "r0 \<in> set (db_objects d)"
    and r_eq: "r = (if row_hash r0 \<in> set stale then r0\<lparr>row_pushed_at := now\<rparr> else r0)"
    using r scan by (auto simp: missing_def fold_update_row_objects split: if_splits)
  then have "row_hash r0 = h" using rh by (auto split: if_splits)
  moreover from this have "find_row d h = Some r0" using d r0 by (simp add: find_row_Some)
  ultimately show ?thesis
    using r_eq stale h by (auto simp: PUSHED_AT_DEBOUNCE_def)
qed

end
