(* ===== verification/Fixtures.thy ===== *)
theory Fixtures
  imports Database
begin

text \<open>
  \<^verbatim>\<open>crates/garret-server/src/testing.rs\<close>: the object fixture the repository's own tests use, and
  a concrete reversible codec standing in for \<^verbatim>\<open>serde_json\<close> on string lists. The witnesses of the
  development evaluate its definitions on these values.
\<close>

definition fixture_object :: "hash \<Rightarrow> object" where
  "fixture_object h =
     \<lparr>obj_store_path_hash = h, obj_store_path = ''/nix/store/'' @ h @ ''-thing'',
      obj_name = ''thing'', obj_nar_hash = ''sha256:x'', obj_nar_size = 10,
      obj_file_hash = ''sha256:y'', obj_file_size = 5, obj_deriver = None, obj_ca = None,
      obj_references = [], obj_sigs = [], obj_pushed_by = None\<rparr>"

definition referencing :: "string list \<Rightarrow> object \<Rightarrow> object" where
  "referencing refs ob = ob\<lparr>obj_references := refs\<rparr>"

definition sized :: "int \<Rightarrow> object \<Rightarrow> object" where
  "sized n ob = ob\<lparr>obj_nar_size := n, obj_file_size := n\<rparr>"

definition rep_hash :: "char \<Rightarrow> hash" where
  "rep_hash c = replicate 32 c"

fun demo_enc :: "string list \<Rightarrow> string" where
  "demo_enc [] = []"
| "demo_enc (s # ss) = concat (map (\<lambda>c. [CHR ''+'', c]) s) @ CHR '';'' # demo_enc ss"

fun demo_dec_aux :: "string \<Rightarrow> string \<Rightarrow> string list option" where
  "demo_dec_aux acc [] = (if acc = [] then Some [] else None)"
| "demo_dec_aux acc [x] = (if x = CHR '';'' then Some [rev acc] else None)"
| "demo_dec_aux acc (x # c # cs) =
     (if x = CHR '';'' then map_option (\<lambda>ss. rev acc # ss) (demo_dec_aux [] (c # cs))
      else demo_dec_aux (c # acc) cs)"

definition demo_dec :: "string \<Rightarrow> string list option" where
  "demo_dec s = demo_dec_aux [] s"

lemma demo_dec_aux_sep:
  "demo_dec_aux acc (CHR '';'' # cs) = map_option (\<lambda>ss. rev acc # ss) (demo_dec_aux [] cs)"
  by (cases cs) auto

lemma demo_dec_aux_str:
  "demo_dec_aux acc (concat (map (\<lambda>c. [CHR ''+'', c]) s) @ CHR '';'' # cs) =
     map_option (\<lambda>ss. (rev acc @ s) # ss) (demo_dec_aux [] cs)"
  by (induction s arbitrary: acc) (simp_all add: demo_dec_aux_sep)

lemma demo_dec_enc: "demo_dec (demo_enc ss) = Some ss"
proof -
  have "demo_dec_aux [] (demo_enc ss) = Some ss"
    by (induction ss) (simp_all add: demo_dec_aux_str)
  then show ?thesis by (simp add: demo_dec_def)
qed

lemma fixture_fields [simp]:
  "obj_store_path_hash (fixture_object h) = h" "obj_file_size (fixture_object h) = 5"
  "obj_references (fixture_object h) = []" "obj_sigs (fixture_object h) = []"
  by (simp_all add: fixture_object_def)

text \<open>A database holding just the fixture object for a hash.\<close>

definition one_object_db :: "hash \<Rightarrow> int \<Rightarrow> database" where
  "one_object_db h at =
     \<lparr>db_objects = [row_of_object demo_enc (fixture_object h) at], db_refs = [], db_pins = [],
      db_total = 5\<rparr>"

lemma insert_fixture: "insert_object demo_enc empty_db (fixture_object h) at = Inr (one_object_db h at)"
  by (simp add: insert_object_def Let_def empty_db_def one_object_db_def file_size_def find_row_def)

lemma db_inv_one_object: "db_inv (one_object_db h at)"
  using db_inv_insert [OF db_inv_empty insert_fixture] by simp

end
