(* ===== verification/Prune.thy ===== *)
theory Prune
  imports Kahn Database Fixtures
begin

text \<open>
  \<^verbatim>\<open>crates/garret-server/src/db.rs\<close>, prune: the mark (\<^verbatim>\<open>prunable\<close>), the delete order
  (\<^verbatim>\<open>referrers_first\<close>) and the batched delete (\<^verbatim>\<open>delete_pruned\<close>).

  \<^verbatim>\<open>WITH RECURSIVE keep .. UNION ..\<close> is SQLite's documented queue: every row taken off the queue
  contributes its references, and a hash already produced is not queued again. \<open>delete_pruned\<close>
  returns every database it commits, in order, since other connections see each of them.
\<close>

section \<open>The mark\<close>

definition refs_from :: "ref_row list \<Rightarrow> hash \<Rightarrow> hash list" where
  "refs_from refs h = map reference_hash (filter (\<lambda>e. fst e = h) refs)"

function keep_loop :: "ref_row list \<Rightarrow> hash list \<Rightarrow> hash list \<Rightarrow> hash list" where
  "keep_loop refs seen [] = seen"
| "keep_loop refs seen (h # queue) =
     (let new = remdups (filter (\<lambda>x. x \<notin> set seen) (refs_from refs h))
      in keep_loop refs (seen @ new) (queue @ new))"
  by pat_completeness auto

lemma keep_loop_progress:
  assumes "new = remdups (filter (\<lambda>x. x \<notin> set seen) (refs_from refs h))"
  shows "length new + card (reference_hash ` set refs - set (seen @ new)) =
    card (reference_hash ` set refs - set seen)"
proof -
  let ?T = "reference_hash ` set refs - set seen"
  have sub: "set new \<subseteq> ?T" using assms by (auto simp: refs_from_def)
  have "length new = card (set new)" using assms by (simp add: length_remdups_card_conv)
  moreover have "?T - set new = reference_hash ` set refs - set (seen @ new)" by auto
  moreover have "card (?T - set new) = card ?T - card (set new)"
    using sub by (intro card_Diff_subset) auto
  moreover have "card (set new) \<le> card ?T" using sub by (intro card_mono) auto
  ultimately show ?thesis by simp
qed

termination keep_loop
proof (relation "measure (\<lambda>(refs, seen, queue).
    length queue + card (reference_hash ` set refs - set seen))")
  fix refs :: "ref_row list" and seen h queue new
  assume "new = remdups (filter (\<lambda>x. x \<notin> set seen) (refs_from refs h))"
  from keep_loop_progress [OF this]
  show "((refs, seen @ new, queue @ new), (refs, seen, h # queue)) \<in>
      measure (\<lambda>(refs, seen, queue). length queue + card (reference_hash ` set refs - set seen))"
    by simp
qed simp

definition keep_roots :: "database \<Rightarrow> int \<Rightarrow> int \<Rightarrow> hash list" where
  "keep_roots d before now =
     remdups (map row_hash (filter (\<lambda>r. row_pushed_at r \<ge> before) (db_objects d)) @
              map pr_hash (filter (\<lambda>p. pin_live p now) (db_pins d)))"

definition keep :: "database \<Rightarrow> int \<Rightarrow> int \<Rightarrow> hash list" where
  "keep d before now =
     (let roots = keep_roots d before now in keep_loop (db_refs d) roots roots)"

definition prunable :: "database \<Rightarrow> int \<Rightarrow> int \<Rightarrow> db_error + object_brief list" where
  "prunable d before now =
     (if \<not> before \<le> now - PUSH_GRACE then Inl CutoffTooRecent
      else Inr (map brief_from_row
             (sort_key (\<lambda>r. (row_name r, row_hash r))
               (filter (\<lambda>r. row_hash r \<notin> set (keep d before now)) (db_objects d)))))"

section \<open>The order\<close>

text \<open>The edges inside the doomed set, in the order the nested loops push them.\<close>

definition doomed_edges :: "database \<Rightarrow> object_brief list \<Rightarrow> (nat \<times> nat) list" where
  "doomed_edges d doomed =
     concat (map (\<lambda>i. concat (map (\<lambda>h.
         (case key_index (map brief_hash doomed) h of
            None \<Rightarrow> []
          | Some j \<Rightarrow> if j \<noteq> i then [(i, j)] else []))
       (refs_from (db_refs d) (brief_hash (doomed ! i)))))
     [0..<length doomed])"

function kahn_stack :: "nat list list \<Rightarrow> nat list \<Rightarrow> nat list \<Rightarrow> nat list \<Rightarrow> nat list option" where
  "kahn_stack succ cnt ready order =
     (if ready = [] then Some order
      else (let i = last ready in
        case release cnt (butlast ready) (succ ! i) of
          None \<Rightarrow> None
        | Some (cnt', ready') \<Rightarrow> kahn_stack succ cnt' ready' (order @ [i])))"
  by pat_completeness auto
termination
proof (relation "measure (\<lambda>(succ, cnt, ready, order). 2 * sum_list cnt + length ready)")
  fix succ :: "nat list list" and cnt ready order i x cnt' ready'
  assume "ready \<noteq> []" "release cnt (butlast ready) (succ ! i) = Some x" "(cnt', ready') = x"
  then show "((succ, cnt', ready', order @ [i]), (succ, cnt, ready, order)) \<in>
      measure (\<lambda>(succ, cnt, ready, order). 2 * sum_list cnt + length ready)"
    using release_measure [of cnt "butlast ready" "succ ! i" cnt' ready'] by (cases ready rule: rev_cases) auto
qed simp

declare kahn_stack.simps [simp del]

definition referrers_first :: "database \<Rightarrow> object_brief list \<Rightarrow> db_error + nat list" where
  "referrers_first d doomed =
     (let (references, referrers) = build_edges (length doomed) (doomed_edges d doomed);
          ready = filter (\<lambda>i. referrers ! i = 0) [0..<length doomed]
      in case kahn_stack references referrers ready [] of
           None \<Rightarrow> Inl Panic
         | Some order \<Rightarrow> if length order = length doomed then Inr order else Inl ReferenceCycle)"

section \<open>The batched delete\<close>

definition PRUNE_BATCH :: nat where "PRUNE_BATCH = 500"

definition prune_batch :: "object_brief list \<Rightarrow> database \<Rightarrow> nat list \<Rightarrow> database" where
  "prune_batch doomed d batch =
     debit (fold (\<lambda>i d. delete_row d (brief_hash (doomed ! i))) batch d)
       (sum_list (map (\<lambda>i. brief_file_size (doomed ! i)) batch))"

fun prune_commits :: "object_brief list \<Rightarrow> database \<Rightarrow> nat list list \<Rightarrow> database list" where
  "prune_commits doomed d [] = []"
| "prune_commits doomed d (batch # rest) =
     (let d' = prune_batch doomed d batch in d' # prune_commits doomed d' rest)"

definition delete_pruned :: "database \<Rightarrow> object_brief list \<Rightarrow> db_error + database list" where
  "delete_pruned d doomed =
     (case referrers_first d doomed of
        Inl e \<Rightarrow> Inl e
      | Inr order \<Rightarrow> Inr (prune_commits doomed d (chunks PRUNE_BATCH order)))"

section \<open>The mark is reachability\<close>

definition ref_graph :: "ref_row list \<Rightarrow> (hash \<times> hash) set" where
  "ref_graph refs = (\<lambda>e. (fst e, reference_hash e)) ` set refs"

lemma set_refs_from: "set (refs_from refs h) = ref_graph refs `` {h}"
  by (auto simp: refs_from_def ref_graph_def image_iff)

lemma keep_loop_reachable:
  assumes "set queue \<subseteq> set seen" "\<forall>h \<in> set seen - set queue. ref_graph refs `` {h} \<subseteq> set seen"
  shows "set (keep_loop refs seen queue) = (ref_graph refs)\<^sup>* `` set seen"
  using assms
proof (induction refs seen queue rule: keep_loop.induct)
  case (1 refs seen)
  then have "ref_graph refs `` set seen \<subseteq> set seen" by auto
  then show ?case by (simp add: Image_closed_trancl)
next
  case (2 refs seen h queue)
  define new where "new = remdups (filter (\<lambda>x. x \<notin> set seen) (refs_from refs h))"
  have new: "set new = ref_graph refs `` {h} - set seen" by (auto simp: new_def set_refs_from)
  have "set (keep_loop refs (seen @ new) (queue @ new)) = (ref_graph refs)\<^sup>* `` set (seen @ new)"
    using 2(2,3) new by (intro 2(1) [OF new_def]) auto
  also have "\<dots> = (ref_graph refs)\<^sup>* `` set seen"
  proof -
    have "set new \<subseteq> (ref_graph refs)\<^sup>* `` set seen" using new 2(2) by auto
    then have "(ref_graph refs)\<^sup>* `` set new \<subseteq> (ref_graph refs)\<^sup>* `` set seen"
      by (auto intro: rtrancl_trans)
    then show ?thesis by (auto simp: Image_Un)
  qed
  finally show ?case by (simp add: new_def Let_def)
qed

lemma set_keep: "set (keep d before now) = (ref_graph (db_refs d))\<^sup>* `` set (keep_roots d before now)"
  unfolding keep_def Let_def by (rule keep_loop_reachable) auto

lemma keep_closed: "h \<in> set (keep d before now) \<Longrightarrow> (h, k) \<in> ref_graph (db_refs d) \<Longrightarrow> k \<in> set (keep d before now)"
  unfolding set_keep by (blast intro: rtrancl.rtrancl_into_rtrancl)

lemma ref_edges_graph: "ref_edges d \<subseteq> ref_graph (db_refs d)"
  by (force simp: ref_edges_def ref_graph_def)

lemma prunable_briefs:
  assumes "prunable d before now = Inr doomed"
  shows "mset doomed = mset (map brief_from_row
      (filter (\<lambda>r. row_hash r \<notin> set (keep d before now)) (db_objects d)))"
  using assms by (auto simp: prunable_def mset_map split: if_splits)

lemma brief_hash_from_row [simp]: "brief_hash (brief_from_row r) = row_hash r"
  "brief_file_size (brief_from_row r) = row_file_size r"
  by (simp_all add: brief_from_row_def)

lemma prunable_hashes:
  assumes "prunable d before now = Inr doomed"
  shows "brief_hash ` set doomed = db_keys d - set (keep d before now)"
proof -
  have "set doomed = set (map brief_from_row
      (filter (\<lambda>r. row_hash r \<notin> set (keep d before now)) (db_objects d)))"
    using prunable_briefs [OF assms] by (rule mset_eq_setD)
  then show ?thesis by (auto simp: db_keys_def image_iff)
qed

lemma prunable_distinct:
  assumes "db_inv d" "prunable d before now = Inr doomed"
  shows "distinct (map brief_hash doomed)"
proof -
  let ?rows = "filter (\<lambda>r. row_hash r \<notin> set (keep d before now)) (db_objects d)"
  have "mset (map brief_hash doomed) = mset (map row_hash ?rows)"
    using prunable_briefs [OF assms(2)] by (simp add: mset_map image_mset.compositionality comp_def)
  then show ?thesis
    using assms(1) by (metis db_inv_def distinct_map_filterI mset_eq_imp_distinct_iff)
qed

section \<open>The order puts referrers first\<close>

lemma doomed_edges:
  assumes "distinct (map brief_hash doomed)"
  shows "set (doomed_edges d doomed) = {(i, j). i < length doomed \<and> j < length doomed
           \<and> (brief_hash (doomed ! i), brief_hash (doomed ! j)) \<in> ref_edges d}"
proof -
  have in_refs: "h \<in> set (refs_from (db_refs d) a) \<and> h \<noteq> a \<longleftrightarrow> (a, h) \<in> ref_edges d" for a h
    by (fastforce simp: refs_from_def ref_edges_def)
  have neq: "j \<noteq> i \<longleftrightarrow> brief_hash (doomed ! j) \<noteq> brief_hash (doomed ! i)"
    if "i < length doomed" "j < length doomed" for i j
    using assms that by (auto simp: distinct_conv_nth)
  have "(i, j) \<in> set (doomed_edges d doomed) \<longleftrightarrow> i < length doomed \<and> j < length doomed \<and> j \<noteq> i
      \<and> brief_hash (doomed ! j) \<in> set (refs_from (db_refs d) (brief_hash (doomed ! i)))" for i j
    by (auto simp: doomed_edges_def key_index_Some [OF assms]
        eq_commute [of "Some _" "key_index _ _"] split: option.splits if_splits)
  then show ?thesis using neq in_refs by blast
qed

lemma kahn_stack_inv:
  assumes "kahn_inv succ cnt ready order"
  shows "\<exists>order' cnt'. kahn_stack succ cnt ready order = Some order' \<and> kahn_inv succ cnt' [] order'"
  using assms
proof (induction succ cnt ready order rule: kahn_stack.induct)
  case (1 succ cnt ready order)
  show ?case
  proof (cases ready rule: rev_cases)
    case Nil
    then show ?thesis using 1(2) by (auto simp: kahn_stack.simps [of _ _ "[]"])
  next
    case (snoc rest i)
    have dist: "distinct ready" using 1(2) by (simp add: kahn_inv_def)
    then have "distinct rest" "set rest = set ready - {i}" "i \<in> set ready" using snoc by auto
    then obtain cnt' ready' where step: "release cnt rest (succ ! i) = Some (cnt', ready')"
      "kahn_inv succ cnt' ready' (order @ [i])"
      using kahn_step [OF 1(2)] by blast
    have "ready \<noteq> []" "last ready = i" "butlast ready = rest" using snoc by auto
    then show ?thesis using 1(1) [of i "(cnt', ready')" cnt' ready'] step
      by (simp add: kahn_stack.simps [of succ cnt ready])
  qed
qed

text \<open>What the delete relies on: a permutation of the doomed indexes, referrers first.\<close>

definition delete_order :: "database \<Rightarrow> object_brief list \<Rightarrow> nat list \<Rightarrow> bool" where
  "delete_order d doomed order \<longleftrightarrow>
     distinct order \<and> set order = {..<length doomed}
   \<and> (\<forall>k < length order. \<forall>i < length doomed.
        (brief_hash (doomed ! i), brief_hash (doomed ! (order ! k))) \<in> ref_edges d \<longrightarrow> i \<in> set (take k order))"

lemma referrers_first_cases:
  assumes dist: "distinct (map brief_hash doomed)"
  shows "(\<exists>order. referrers_first d doomed = Inr order \<and> delete_order d doomed order)
       \<or> (referrers_first d doomed = Inl ReferenceCycle \<and> \<not> acyclic (ref_edges d))"
proof -
  let ?n = "length doomed"
  let ?es = "doomed_edges d doomed"
  note edges = doomed_edges [OF dist, of d]
  obtain succ cnt where be: "build_edges ?n ?es = (succ, cnt)" by fastforce
  have rng: "\<forall>(a, b) \<in> set ?es. a < ?n \<and> b < ?n" using edges by auto
  have inv: "kahn_inv succ cnt (filter (\<lambda>i. cnt ! i = 0) [0..<?n]) []" and len: "length succ = ?n"
    using kahn_init [OF rng be] by auto
  have "index_edges succ = set ?es"
    using build_edges(3) [OF rng] rng by (force simp: index_edges_def be len)
  then have ie: "index_edges succ = {(i, j). i < ?n \<and> j < ?n
      \<and> (brief_hash (doomed ! i), brief_hash (doomed ! j)) \<in> ref_edges d}" using edges by simp
  obtain order cnt' where run: "kahn_stack succ cnt (filter (\<lambda>i. cnt ! i = 0) [0..<?n]) [] = Some order"
    and fin: "kahn_inv succ cnt' [] order" using kahn_stack_inv [OF inv] by blast
  have rf: "referrers_first d doomed = (if length order = ?n then Inr order else Inl ReferenceCycle)"
    using run by (simp add: referrers_first_def be)
  note ord = kahn_end_order [OF fin]
  have sub: "set order \<subseteq> {..<?n}" using ord(2) len by auto
  have full: "length order = ?n \<longleftrightarrow> set order = {..<?n}"
    using ord(1) sub distinct_card [of order] card_subset_eq [of "{..<?n}" "set order"] by auto
  show ?thesis
  proof (cases "length order = ?n")
    case True
    then have "set order = {..<?n}" using full by simp
    moreover have "order ! k < ?n" if "k < length order" for k
      using that sub nth_mem by blast
    ultimately have "delete_order d doomed order"
      using ord(1,3) unfolding delete_order_def ie by auto
    then show ?thesis using True rf by auto
  next
    case False
    then have "\<not> acyclic (index_edges succ)" using kahn_end_complete [OF fin] full len by auto
    then have "\<not> acyclic (ref_edges d)"
      using acyclic_pullback [of "ref_edges d" "index_edges succ" "\<lambda>i. brief_hash (doomed ! i)"]
      by (auto simp: ie)
    then show ?thesis using False rf by simp
  qed
qed

section \<open>Every commit of the delete\<close>

lemma fold_delete_row:
  "fold (\<lambda>h d. delete_row d h) hs d =
     d\<lparr>db_objects := filter (\<lambda>r. row_hash r \<notin> set hs) (db_objects d),
       db_refs := filter (\<lambda>r. fst r \<notin> set hs) (db_refs d),
       db_pins := filter (\<lambda>p. pr_hash p \<notin> set hs) (db_pins d)\<rparr>"
proof (induction hs arbitrary: d)
  case (Cons h hs)
  then show ?case by (simp add: delete_row_def conj_commute)
qed simp

text \<open>The sizes to debit are those of rows still present.\<close>

definition sizes_match :: "database \<Rightarrow> (hash \<Rightarrow> int) \<Rightarrow> hash list \<Rightarrow> bool" where
  "sizes_match d sz hs \<longleftrightarrow> (\<forall>h \<in> set hs. \<exists>r \<in> set (db_objects d). row_hash r = h \<and> row_file_size r = sz h)"

lemma db_inv_delete_rows:
  assumes d: "db_inv d" and hs: "distinct hs" and sz: "sizes_match d sz hs"
  shows "db_inv (debit (fold (\<lambda>h d. delete_row d h) hs d) (sum_list (map sz hs)))"
proof -
  let ?in = "filter (\<lambda>r. row_hash r \<in> set hs) (db_objects d)"
  let ?d' = "fold (\<lambda>h d. delete_row d h) hs d"
  have dist: "distinct (map row_hash ?in)" using d by (simp add: db_inv_def distinct_map_filterI)
  have "row_hash ` set ?in = set hs" using sz by (force simp: sizes_match_def)
  then have perm: "mset (map row_hash ?in) = mset hs" using dist hs
    by (metis set_map set_eq_iff_mset_eq_distinct)
  have "row_file_size r = sz (row_hash r)" if r: "r \<in> set ?in" for r
  proof -
    from r sz obtain r' where r': "r' \<in> set (db_objects d)" "row_hash r' = row_hash r"
      "row_file_size r' = sz (row_hash r)" by (auto simp: sizes_match_def)
    moreover have "distinct (map row_hash (db_objects d))" using d by (simp add: db_inv_def)
    ultimately have "r' = r" using r by (auto dest: distinct_key_unique)
    then show ?thesis using r'(3) by simp
  qed
  then have "sum_list (map row_file_size ?in) = sum_list (map sz (map row_hash ?in))"
    unfolding map_map by (intro arg_cong [where f = sum_list] map_cong) simp_all
  also have "\<dots> = sum_list (map sz hs)" 
    using perm by (simp only: mset_map flip: sum_mset_sum_list)
  finally have sum: "sum_file_size ?d' = sum_file_size d - sum_list (map sz hs)"
    using sum_list_filter_partition [of row_file_size "db_objects d" "\<lambda>r. row_hash r \<in> set hs"]
    by (simp add: sum_file_size_def fold_delete_row)
  have "0 \<le> sum_file_size ?d'"
    using d by (auto simp: db_inv_def sum_file_size_def fold_delete_row intro!: sum_list_nonneg)
  then show ?thesis
    using d sum by (auto simp: db_inv_def debit_def fold_delete_row db_keys_def sum_file_size_def
        distinct_map_filterI)
qed

definition hashes_at :: "object_brief list \<Rightarrow> nat list \<Rightarrow> hash list" where
  "hashes_at doomed is = map (\<lambda>i. brief_hash (doomed ! i)) is"

lemma prune_batch_rows:
  assumes "db_inv d" "distinct (hashes_at doomed batch)" "sizes_match d sz (hashes_at doomed batch)"
    and "\<forall>i \<in> set batch. brief_file_size (doomed ! i) = sz (brief_hash (doomed ! i))"
  shows "db_inv (prune_batch doomed d batch)"
    and "db_keys (prune_batch doomed d batch) = db_keys d - set (hashes_at doomed batch)"
    and "sizes_match d sz hs \<Longrightarrow> set hs \<inter> set (hashes_at doomed batch) = {} \<Longrightarrow>
         sizes_match (prune_batch doomed d batch) sz hs"
proof -
  have b: "prune_batch doomed d batch =
      debit (fold (\<lambda>h d. delete_row d h) (hashes_at doomed batch) d) (sum_list (map sz (hashes_at doomed batch)))"
  proof -
    have "map (\<lambda>i. brief_file_size (doomed ! i)) batch = map sz (hashes_at doomed batch)"
      using assms(4) by (simp add: hashes_at_def)
    then show ?thesis
      unfolding prune_batch_def by (simp only: hashes_at_def fold_map comp_def)
  qed
  show "db_inv (prune_batch doomed d batch)" unfolding b by (rule db_inv_delete_rows [OF assms(1-3)])
  show "db_keys (prune_batch doomed d batch) = db_keys d - set (hashes_at doomed batch)"
    unfolding b by (auto simp: fold_delete_row db_keys_def debit_def)
  show "sizes_match (prune_batch doomed d batch) sz hs"
    if "sizes_match d sz hs" "set hs \<inter> set (hashes_at doomed batch) = {}"
    using that unfolding b by (fastforce simp: sizes_match_def fold_delete_row debit_def)
qed

lemma prune_commits_prefix:
  assumes "db_inv d" "distinct (hashes_at doomed (concat bs))"
    "sizes_match d sz (hashes_at doomed (concat bs))"
    and "\<forall>i \<in> set (concat bs). brief_file_size (doomed ! i) = sz (brief_hash (doomed ! i))"
  shows "(\<forall>c \<in> set (prune_commits doomed d bs). db_inv c \<and> (\<exists>m \<le> length (concat bs).
            db_keys c = db_keys d - set (take m (hashes_at doomed (concat bs)))))
       \<and> db_keys (last (d # prune_commits doomed d bs)) = db_keys d - set (hashes_at doomed (concat bs))"
  using assms
proof (induction bs arbitrary: d)
  case (Cons b bs)
  let ?d' = "prune_batch doomed d b"
  let ?hb = "hashes_at doomed b"
  let ?hr = "hashes_at doomed (concat bs)"
  have app: "hashes_at doomed (concat (b # bs)) = ?hb @ ?hr" by (simp add: hashes_at_def)
  have pre: "distinct ?hb" "distinct ?hr" "set ?hr \<inter> set ?hb = {}"
    "sizes_match d sz ?hb" "sizes_match d sz ?hr"
    using Cons.prems(2,3) unfolding app by (auto simp: sizes_match_def)
  have sz: "\<forall>i \<in> set b. brief_file_size (doomed ! i) = sz (brief_hash (doomed ! i))"
    "\<forall>i \<in> set (concat bs). brief_file_size (doomed ! i) = sz (brief_hash (doomed ! i))"
    using Cons.prems(4) by auto
  note batch = prune_batch_rows [OF Cons.prems(1) pre(1,4) sz(1)]
  note ih = Cons.IH [OF batch(1) pre(2) batch(3) [OF pre(5,3)] sz(2)]
  have len: "length ?hb = length b" by (simp add: hashes_at_def)
  have first: "\<exists>m \<le> length (concat (b # bs)). db_keys ?d' = db_keys d - set (take m (?hb @ ?hr))"
    using batch(2) len by (intro exI [of _ "length b"]) simp
  have later: "\<exists>m \<le> length (concat (b # bs)). db_keys c = db_keys d - set (take m (?hb @ ?hr))"
    if c: "c \<in> set (prune_commits doomed ?d' bs)" for c
  proof -
    obtain m where "m \<le> length (concat bs)" "db_keys c = db_keys ?d' - set (take m ?hr)"
      using ih [THEN conjunct1, THEN bspec, OF c] by blast
    then show ?thesis using batch(2) len by (intro exI [of _ "length b + m"]) (simp add: Diff_eq Int_assoc)
  qed
  have "db_keys (last (d # prune_commits doomed d (b # bs))) = db_keys d - set (?hb @ ?hr)"
    using ih batch(2) by (auto simp: Let_def)
  then show ?case using first later batch(1) ih unfolding app by (simp add: Let_def)
qed (simp add: hashes_at_def)

text \<open>A survivor never refers to a doomed object, and the order takes care of the doomed ones.\<close>

lemma doomed_referrer_earlier:
  assumes d: "db_inv d" and p: "prunable d before now = Inr doomed"
    and order: "delete_order d doomed order"
    and k: "k < length order" and e: "(a, hashes_at doomed order ! k) \<in> ref_edges d"
  shows "a \<in> set (take k (hashes_at doomed order))"
proof -
  have idx: "order ! k < length doomed" using order k unfolding delete_order_def by (metis lessThan_iff nth_mem)
  have hk: "hashes_at doomed order ! k = brief_hash (doomed ! (order ! k))" using k by (simp add: hashes_at_def)
  then have "hashes_at doomed order ! k \<notin> set (keep d before now)"
    using prunable_hashes [OF p] idx nth_mem by blast
  then have "a \<notin> set (keep d before now)" using keep_closed e ref_edges_graph by blast
  moreover have "a \<in> db_keys d" using e d by (auto intro: ref_edges_from_keys db_inv_fk)
  ultimately have "a \<in> brief_hash ` set doomed" using prunable_hashes [OF p] by simp
  then obtain i where i: "i < length doomed" "a = brief_hash (doomed ! i)"
    by (auto simp: in_set_conv_nth)
  then have "i \<in> set (take k order)" using order k e unfolding delete_order_def hk by simp
  then show ?thesis using i by (auto simp: hashes_at_def take_map)
qed

lemma prunable_sizes:
  assumes d: "db_inv d" and p: "prunable d before now = Inr doomed"
  shows "\<exists>sz. sizes_match d sz (map brief_hash doomed) \<and>
           (\<forall>b \<in> set doomed. brief_file_size b = sz (brief_hash b))"
proof (intro exI conjI)
  let ?sz = "\<lambda>h. case file_size d h of Some s \<Rightarrow> s | None \<Rightarrow> 0"
  have row: "\<exists>r \<in> set (db_objects d). b = brief_from_row r" if "b \<in> set doomed" for b
    using mset_eq_setD [OF prunable_briefs [OF p]] that by auto
  have sz: "file_size d (row_hash r) = Some (row_file_size r)" if "r \<in> set (db_objects d)" for r
    using d that by (auto simp: file_size_Some)
  show "\<forall>b \<in> set doomed. brief_file_size b = ?sz (brief_hash b)" using row sz by fastforce
  show "sizes_match d ?sz (map brief_hash doomed)"
    using row sz by (fastforce simp: sizes_match_def)
qed

lemma delete_pruned_commits:
  assumes d: "db_inv d" and p: "prunable d before now = Inr doomed"
    and run: "delete_pruned d doomed = Inr commits"
  shows "(\<forall>c \<in> set commits. db_inv c \<and> closure_kept d c)
       \<and> db_keys (last (d # commits)) = db_keys d \<inter> set (keep d before now)"
proof -
  obtain order where rf: "referrers_first d doomed = Inr order"
    and commits: "commits = prune_commits doomed d (chunks PRUNE_BATCH order)"
    using run by (auto simp: delete_pruned_def split: sum.splits)
  have order: "delete_order d doomed order"
    using referrers_first_cases [OF prunable_distinct [OF d p], of d] rf by auto
  have cc: "concat (chunks PRUNE_BATCH order) = order" by (simp add: PRUNE_BATCH_def)
  have set_h: "set (hashes_at doomed order) = brief_hash ` set doomed"
  proof -
    have "set doomed = (!) doomed ` {..<length doomed}" by (auto simp: in_set_conv_nth)
    then show ?thesis using order by (simp add: hashes_at_def delete_order_def image_image)
  qed
  have dist: "distinct (hashes_at doomed order)"
    using order nth_eq_iff_index_eq [OF prunable_distinct [OF d p]]
    by (auto simp: hashes_at_def delete_order_def distinct_map inj_on_def)
  obtain sz where sz: "sizes_match d sz (map brief_hash doomed)"
    "\<forall>b \<in> set doomed. brief_file_size b = sz (brief_hash b)" using prunable_sizes [OF d p] by blast
  have sm: "sizes_match d sz (hashes_at doomed order)" using sz(1) set_h by (simp add: sizes_match_def)
  have si: "\<forall>i \<in> set order. brief_file_size (doomed ! i) = sz (brief_hash (doomed ! i))"
    using order sz(2) by (auto simp: delete_order_def)
  note pc = prune_commits_prefix [where bs = "chunks PRUNE_BATCH order", unfolded cc, OF d dist sm si,
      folded commits]
  have "closure_kept d c" if c: "c \<in> set commits" for c
  proof -
    let ?ks = "hashes_at doomed order"
    obtain m where m: "m \<le> length order" "db_keys c = db_keys d - set (take m ?ks)"
      using pc [THEN conjunct1, THEN bspec, OF c] by blast
    have len: "length ?ks = length order" by (simp add: hashes_at_def)
    have "db_keys c = db_keys (fold (\<lambda>k d. delete_row d k) (take m ?ks) d)"
      using raw_rows.fold_remove [OF db_inv_fk [OF d]] m(2) by blast
    then show ?thesis
      using raw_rows.ordered_removal_keeps_closure [OF db_inv_fk [OF d], of ?ks m]
        doomed_referrer_earlier [OF d p order] m(1) len by (auto simp: closure_kept_def)
  qed
  moreover have "db_keys (last (d # commits)) = db_keys d \<inter> set (keep d before now)"
    using pc set_h prunable_hashes [OF p] by auto
  ultimately show ?thesis using pc [THEN conjunct1] by simp
qed

end
