(* ===== verification/Database_Laws.thy ===== *)
theory Database_Laws
  imports Prune
begin

text \<open>
  What the database operations promise their callers: a stored object reads back as it was
  written, eviction and prune never break a surviving closure, Negotiation protects what it
  reports present, and every database the writers can reach satisfies the invariant.
\<close>

lemma find_upsert_row:
  "find (\<lambda>x. row_hash x = h) (upsert_row r xs) =
     (if h = row_hash r then Some r else find (\<lambda>x. row_hash x = h) xs)"
  by (induction xs) auto

lemma refs_of_insert:
  assumes "insert_object enc d ob now = Inr d'"
  shows "refs_of d' h = (if h = obj_store_path_hash ob then obj_references ob else refs_of d h)"
proof -
  have "db_refs d' = filter (\<lambda>r. fst r \<noteq> obj_store_path_hash ob) (db_refs d) @
      map (\<lambda>b. (obj_store_path_hash ob, b)) (obj_references ob)"
    using assms by (auto simp: insert_object_def Let_def split: if_splits)
  then show ?thesis
    by (auto simp: refs_of_def comp_def filter_empty_conv intro: arg_cong [where f = "map snd"] filter_cong)
qed

text \<open>
  C25. Storing an object and reading it back gives every field as stored, the references
  sorted, and the time of the insert as its access time; every other object reads as before,
  and no pin is lost (a re-push is an upsert, not a delete and insert).
\<close>

theorem insert_then_get:
  assumes "insert_object enc d ob now = Inr d'" and "dec (enc (obj_sigs ob)) = Some (obj_sigs ob)"
  shows "get_object_and_last_accessed dec d' h =
           (if h = obj_store_path_hash ob
            then Inr (Some (ob\<lparr>obj_references := sort (obj_references ob)\<rparr>, now))
            else get_object_and_last_accessed dec d h)
       \<and> db_pins d' = db_pins d"
proof -
  have "find_row d' h =
      (if h = obj_store_path_hash ob then Some (row_of_object enc ob now) else find_row d h)"
    using assms(1) by (auto simp: insert_object_def Let_def find_row_def find_upsert_row split: if_splits)
  moreover have "db_pins d' = db_pins d"
    using assms(1) by (auto simp: insert_object_def Let_def split: if_splits)
  ultimately show ?thesis
    using assms(2) refs_of_insert [OF assms(1), of h]
    by (cases "h = obj_store_path_hash ob") (simp_all add: get_object_and_last_accessed_def row_of_object_def split: option.split)
qed

theorem insert_then_get_witness:
  "get_object_and_last_accessed demo_dec (one_object_db (rep_hash CHR ''a'') 100) (rep_hash CHR ''a'') =
     Inr (Some (fixture_object (rep_hash CHR ''a''), 100))"
  using insert_then_get [OF insert_fixture [of "rep_hash CHR ''a''" 100], of demo_dec "rep_hash CHR ''a''"]
  by (simp add: demo_dec_enc [of "[]", simplified] fixture_object_def)

lemma evict_object_effects:
  assumes d: "db_inv d" and ev: "evict_object d h now = (Some s, d')"
  shows "file_size d h = Some s" "\<forall>e \<in> set (db_refs d). reference_hash e = h \<longrightarrow> fst e = h"
    "\<forall>p \<in> set (db_pins d). pr_hash p = h \<longrightarrow> \<not> pin_live p now"
    "db_keys d' = db_keys d - {h}" "db_total d' = db_total d - s" "db_inv d'" "closure_kept d d'"
    "ref_edges d' = {e \<in> ref_edges d. fst e \<noteq> h}"
proof -
  obtain r where r: "r \<in> set (db_objects d)" "row_hash r = h" "evictable_where d now r"
    "s = row_file_size r" "d' = remove_row d h s" using ev by (rule evict_object_Some)
  have del: "snd (delete_object d h) = d'" using evict_object_eq_delete [OF d ev] by simp
  show inv': "db_inv d'" using db_inv_remove_row [OF d r(1)] r by simp
  show "db_keys d' = db_keys d - {h}" using r(5) by simp
  show "db_total d' = db_total d - s"
    using inv' d sum_file_size_delete_row [OF d r(1)] r
    by (simp add: db_inv_def remove_row_def debit_def sum_file_size_def)
  show "closure_kept d d'"
    using obj_rows.remove_unreferenced_keeps_closure [OF d, of h] r(2,3) del
    by (simp add: closure_kept_def evictable_where_iff)
  show "file_size d h = Some s" using r d by (auto simp: file_size_Some)
  show "\<forall>e \<in> set (db_refs d). reference_hash e = h \<longrightarrow> fst e = h"
    using r(2,3) by (auto simp: evictable_where_def list_ex_iff)
  show "\<forall>p \<in> set (db_pins d). pr_hash p = h \<longrightarrow> \<not> pin_live p now"
    using r(2,3) by (auto simp: evictable_where_iff)
  show "ref_edges d' = {e \<in> ref_edges d. fst e \<noteq> h}"
    using ref_edges_delete_object [OF db_inv_fk [OF d], of h] del by simp
qed



text \<open>
  C12. Negotiation answers exactly the requested hashes the cache does not hold, and a hash it
  reports present cannot be evicted at any later time up to the push grace less the debounce
  (23 hours), whatever else is written to its row's neighbours in between: the row's \<^verbatim>\<open>pushed_at\<close>
  alone refuses the eviction.
\<close>

theorem negotiation_protects:
  assumes "db_inv d" and "missing d hs now = (ms, d')"
  shows "ms = filter (\<lambda>h. h \<notin> db_keys d) hs \<and> db_keys d' = db_keys d \<and> db_inv d'
       \<and> (\<forall>h \<in> set hs. h \<notin> set ms \<longrightarrow> (\<forall>t \<le> now + (PUSH_GRACE - PUSHED_AT_DEBOUNCE).
            evict_object d' h t = (None, d')))"
proof -
  have ms: "ms = filter (\<lambda>h. h \<notin> db_keys d) hs"
    using missing_answer [of d hs now] assms(2) by simp
  have keys: "db_keys d' = db_keys d \<and> db_inv d'"
    using db_keys_missing [of d hs now] db_inv_missing [OF assms(1), of hs now] assms(2) by simp
  have "\<not> evictable_where d' t r"
    if h: "h \<in> set hs" and t: "t \<le> now + (PUSH_GRACE - PUSHED_AT_DEBOUNCE)"
      and "r \<in> set (db_objects d')" "row_hash r = h" for r h t
  proof -
    have "row_pushed_at r \<ge> now - PUSHED_AT_DEBOUNCE"
      using missing_refreshes [OF assms(1) h, of r now] assms(2) that by simp
    then show ?thesis using t by (simp add: evictable_where_def)
  qed
  then have "evict_object d' h t = (None, d')"
    if "h \<in> set hs" "t \<le> now + (PUSH_GRACE - PUSHED_AT_DEBOUNCE)" for h t
    using that by (auto simp: evict_object_None)
  then show ?thesis using keys ms by blast
qed

theorem negotiation_protects_witness:
  "missing (one_object_db (rep_hash CHR ''d'') 100) [rep_hash CHR ''d'', rep_hash CHR ''e''] 90000 =
     ([rep_hash CHR ''e''], (one_object_db (rep_hash CHR ''d'') 100)\<lparr>db_objects :=
        [(row_of_object demo_enc (fixture_object (rep_hash CHR ''d'')) 100)\<lparr>row_pushed_at := 90000\<rparr>]\<rparr>)
   \<and> fst (evict_object (snd (missing (one_object_db (rep_hash CHR ''d'') 100)
        [rep_hash CHR ''d'', rep_hash CHR ''e''] 90000)) (rep_hash CHR ''d'') 172800) = None"
proof -
  let ?d = "one_object_db (rep_hash CHR ''d'') 100"
  let ?hs = "[rep_hash CHR ''d'', rep_hash CHR ''e'']"
  have ne: "rep_hash CHR ''d'' \<noteq> rep_hash CHR ''e''" by (simp add: rep_hash_def)
  have eq: "missing ?d ?hs 90000 = ([rep_hash CHR ''e''], ?d\<lparr>db_objects :=
        [(row_of_object demo_enc (fixture_object (rep_hash CHR ''d'')) 100)\<lparr>row_pushed_at := 90000\<rparr>]\<rparr>)"
    using ne by (simp add: missing_def find_row_def one_object_db_def row_of_object_def
        PUSHED_AT_DEBOUNCE_def update_row_def)
  show ?thesis
    using eq ne negotiation_protects [OF db_inv_one_object eq]
    by (simp add: PUSH_GRACE_def PUSHED_AT_DEBOUNCE_def)
qed

section \<open>Prune\<close>

text \<open>
  C24. Prune's mark is exact: a cutoff within the push grace is refused, and otherwise the
  doomed objects are exactly those no reference path leads to from an object pushed at or after
  the cutoff or from a live pin.
\<close>

theorem prunable_exact:
  "case prunable d before now of
     Inl e \<Rightarrow> e = CutoffTooRecent \<and> now - PUSH_GRACE < before
   | Inr doomed \<Rightarrow> before \<le> now - PUSH_GRACE
       \<and> brief_hash ` set doomed = db_keys d - (ref_graph (db_refs d))\<^sup>* ``
            (row_hash ` {r \<in> set (db_objects d). before \<le> row_pushed_at r}
             \<union> pr_hash ` {p \<in> set (db_pins d). pin_live p now})"
proof (cases "prunable d before now")
  case (Inl e)
  then show ?thesis by (auto simp: prunable_def split: if_splits)
next
  case (Inr doomed)
  then have "before \<le> now - PUSH_GRACE" by (auto simp: prunable_def split: if_splits)
  then show ?thesis using Inr prunable_hashes [OF Inr] by (simp add: set_keep keep_roots_def)
qed

text \<open>
  C9. Prune's delete either refuses a reference cycle (which real store paths never form)
  with nothing deleted, or commits a sequence of databases each of which satisfies the
  invariant, usage counter included, and keeps the closure of everything still cached; after
  the last one exactly the marked survivors remain. It never panics.
\<close>

theorem prune_keeps_closures:
  assumes "db_inv d" and "prunable d before now = Inr doomed"
  shows "case delete_pruned d doomed of
           Inl e \<Rightarrow> e = ReferenceCycle \<and> \<not> acyclic (ref_edges d)
         | Inr commits \<Rightarrow> (\<forall>c \<in> set commits. db_inv c \<and> closure_kept d c)
             \<and> db_keys (last (d # commits)) = db_keys d \<inter> set (keep d before now)"
proof (cases "delete_pruned d doomed")
  case (Inl e)
  then have "referrers_first d doomed = Inl e" by (simp add: delete_pruned_def split: sum.splits)
  then show ?thesis
    using Inl referrers_first_cases [OF prunable_distinct [OF assms], of d] by auto
next
  case (Inr commits)
  then show ?thesis using delete_pruned_commits [OF assms Inr] by simp
qed

text \<open>Two old objects, the first referring to the second, and a recent one.\<close>

definition prune_demo :: database where
  "prune_demo =
     \<lparr>db_objects = [row_of_object demo_enc (fixture_object (rep_hash CHR ''a'')) 100,
                    row_of_object demo_enc (fixture_object (rep_hash CHR ''b'')) 100,
                    row_of_object demo_enc (fixture_object (rep_hash CHR ''c'')) 864000],
      db_refs = [(rep_hash CHR ''a'', rep_hash CHR ''b'' @ ''-dep'')], db_pins = [], db_total = 15\<rparr>"

lemma db_inv_prune_demo: "db_inv prune_demo"
  by (simp add: db_inv_def prune_demo_def db_keys_def sum_file_size_def row_of_object_def rep_hash_def)

lemma prunable_prune_demo:
  "prunable prune_demo 200 864000 =
     Inr [brief_from_row (row_of_object demo_enc (fixture_object (rep_hash CHR ''a'')) 100),
          brief_from_row (row_of_object demo_enc (fixture_object (rep_hash CHR ''b'')) 100)]"
  by code_simp

lemma delete_pruned_prune_demo:
  "map_sum id (map (map row_hash \<circ> db_objects))
     (delete_pruned prune_demo
        [brief_from_row (row_of_object demo_enc (fixture_object (rep_hash CHR ''a'')) 100),
         brief_from_row (row_of_object demo_enc (fixture_object (rep_hash CHR ''b'')) 100)]) =
   Inr [[rep_hash CHR ''c'']]"
  by code_simp

theorem prune_keeps_closures_witness:
  "\<exists>commits. delete_pruned prune_demo
        [brief_from_row (row_of_object demo_enc (fixture_object (rep_hash CHR ''a'')) 100),
         brief_from_row (row_of_object demo_enc (fixture_object (rep_hash CHR ''b'')) 100)] = Inr commits
     \<and> length commits = 1 \<and> (\<forall>c \<in> set commits. db_inv c \<and> closure_kept prune_demo c)"
proof -
  obtain commits where c: "delete_pruned prune_demo
        [brief_from_row (row_of_object demo_enc (fixture_object (rep_hash CHR ''a'')) 100),
         brief_from_row (row_of_object demo_enc (fixture_object (rep_hash CHR ''b'')) 100)] = Inr commits"
    and l: "map (map row_hash \<circ> db_objects) commits = [[rep_hash CHR ''c'']]"
    using delete_pruned_prune_demo by (auto simp: map_sum_def split: sum.splits)
  have "length commits = 1" using arg_cong [OF l, of length] by simp
  then show ?thesis
    using c prune_keeps_closures [OF db_inv_prune_demo prunable_prune_demo] by auto
qed

text \<open>
  A path Negotiation reported present is not pruned either, and neither is anything it
  refers to, directly or not, for the same 23 hours: whatever cutoff the operator gives.
\<close>

theorem negotiation_protects_from_prune:
  assumes "db_inv d" and "missing d hs now = (ms, d')" and "h \<in> set hs" "h \<notin> set ms"
    and "t \<le> now + (PUSH_GRACE - PUSHED_AT_DEBOUNCE)" and "prunable d' before t = Inr doomed"
    and "(h, k) \<in> (ref_graph (db_refs d'))\<^sup>*"
  shows "k \<notin> brief_hash ` set doomed"
proof -
  have ms: "ms = filter (\<lambda>h. h \<notin> db_keys d) hs" using missing_answer [of d hs now] assms(2) by simp
  have "h \<in> db_keys d'" using ms assms(2-4) db_keys_missing [of d hs now] by simp
  then obtain r where r: "r \<in> set (db_objects d')" "row_hash r = h" by (auto simp: db_keys_def)
  have "before \<le> t - PUSH_GRACE" using assms(6) by (auto simp: prunable_def split: if_splits)
  moreover have "now - PUSHED_AT_DEBOUNCE \<le> row_pushed_at r"
    using missing_refreshes [OF assms(1,3), of r now] assms(2) r by simp
  ultimately have "h \<in> set (keep_roots d' before t)" using r assms(5) by (auto simp: keep_roots_def)
  then have "k \<in> set (keep d' before t)" using assms(7) by (auto simp: set_keep)
  then show ?thesis using prunable_hashes [OF assms(6)] by simp
qed

theorem negotiation_protects_from_prune_witness:
  "rep_hash CHR ''b'' \<notin> brief_hash ` set (case prunable
      (snd (missing prune_demo [rep_hash CHR ''a''] 864000)) 777600 864000 of Inr l \<Rightarrow> l | Inl e \<Rightarrow> [])"
proof -
  let ?d = "snd (missing prune_demo [rep_hash CHR ''a''] 864000)"
  have m: "missing prune_demo [rep_hash CHR ''a''] 864000 = ([], ?d)"
    by (subst prod.collapse [symmetric]) (simp add: missing_answer db_keys_def prune_demo_def)
  have "db_refs ?d = db_refs prune_demo" by code_simp
  then have e: "(rep_hash CHR ''a'', rep_hash CHR ''b'') \<in> (ref_graph (db_refs ?d))\<^sup>*"
    by (intro r_into_rtrancl) (simp add: prune_demo_def ref_graph_def reference_hash_def rep_hash_def)
  obtain l where l: "prunable ?d 777600 864000 = Inr l" by (simp add: prunable_def PUSH_GRACE_def)
  show ?thesis
    using negotiation_protects_from_prune [OF db_inv_prune_demo m _ _ _ l e] l
    by (simp add: PUSH_GRACE_def PUSHED_AT_DEBOUNCE_def)
qed

section \<open>Reachable databases\<close>

text \<open>
  Every transaction the services commit, as one step relation: the Pusher's inserts, refreshes,
  pins, deletions and prune batches, the Puller's access bumps, the admin's re-signing.
\<close>

inductive db_step :: "(string list \<Rightarrow> string) \<Rightarrow> database \<Rightarrow> database \<Rightarrow> bool"
  for enc :: "string list \<Rightarrow> string" where
  Insert: "insert_object enc d ob now = Inr d' \<Longrightarrow> 0 \<le> obj_file_size ob \<Longrightarrow> db_step enc d d'"
| Evict: "db_step enc d (snd (evict_object d h now))"
| Delete: "db_step enc d (snd (delete_object d h))"
| Prune: "prunable d before now = Inr doomed \<Longrightarrow> delete_pruned d doomed = Inr cs \<Longrightarrow> c \<in> set cs \<Longrightarrow>
    db_step enc d c"
| Negotiate: "db_step enc d (snd (missing d hs now))"
| Pin: "pin_object d name h e now = Inr d' \<Longrightarrow> db_step enc d d'"
| Unpin: "db_step enc d (snd (unpin d name))"
| Resign: "db_step enc d (update_sigs enc d h sigs)"
| Bump: "db_step enc d (bump_last_accessed d hs now stale_after)"
| Reconcile: "db_step enc d (snd (reconcile_total_bytes d))"

inductive db_reachable :: "(string list \<Rightarrow> string) \<Rightarrow> database \<Rightarrow> bool"
  for enc :: "string list \<Rightarrow> string" where
  Start: "db_reachable enc empty_db"
| Step: "db_reachable enc d \<Longrightarrow> db_step enc d d' \<Longrightarrow> db_reachable enc d'"

lemma db_inv_step: "db_step enc d d' \<Longrightarrow> db_inv d \<Longrightarrow> db_inv d'"
proof (induction rule: db_step.induct)
  case (Prune d before now doomed cs c)
  then show ?case using delete_pruned_commits [of d before now doomed cs] by blast
qed (auto intro: inv_rules)

text \<open>
  C23. Whatever sequence of transactions the services commit, the database keeps its keys and
  foreign keys, and the quota counter that GC steers by is exactly the total size of the rows.
\<close>

theorem reachable_db_inv:
  assumes "db_reachable enc d"
  shows "db_inv d \<and> total_bytes d = sum_file_size d"
proof -
  have "db_inv d" using assms by induction (auto intro: inv_rules db_inv_step)
  then show ?thesis by (simp add: db_inv_def total_bytes_def)
qed

theorem reachable_db_inv_witness:
  "db_inv (one_object_db (rep_hash CHR ''a'') 100)
   \<and> total_bytes (one_object_db (rep_hash CHR ''a'') 100) = 5"
proof -
  have "db_reachable demo_enc (one_object_db (rep_hash CHR ''a'') 100)"
    by (rule Step [OF Start Insert [OF insert_fixture]]) simp
  from reachable_db_inv [OF this] show ?thesis
    by (simp add: one_object_db_def sum_file_size_def row_of_object_def)
qed

end
