(* ===== verification/Deletion.thy ===== *)
theory Deletion
  imports Storage Database_Laws
begin

text \<open>
  \<^verbatim>\<open>crates/garret-pusher/src/deletion.rs\<close>: the one deletion sequence. A \<^verbatim>\<open>Deletion\<close> holds delete
  claims and queued blob keys; finishing it deletes the blobs and then releases the claims.
\<close>

record deletion =
  del_claims :: "hash list"
  del_keys :: "string list"

definition no_deletion :: deletion where
  "no_deletion = \<lparr>del_claims = [], del_keys = []\<rparr>"

text \<open>The error names the path and what it is busy with.\<close>

definition claim_all :: "in_flight \<Rightarrow> hash list \<Rightarrow> (hash \<times> busy + deletion) \<times> in_flight" where
  "claim_all fl hashes =
     (case acquire_all claim_delete drop_claim [] hashes fl of
        (Inl e, fl') \<Rightarrow> (Inl e, fl')
      | (Inr cs, fl') \<Rightarrow> (Inr \<lparr>del_claims = cs, del_keys = []\<rparr>, fl'))"

definition queue_blob :: "deletion \<Rightarrow> hash \<Rightarrow> deletion" where
  "queue_blob x h = x\<lparr>del_keys := del_keys x @ [key_for h]\<rparr>"

definition hold :: "deletion \<Rightarrow> hash \<Rightarrow> deletion" where
  "hold x h = (queue_blob x h)\<lparr>del_claims := del_claims x @ [h]\<rparr>"

definition deletion_len :: "deletion \<Rightarrow> nat" where
  "deletion_len x = length (del_keys x)"

definition release_claims :: "deletion \<Rightarrow> in_flight \<Rightarrow> in_flight" where
  "release_claims x fl = fold (\<lambda>h fl. drop_claim fl h) (del_claims x) fl"

text \<open>\<^verbatim>\<open>finish\<close>: the blob delete may fail; the claims go either way.\<close>

definition finish_deletion ::
  "('s \<Rightarrow> string list \<Rightarrow> s3_error list option \<times> 's) \<Rightarrow> deletion \<Rightarrow> in_flight \<Rightarrow> 's \<Rightarrow>
   (storage_error + unit) \<times> in_flight \<times> 's" where
  "finish_deletion del x fl s =
     (case delete_objects del s (del_keys x) of (r, s') \<Rightarrow> (r, release_claims x fl, s'))"

section \<open>Claims around a deletion\<close>

lemma drop_claims_claims:
  "claims (fold (\<lambda>h fl. drop_claim fl h) hs fl) = (\<lambda>h. if h \<in> set hs then None else claims fl h)"
  by (induction hs arbitrary: fl) (auto simp: drop_claim_def fun_eq_iff)

lemma claim_delete_Inr:
  "claim_delete fl h = Inr fl' \<longleftrightarrow> claims fl h = None \<and> fl' = fl\<lparr>claims := (claims fl)(h \<mapsto> Delete)\<rparr>"
  by (auto simp: claim_delete_def take_claim_Inr)

lemma drop_claim_delete: "claim_delete fl h = Inr fl' \<Longrightarrow> drop_claim fl' h = fl"
  by (simp add: claim_delete_def drop_take)

text \<open>
  An admin command's claims are all or nothing: either every path it names is claimed for
  deletion and nobody else holds any of them, and finishing the deletion restores the claims as
  they were; or one path is busy (or named twice) and the state is untouched.
\<close>

theorem claim_all_atomic:
  "case claim_all fl hashes of
     (Inl (h, b), fl') \<Rightarrow> h \<in> set hashes \<and> fl' = fl
   | (Inr x, fl') \<Rightarrow> del_claims x = hashes \<and> del_keys x = [] \<and> distinct hashes
       \<and> set hashes \<inter> dom (claims fl) = {} \<and> dom (claims fl') = dom (claims fl) \<union> set hashes
       \<and> release_claims x fl' = fl"
proof -
  consider (grant) fl' where "acquire_all claim_delete drop_claim [] hashes fl = (Inr hashes, fl')"
      "dom (claims fl') = dom (claims fl) \<union> set hashes" "distinct hashes" "set hashes \<inter> dom (claims fl) = {}"
      "fold (\<lambda>h fl. drop_claim fl h) hashes fl' = fl"
    | (busy) h b where "h \<in> set hashes" "acquire_all claim_delete drop_claim [] hashes fl = (Inl (h, b), fl)"
    using deletes.acquire_all_atomic [OF TrueI, of hashes fl] by blast
  then show ?thesis
    by cases (auto simp: claim_all_def release_claims_def)
qed

text \<open>
  Finishing a deletion releases every claim it holds and no other, whether or not the blob
  delete succeeded; blobs outside its queue are never touched, and on success all of its queue
  is gone.
\<close>

theorem finish_deletion_releases:
  assumes "s3_delete_law del present" and "finish_deletion del x fl s = (r, fl', s')"
  shows "(\<forall>h. claims fl' h = (if h \<in> set (del_claims x) then None else claims fl h))
       \<and> present s - set (del_keys x) \<subseteq> present s' \<and> present s' \<subseteq> present s
       \<and> (r = Inr () \<longrightarrow> present s' = present s - set (del_keys x))"
proof -
  obtain r0 s0 where d: "delete_objects del s (del_keys x) = (r0, s0)" by fastforce
  then have eq: "r = r0" "s' = s0" "fl' = release_claims x fl"
    using assms(2) by (auto simp: finish_deletion_def)
  show ?thesis
    using delete_batches_law [OF assms(1), of 0 "chunks DELETE_BATCH (del_keys x)" s r0 s0] d eq
    by (auto simp: delete_objects_def DELETE_BATCH_def release_claims_def drop_claims_claims)
qed

theorem finish_deletion_releases_witness:
  "\<exists>fl' s'. finish_deletion set_del (hold no_deletion ''x'')
       (new_in_flight\<lparr>claims := [''x'' \<mapsto> Delete, ''y'' \<mapsto> Delete]\<rparr>) {key_for ''x'', key_for ''z''} = (Inr (), fl', s')
     \<and> claims fl' ''x'' = None \<and> claims fl' ''y'' = Some Delete \<and> key_for ''z'' \<in> s' \<and> key_for ''x'' \<notin> s'"
proof -
  let ?x = "hold no_deletion ''x''"
  let ?fl = "new_in_flight\<lparr>claims := [''x'' \<mapsto> Delete, ''y'' \<mapsto> Delete]\<rparr>"
  let ?s = "{key_for ''x'', key_for ''z''}"
  have law: "s3_delete_law set_del id"
    by (auto simp: s3_delete_law_def set_del_def real_errors_def)
  obtain r fl' s' where f: "finish_deletion set_del ?x ?fl ?s = (r, fl', s')" by (metis prod.exhaust)
  have r: "r = Inr ()"
    using f by (simp add: finish_deletion_def hold_def queue_blob_def no_deletion_def delete_objects_def
        chunks.simps DELETE_BATCH_def set_del_def real_errors_def key_for_def)
  have "del_claims ?x = [''x'']" "del_keys ?x = [key_for ''x'']"
    by (simp_all add: hold_def queue_blob_def no_deletion_def)
  with finish_deletion_releases [OF law f] show ?thesis using f r by (auto simp: new_in_flight_def)
qed

end
