(* ===== verification/Gc.thy ===== *)
theory Gc
  imports Deletion
begin

text \<open>
  \<^verbatim>\<open>crates/garret-pusher/src/gc.rs\<close>: the eviction pass and the orphan sweep.

  A pass gives up the connection between its database calls, so other tasks run in between: the
  parameter \<open>env\<close> is what they do to the world at each such point, numbered by \<open>w_awaits\<close>, and \<open>clock\<close>
  the time read there. The pass loops while usage is above the low watermark; whether that ends
  depends on the others, hence \<open>partial_function (option)\<close>. \<^verbatim>\<open>high()\<close> and \<^verbatim>\<open>low()\<close> multiply the quota
  by a float; here they are the two integers. Metrics and logging are left out, and so is the
  timer loop \<^verbatim>\<open>run_forever\<close>.
\<close>

section \<open>The world between awaits\<close>

record 's world =
  w_db :: database
  w_fl :: in_flight
  w_s3 :: 's
  w_slots :: nat
  w_awaits :: nat

type_synonym 's env = "nat \<Rightarrow> 's world \<Rightarrow> 's world"

definition await :: "'s env \<Rightarrow> 's world \<Rightarrow> 's world" where
  "await env w = (env (w_awaits w) w)\<lparr>w_awaits := Suc (w_awaits w)\<rparr>"

text \<open>Nobody else acts.\<close>

definition alone :: "'s env" where
  "alone = (\<lambda>_ w. w)"

section \<open>The eviction pass\<close>

definition BATCH :: nat where "BATCH = 500"

record gc_config =
  gc_high :: int
  gc_low :: int
  gc_orphan_grace :: int

record pass_result =
  pr_evicted :: nat
  pr_bytes_freed :: int
  pr_candidates_exhausted :: bool

definition no_result :: pass_result where
  "no_result = \<lparr>pr_evicted = 0, pr_bytes_freed = 0, pr_candidates_exhausted = False\<rparr>"

record batch_state =
  bs_usage :: int
  bs_result :: pass_result
  bs_deletion :: deletion
  bs_settled :: bool

definition count_freed :: "hash \<Rightarrow> int \<Rightarrow> batch_state \<Rightarrow> batch_state" where
  "count_freed h freed b =
     b\<lparr>bs_usage := bs_usage b - freed,
       bs_result := (bs_result b)\<lparr>pr_evicted := pr_evicted (bs_result b) + 1,
                                  pr_bytes_freed := pr_bytes_freed (bs_result b) + freed\<rparr>,
       bs_deletion := hold (bs_deletion b) h, bs_settled := True\<rparr>"

text \<open>\<^verbatim>\<open>for (hash, _) in &candidates\<close>.\<close>

fun evict_batch :: "'s env \<Rightarrow> int \<Rightarrow> int \<Rightarrow> hash list \<Rightarrow> batch_state \<Rightarrow> 's world \<Rightarrow> batch_state \<times> 's world" where
  "evict_batch env at low [] b w = (b, w)"
| "evict_batch env at low (h # hs) b w =
     (case claim_delete (w_fl w) h of
        Inl _ \<Rightarrow> evict_batch env at low hs b w
      | Inr fl \<Rightarrow>
          (let w1 = await env (w\<lparr>w_fl := fl\<rparr>) in
           case evict_object (w_db w1) h at of
             (None, d) \<Rightarrow>
               evict_batch env at low hs (b\<lparr>bs_settled := True\<rparr>) (w1\<lparr>w_db := d, w_fl := drop_claim (w_fl w1) h\<rparr>)
           | (Some freed, d) \<Rightarrow>
               (let b' = count_freed h freed b; w2 = w1\<lparr>w_db := d\<rparr> in
                if bs_usage b' \<le> low then (b', w2) else evict_batch env at low hs b' w2)))"

partial_function (option) evict_loop ::
  "'s env \<Rightarrow> (nat \<Rightarrow> int) \<Rightarrow> ('s \<Rightarrow> string list \<Rightarrow> s3_error list option \<times> 's) \<Rightarrow> int \<Rightarrow> int \<Rightarrow> pass_result \<Rightarrow>
   's world \<Rightarrow> ((storage_error + pass_result) \<times> 's world) option" where
  "evict_loop env clock del low usage result w =
     (if \<not> usage > low then Some (Inr result, w)
      else
        (let w1 = await env w;
             at = clock (w_awaits w);
             candidates = map fst (evictable (w_db w1) BATCH at)
         in if candidates = [] then Some (Inr (result\<lparr>pr_candidates_exhausted := True\<rparr>), w1)
            else
              (case evict_batch env at low candidates
                      \<lparr>bs_usage = usage, bs_result = result, bs_deletion = no_deletion, bs_settled = False\<rparr> w1 of
                 (b, w2) \<Rightarrow>
                   (let w3 = await env w2 in
                    case finish_deletion del (bs_deletion b) (w_fl w3) (w_s3 w3) of
                      (r, fl, s) \<Rightarrow>
                        (let w4 = w3\<lparr>w_fl := fl, w_s3 := s\<rparr> in
                         case r of
                           Inl e \<Rightarrow> Some (Inl e, w4)
                         | Inr _ \<Rightarrow>
                             if \<not> bs_settled b then Some (Inr (bs_result b), w4)
                             else evict_loop env clock del low (bs_usage b) (bs_result b) w4)))))"

definition evict ::
  "'s env \<Rightarrow> (nat \<Rightarrow> int) \<Rightarrow> ('s \<Rightarrow> string list \<Rightarrow> s3_error list option \<times> 's) \<Rightarrow> gc_config \<Rightarrow> 's world \<Rightarrow>
   ((storage_error + pass_result) \<times> 's world) option" where
  "evict env clock del cfg w =
     (let w1 = await env w;
          (usage, d) = reconcile_total_bytes (w_db w1)
      in evict_loop env clock del (gc_low cfg) usage no_result (w1\<lparr>w_db := d\<rparr>))"

text \<open>One tick: a counter check, and a pass only past the high watermark.\<close>

definition gc_tick ::
  "'s env \<Rightarrow> (nat \<Rightarrow> int) \<Rightarrow> ('s \<Rightarrow> string list \<Rightarrow> s3_error list option \<times> 's) \<Rightarrow> gc_config \<Rightarrow> 's world \<Rightarrow>
   ((storage_error + pass_result option) \<times> 's world) option" where
  "gc_tick env clock del cfg w =
     (let w1 = await env w in
      if total_bytes (w_db w1) < gc_high cfg then Some (Inr None, w1)
      else map_option (\<lambda>(r, w'). (map_sum id Some r, w')) (evict env clock del cfg w1))"

section \<open>The orphan sweep\<close>

text \<open>One database call: a final row check under the claim.\<close>

fun claim_orphans :: "database \<Rightarrow> hash list \<Rightarrow> deletion \<Rightarrow> in_flight \<Rightarrow> deletion \<times> in_flight" where
  "claim_orphans d [] x fl = (x, fl)"
| "claim_orphans d (h # hs) x fl =
     (case claim_delete fl h of
        Inl _ \<Rightarrow> claim_orphans d hs x fl
      | Inr fl' \<Rightarrow>
          if exists_object d h then claim_orphans d hs x (drop_claim fl' h)
          else claim_orphans d hs (hold x h) fl')"

text \<open>The requests of the service the sweep makes; the last is the effect of the aborts it made.\<close>

record 's s3_admin =
  sa_list :: "'s \<Rightarrow> string option \<Rightarrow> s3_page option"
  sa_mpus :: "'s \<Rightarrow> string option \<times> string option \<Rightarrow> mpu_page option"
  sa_abort :: "'s \<Rightarrow> string \<times> string \<Rightarrow> bool"
  sa_delete :: "'s \<Rightarrow> string list \<Rightarrow> s3_error list option \<times> 's"
  sa_aborted :: "'s \<Rightarrow> (string \<times> string) list \<Rightarrow> 's"

definition sweep ::
  "'s env \<Rightarrow> (nat \<Rightarrow> int) \<Rightarrow> 's s3_admin \<Rightarrow> gc_config \<Rightarrow> 's world \<Rightarrow> ((storage_error + nat) \<times> 's world) option" where
  "sweep env clock s3 cfg w =
     (let grace = gc_orphan_grace cfg;
          w1 = await env w;
          known = set (all_hashes (w_db w1));
          w2 = await env w1
      in case list_blobs (sa_list s3 (w_s3 w2)) (clock (w_awaits w1)) of
           None \<Rightarrow> None
         | Some (Inl e) \<Rightarrow> Some (Inl e, w2)
         | Some (Inr blobs) \<Rightarrow>
             (let w3 = await env w2 in
              case abort_stale_multiparts (sa_mpus s3 (w_s3 w3)) (sa_abort s3 (w_s3 w3)) grace (w_fl w3)
                     (clock (w_awaits w2)) of
                None \<Rightarrow> None
              | Some (Inl e, aborted) \<Rightarrow> Some (Inl e, w3\<lparr>w_s3 := sa_aborted s3 (w_s3 w3) aborted\<rparr>)
              | Some (Inr _, aborted) \<Rightarrow>
                  (let w4 = await env (w3\<lparr>w_s3 := sa_aborted s3 (w_s3 w3) aborted\<rparr>) in
                   case claim_orphans (w_db w4) (orphan_hashes blobs known (w_fl w4) grace) no_deletion (w_fl w4) of
                     (x, fl) \<Rightarrow>
                       (let w5 = await env (w4\<lparr>w_fl := fl\<rparr>) in
                        case finish_deletion (sa_delete s3) x (w_fl w5) (w_s3 w5) of
                          (r, fl', s') \<Rightarrow>
                            Some (map_sum id (\<lambda>_. deletion_len x) r, w5\<lparr>w_fl := fl', w_s3 := s'\<rparr>)))))"

section \<open>Whatever the others do\<close>

text \<open>The others keep \<open>Q\<close> of the database.\<close>

definition env_keeps :: "(database \<Rightarrow> bool) \<Rightarrow> 's env \<Rightarrow> bool" where
  "env_keeps Q env \<longleftrightarrow> (\<forall>k w. Q (w_db w) \<longrightarrow> Q (w_db (env k w)))"

lemma env_keeps_await: "env_keeps Q env \<Longrightarrow> Q (w_db w) \<Longrightarrow> Q (w_db (await env w))"
  by (simp add: await_def env_keeps_def)

text \<open>
  What a pass needs of a property of the database to keep it however the others interleave: that
  its own two transactions do.
\<close>

locale kept_by_gc =
  fixes Q :: "database \<Rightarrow> bool"
  assumes evict_keeps: "Q d \<Longrightarrow> Q (snd (evict_object d h now))"
    and reconcile_keeps: "Q d \<Longrightarrow> Q (snd (reconcile_total_bytes d))"
begin

lemma evict_batch_keeps:
  assumes env: "env_keeps Q env"
  shows "Q (w_db w) \<Longrightarrow> evict_batch env at low hs b w = (b', w') \<Longrightarrow> Q (w_db w')"
proof (induction hs arbitrary: b w)
  case (Cons h hs)
  show ?case
  proof (cases "claim_delete (w_fl w) h")
    case (Inl e)
    then show ?thesis using Cons by simp
  next
    case (Inr fl)
    let ?w1 = "await env (w\<lparr>w_fl := fl\<rparr>)"
    have inv1: "Q (w_db ?w1)" using env_keeps_await [OF env] Cons.prems(1) by simp
    obtain x d where ev: "evict_object (w_db ?w1) h at = (x, d)" by fastforce
    then have d: "Q d" using evict_keeps [OF inv1, of h at] by simp
    show ?thesis
    proof (cases x)
      case None
      then have "evict_batch env at low hs (b\<lparr>bs_settled := True\<rparr>)
          (?w1\<lparr>w_db := d, w_fl := drop_claim (w_fl ?w1) h\<rparr>) = (b', w')" using Cons.prems(2) Inr ev by (simp add: Let_def)
      from Cons.IH [OF _ this] d show ?thesis by simp
    next
      case (Some freed)
      show ?thesis
      proof (cases "bs_usage (count_freed h freed b) \<le> low")
        case True
        then show ?thesis using Cons.prems(2) Inr ev Some d by (auto simp: Let_def)
      next
        case False
        then have "evict_batch env at low hs (count_freed h freed b) (?w1\<lparr>w_db := d\<rparr>) = (b', w')"
          using Cons.prems(2) Inr ev Some by (simp add: Let_def)
        from Cons.IH [OF _ this] d show ?thesis by simp
      qed
    qed
  qed
qed simp

lemma evict_loop_keeps:
  assumes "evict_loop env clock del low usage result w = Some y"
  shows "env_keeps Q env \<longrightarrow> Q (w_db w) \<longrightarrow> Q (w_db (snd y))"
  using assms
proof (rule evict_loop.raw_induct [rotated])
  fix rec_loop env clock and del :: "'s \<Rightarrow> string list \<Rightarrow> s3_error list option \<times> 's" and low usage result w y
  assume ih: "\<And>env clock del low usage result w y. rec_loop env clock del low usage result w = Some y \<Longrightarrow>
      env_keeps Q env \<longrightarrow> Q (w_db w) \<longrightarrow> Q (w_db (snd y))"
    and eq: "(if \<not> usage > low then Some (Inr result, w)
      else
        (let w1 = await env w;
             at = clock (w_awaits w);
             candidates = map fst (evictable (w_db w1) BATCH at)
         in if candidates = [] then Some (Inr (result\<lparr>pr_candidates_exhausted := True\<rparr>), w1)
            else
              (case evict_batch env at low candidates
                      \<lparr>bs_usage = usage, bs_result = result, bs_deletion = no_deletion, bs_settled = False\<rparr> w1 of
                 (b, w2) \<Rightarrow>
                   (let w3 = await env w2 in
                    case finish_deletion del (bs_deletion b) (w_fl w3) (w_s3 w3) of
                      (r, fl, s) \<Rightarrow>
                        (let w4 = w3\<lparr>w_fl := fl, w_s3 := s\<rparr> in
                         case r of
                           Inl e \<Rightarrow> Some (Inl e, w4)
                         | Inr _ \<Rightarrow>
                             if \<not> bs_settled b then Some (Inr (bs_result b), w4)
                             else rec_loop env clock del low (bs_usage b) (bs_result b) w4))))) = Some y"
  show "env_keeps Q env \<longrightarrow> Q (w_db w) \<longrightarrow> Q (w_db (snd y))"
  proof (intro impI)
    assume env: "env_keeps Q env" and inv: "Q (w_db w)"
    have inv1: "Q (w_db (await env w))" using env_keeps_await [OF env inv] .
    let ?at = "clock (w_awaits w)"
    let ?b0 = "\<lparr>bs_usage = usage, bs_result = result, bs_deletion = no_deletion, bs_settled = False\<rparr>"
    obtain b w2 where run: "evict_batch env ?at low (map fst (evictable (w_db (await env w)) BATCH ?at)) ?b0 (await env w) = (b, w2)"
      by fastforce
    have "Q (w_db (await env w2))" using env_keeps_await [OF env evict_batch_keeps [OF env inv1 run]] .
    then show "Q (w_db (snd y))"
      using eq inv inv1 run ih env
      by (auto simp: Let_def split: if_splits prod.splits sum.splits)
  qed
qed

lemma evict_keeps_env:
  assumes "env_keeps Q env" and "Q (w_db w)" and "evict env clock del cfg w = Some (r, w')"
  shows "Q (w_db w')"
proof -
  let ?w1 = "await env w"
  obtain usage d where rec: "reconcile_total_bytes (w_db ?w1) = (usage, d)" by fastforce
  have "Q d" using reconcile_keeps [OF env_keeps_await [OF assms(1,2)]] rec by simp
  moreover have "evict_loop env clock del (gc_low cfg) usage no_result (?w1\<lparr>w_db := d\<rparr>) = Some (r, w')"
    using assms(3) rec by (simp add: evict_def Let_def)
  ultimately show ?thesis using evict_loop_keeps assms(1) by fastforce
qed

end

interpretation gc_inv: kept_by_gc db_inv
  by unfold_locales (auto intro: inv_rules)

interpretation gc_keys: kept_by_gc "\<lambda>d. db_keys d \<subseteq> K" for K
proof unfold_locales
  fix d h now assume "db_keys d \<subseteq> K"
  then show "db_keys (snd (evict_object d h now)) \<subseteq> K"
    by (auto simp: evict_object_def split: option.splits)
qed (auto simp: reconcile_total_bytes_def Let_def db_keys_def)

section \<open>A pass on its own\<close>

text \<open>A database that only lost unreferenced rows: fewer keys, the edges of what is left, closures intact.\<close>

definition shrinks :: "database \<Rightarrow> database \<Rightarrow> bool" where
  "shrinks d d' \<longleftrightarrow> db_keys d' \<subseteq> db_keys d \<and> ref_edges d' = {e \<in> ref_edges d. fst e \<in> db_keys d'}
     \<and> closure_kept d d'"

lemma shrinks_refl: "db_inv d \<Longrightarrow> shrinks d d"
  by (auto simp: shrinks_def closure_kept_def intro: ref_edges_from_keys [OF db_inv_fk])

lemma shrinks_trans:
  assumes "shrinks d d1" "shrinks d1 d2"
  shows "shrinks d d2"
proof -
  have keys: "db_keys d1 \<subseteq> db_keys d" "db_keys d2 \<subseteq> db_keys d1" using assms by (auto simp: shrinks_def)
  have "closure_kept d d2"
    unfolding closure_kept_def
  proof (clarify)
    fix a b assume e: "(a, b) \<in> ref_edges d" "a \<in> db_keys d2" "b \<in> db_keys d"
    then have "b \<in> db_keys d1" "(a, b) \<in> ref_edges d1"
      using assms(1) keys by (auto simp: shrinks_def closure_kept_def)
    then show "b \<in> db_keys d2" using assms(2) e by (auto simp: shrinks_def closure_kept_def)
  qed
  then show ?thesis using assms keys by (auto simp: shrinks_def)
qed

lemma evict_object_shrinks:
  assumes "db_inv d" "evict_object d h at = (Some s, d')"
  shows "shrinks d d'"
  using evict_object_effects [OF assms] assms(1)
  by (auto simp: shrinks_def intro: ref_edges_from_keys [OF db_inv_fk])

lemma evictable_evict_Some:
  assumes "r \<in> set (db_objects d)" "evictable_where d at r"
  shows "\<exists>s d'. evict_object d (row_hash r) at = (Some s, d')"
  using assms evict_object_None [of d "row_hash r" at] by (metis option.exhaust prod.exhaust)

text \<open>What a batch run without interference did: it evicted \<open>es\<close>.\<close>

definition batch_done :: "batch_state \<Rightarrow> 's world \<Rightarrow> batch_state \<Rightarrow> 's world \<Rightarrow> hash list \<Rightarrow> bool" where
  "batch_done b w b' w' es \<longleftrightarrow>
     db_inv (w_db w') \<and> shrinks (w_db w) (w_db w') \<and> db_keys (w_db w') = db_keys (w_db w) - set es
   \<and> set es \<subseteq> db_keys (w_db w)
   \<and> del_claims (bs_deletion b') = del_claims (bs_deletion b) @ es
   \<and> del_keys (bs_deletion b') = del_keys (bs_deletion b) @ map key_for es
   \<and> bs_usage b' - db_total (w_db w') = bs_usage b - db_total (w_db w)
   \<and> pr_bytes_freed (bs_result b') + bs_usage b' = pr_bytes_freed (bs_result b) + bs_usage b
   \<and> fold (\<lambda>h fl. drop_claim fl h) es (w_fl w') = w_fl w \<and> w_s3 w' = w_s3 w
   \<and> (bs_settled b' \<longleftrightarrow> bs_settled b \<or> es \<noteq> [])"

lemma fold_drop_claim_commute:
  "fold (\<lambda>h fl. drop_claim fl h) hs (drop_claim fl h) = drop_claim (fold (\<lambda>h fl. drop_claim fl h) hs fl) h"
  by (rule deletes.fold_rel_snoc)

lemma evict_batch_alone:
  assumes "db_inv (w_db w)"
    and "\<forall>h \<in> set hs. \<exists>r \<in> set (db_objects (w_db w)). row_hash r = h \<and> evictable_where (w_db w) at r"
    and "distinct hs" and "evict_batch alone at low hs b w = (b', w')"
  shows "\<exists>es. batch_done b w b' w' es \<and> (es = [] \<longrightarrow> set hs \<subseteq> dom (claims (w_fl w)) \<and> w' = w)"
  using assms
proof (induction hs arbitrary: b w)
  case Nil
  then show ?case using shrinks_refl by (auto simp: batch_done_def intro!: exI [of _ "[]"])
next
  case (Cons h hs)
  show ?case
  proof (cases "claim_delete (w_fl w) h")
    case (Inl e)
    then have "h \<in> dom (claims (w_fl w))" by (auto simp: claim_delete_def take_claim_def split: option.splits)
    then show ?thesis using Cons.IH [of w b] Cons.prems Inl by auto
  next
    case (Inr fl)
    let ?w1 = "w\<lparr>w_fl := fl, w_awaits := Suc (w_awaits w)\<rparr>"
    have w1: "await alone (w\<lparr>w_fl := fl\<rparr>) = ?w1" by (simp add: await_def alone_def)
    obtain r where r: "r \<in> set (db_objects (w_db w))" "row_hash r = h" "evictable_where (w_db w) at r"
      using Cons.prems(2) by auto
    then obtain s d where ev: "evict_object (w_db w) h at = (Some s, d)" using evictable_evict_Some by blast
    note eff = evict_object_effects [OF Cons.prems(1) ev]
    let ?b1 = "count_freed h s b" and ?w2 = "?w1\<lparr>w_db := d\<rparr>"
    have hk: "h \<in> db_keys (w_db w)" using r by (auto simp: db_keys_def)
    have one: "batch_done b w ?b1 ?w2 [h]"
      using eff evict_object_shrinks [OF Cons.prems(1) ev] drop_claim_delete [OF Inr] hk
      by (simp add: batch_done_def count_freed_def hold_def queue_blob_def)
    show ?thesis
    proof (cases "bs_usage ?b1 \<le> low")
      case True
      then have "b' = ?b1" "w' = ?w2" using Cons.prems(4) Inr ev w1 by (auto simp: Let_def)
      then show ?thesis using one by blast
    next
      case False
      then have run: "evict_batch alone at low hs ?b1 ?w2 = (b', w')"
        using Cons.prems(4) Inr ev w1 by (auto simp: Let_def)
      have "\<exists>r' \<in> set (db_objects d). row_hash r' = k \<and> evictable_where d at r'" if k: "k \<in> set hs" for k
      proof -
        obtain r' where r': "r' \<in> set (db_objects (w_db w))" "row_hash r' = k" "evictable_where (w_db w) at r'"
          using Cons.prems(2) k by auto
        have "k \<noteq> h" using Cons.prems(3) k by auto
        have dd: "d = remove_row (w_db w) h s" using ev by (auto elim: evict_object_Some)
        have "r' \<in> set (db_objects d)"
          using r' \<open>k \<noteq> h\<close> by (simp add: dd remove_row_def debit_def delete_row_def)
        moreover have "evictable_where d at r'"
          using evictable_where_evict_object [OF r'(3), of h] ev by simp
        ultimately show ?thesis using r'(2) by blast
      qed
      then obtain es where es: "batch_done ?b1 ?w2 b' w' es"
        using Cons.IH [of ?w2 ?b1] Cons.prems(3) run eff(6) by auto
      have "batch_done b w b' w' (h # es)"
        using one es shrinks_trans [of "w_db w" d "w_db w'"] fold_drop_claim_commute [of es "w_fl w'" h]
        by (auto simp: batch_done_def)
      then show ?thesis by blast
    qed
  qed
qed

lemma set_candidates:
  "h \<in> set (map fst (evictable d n at)) \<Longrightarrow>
     \<exists>r \<in> set (db_objects d). row_hash r = h \<and> evictable_where d at r"
  by (auto dest!: set_evictable)

lemma distinct_candidates: "db_inv d \<Longrightarrow> distinct (map fst (evictable d n at))"
proof -
  assume "db_inv d"
  let ?rows = "sort_key (\<lambda>r. (row_last_accessed_at r, row_hash r)) (filter (evictable_where d at) (db_objects d))"
  have "mset (map row_hash ?rows) = mset (map row_hash (filter (evictable_where d at) (db_objects d)))"
    by (simp add: mset_map)
  then have "distinct (map row_hash ?rows)"
    using \<open>db_inv d\<close> by (metis db_inv_def distinct_map_filterI mset_eq_imp_distinct_iff)
  then show ?thesis by (simp add: evictable_def take_map [symmetric] comp_def distinct_take del: take_map) 
qed

text \<open>Why a pass on its own stopped.\<close>

definition pass_stopped :: "int \<Rightarrow> pass_result \<Rightarrow> 's world \<Rightarrow> bool" where
  "pass_stopped low res w \<longleftrightarrow>
     db_total (w_db w) \<le> low
   \<or> (\<exists>at. pr_candidates_exhausted res \<and> filter (evictable_where (w_db w) at) (db_objects (w_db w)) = [])
   \<or> (\<exists>at. set (map fst (evictable (w_db w) BATCH at)) \<subseteq> dom (claims (w_fl w)))"

lemma evict_loop_alone:
  assumes "db_inv (w_db w)" "usage = db_total (w_db w)"
  shows "\<exists>r w'. evict_loop alone clock del low usage result w = Some (r, w')
    \<and> db_inv (w_db w') \<and> shrinks (w_db w) (w_db w') \<and> w_fl w' = w_fl w
    \<and> (\<forall>res. r = Inr res \<longrightarrow> pass_stopped low res w'
          \<and> pr_bytes_freed res + db_total (w_db w') = pr_bytes_freed result + db_total (w_db w))"
  using assms
proof (induction "card (db_keys (w_db w))" arbitrary: usage result w rule: less_induct)
  case less
  note loop = evict_loop.simps [of alone clock del low usage result w]
  let ?w1 = "w\<lparr>w_awaits := Suc (w_awaits w)\<rparr>"
  have w1: "await alone w = ?w1" by (simp add: await_def alone_def)
  let ?at = "clock (w_awaits w)"
  let ?cs = "map fst (evictable (w_db w) BATCH ?at)"
  let ?b0 = "\<lparr>bs_usage = usage, bs_result = result, bs_deletion = no_deletion, bs_settled = False\<rparr>"
  show ?case
  proof (cases "usage > low")
    case False
    then show ?thesis using loop less.prems shrinks_refl by (simp add: pass_stopped_def)
  next
    case above: True
    show ?thesis
    proof (cases "?cs = []")
      case True
      then have "filter (evictable_where (w_db w) ?at) (db_objects (w_db w)) = []"
        using evictable_Nil [of BATCH "w_db w" ?at] by (simp add: BATCH_def filter_empty_conv)
      then show ?thesis using loop above True w1 less.prems shrinks_refl [OF less.prems(1)]
        by (auto simp: pass_stopped_def)
    next
      case False
      obtain b w2 where run: "evict_batch alone ?at low ?cs ?b0 ?w1 = (b, w2)" by fastforce
      have pre: "db_inv (w_db ?w1)" "distinct ?cs"
        "\<forall>h \<in> set ?cs. \<exists>r \<in> set (db_objects (w_db ?w1)). row_hash r = h \<and> evictable_where (w_db ?w1) ?at r"
        using less.prems(1) distinct_candidates set_candidates by fastforce+
      obtain es where es: "batch_done ?b0 ?w1 b w2 es"
        and none: "es = [] \<longrightarrow> set ?cs \<subseteq> dom (claims (w_fl ?w1)) \<and> w2 = ?w1"
        using evict_batch_alone [OF pre(1,3,2) run] by blast
      let ?w3 = "w2\<lparr>w_awaits := Suc (w_awaits w2)\<rparr>"
      have w3: "await alone w2 = ?w3" by (simp add: await_def alone_def)
      obtain r fl s where fin: "finish_deletion del (bs_deletion b) (w_fl w2) (w_s3 w2) = (r, fl, s)"
        by (metis prod.exhaust)
      have fl: "fl = w_fl w"
        using fin es by (auto simp: finish_deletion_def release_claims_def batch_done_def no_deletion_def
            split: prod.splits)
      let ?w4 = "?w3\<lparr>w_fl := fl, w_s3 := s\<rparr>"
      have step: "evict_loop alone clock del low usage result w =
          (case r of Inl e \<Rightarrow> Some (Inl e, ?w4)
           | Inr _ \<Rightarrow> if \<not> bs_settled b then Some (Inr (bs_result b), ?w4)
                     else evict_loop alone clock del low (bs_usage b) (bs_result b) ?w4)"
        using loop above False w1 run w3 fin by (simp add: Let_def split: sum.split)
      have db4: "w_db ?w4 = w_db w2" "w_fl ?w4 = w_fl w" using fl by simp_all
      have eff: "db_inv (w_db w2)" "shrinks (w_db w) (w_db w2)" "db_keys (w_db w2) = db_keys (w_db w) - set es"
        "set es \<subseteq> db_keys (w_db w)" "bs_usage b = db_total (w_db w2)"
        "pr_bytes_freed (bs_result b) + db_total (w_db w2) = pr_bytes_freed result + db_total (w_db w)"
        "bs_settled b \<longleftrightarrow> es \<noteq> []"
        using es less.prems(2) by (auto simp: batch_done_def)
      show ?thesis
      proof (cases r)
        case (Inl e)
        then show ?thesis using step eff db4 by simp
      next
        case (Inr u)
        show ?thesis
        proof (cases "es = []")
          case True
          then have "pass_stopped low (bs_result b) ?w4"
            using none fl unfolding pass_stopped_def by (auto intro!: exI [of _ ?at])
          then show ?thesis using step Inr True eff db4 by simp
        next
          case nonempty: False
          have "card (db_keys (w_db w2)) < card (db_keys (w_db w))"
            unfolding eff(3) using nonempty eff(4)
            by (intro psubset_card_mono) (auto simp: db_keys_def neq_Nil_conv)
          from less.hyps [of ?w4 "bs_usage b" "bs_result b"] this eff db4
          obtain r' w' where ih: "evict_loop alone clock del low (bs_usage b) (bs_result b) ?w4 = Some (r', w')"
            "db_inv (w_db w')" "shrinks (w_db w2) (w_db w')" "w_fl w' = w_fl w"
            "\<forall>res. r' = Inr res \<longrightarrow> pass_stopped low res w' \<and>
               pr_bytes_freed res + db_total (w_db w') = pr_bytes_freed (bs_result b) + db_total (w_db w2)"
            by (metis (no_types, lifting))
          have "shrinks (w_db w) (w_db w')" using shrinks_trans eff(2) ih(3) by blast
          then show ?thesis using step Inr nonempty eff(6,7) ih by simp
        qed
      qed
    qed
  qed
qed

section \<open>Properties\<close>


definition demo_world :: "string set world" where
  "demo_world = \<lparr>w_db = one_object_db (rep_hash CHR ''d'') 100, w_fl = new_in_flight,
     w_s3 = {key_for (rep_hash CHR ''d'')}, w_slots = 1, w_awaits = 0\<rparr>"


text \<open>
  However other tasks interleave with a pass, as long as each of them keeps the database's
  invariant (every writer does), the pass keeps it too: its own deletes re-check the candidate
  against the database of that moment, so the quota counter never drifts.
\<close>

theorem gc_pass_keeps_invariant:
  assumes "env_keeps db_inv env" and "db_inv (w_db w)" and "evict env clock del cfg w = Some (r, w')"
  shows "db_inv (w_db w') \<and> total_bytes (w_db w') = sum_file_size (w_db w')"
  using gc_inv.evict_keeps_env [OF assms] by (simp add: db_inv_def total_bytes_def)

theorem gc_pass_keeps_invariant_witness:
  "\<exists>r w'. evict (\<lambda>k w. w\<lparr>w_db := snd (missing (w_db w) [rep_hash CHR ''d''] 90000)\<rparr>) (\<lambda>_. 90000) set_del
       \<lparr>gc_high = 4, gc_low = 5, gc_orphan_grace = 86400\<rparr> demo_world = Some (r, w') \<and> db_inv (w_db w')"
proof -
  let ?env = "\<lambda>(k :: nat) (w :: string set world). w\<lparr>w_db := snd (missing (w_db w) [rep_hash CHR ''d''] 90000)\<rparr>"
  have env: "env_keeps db_inv ?env" by (simp add: env_keeps_def db_inv_missing)
  have inv: "db_inv (w_db demo_world)" by (simp add: demo_world_def db_inv_one_object)
  let ?w1 = "await ?env demo_world"
  have "db_inv (w_db ?w1)" using env_keeps_await [OF env inv] .
  moreover have "db_total (w_db ?w1) = 5"
    by (simp add: await_def demo_world_def missing_def one_object_db_def find_row_def row_of_object_def
        PUSHED_AT_DEBOUNCE_def update_row_def)
  ultimately have "sum_file_size (w_db ?w1) = 5" by (simp add: db_inv_def)
  then obtain r w' where "evict ?env (\<lambda>_. 90000) set_del
       \<lparr>gc_high = 4, gc_low = 5, gc_orphan_grace = 86400\<rparr> demo_world = Some (r, w')"
    by (simp add: evict_def reconcile_total_bytes_def Let_def evict_loop.simps)
  with gc_pass_keeps_invariant [OF env inv this] show ?thesis by blast
qed

lemma claim_orphans_spec:
  assumes "claim_orphans d hs x fl = (x', fl')"
  shows "\<exists>es. del_claims x' = del_claims x @ es \<and> del_keys x' = del_keys x @ map key_for es
    \<and> set es \<subseteq> set hs - db_keys d \<and> set es \<inter> dom (claims fl) = {}
    \<and> (\<forall>h \<in> set es. claims fl' h = Some Delete) \<and> fold (\<lambda>h fl. drop_claim fl h) es fl' = fl
    \<and> (\<forall>h. claims fl h \<noteq> None \<longrightarrow> claims fl' h = claims fl h)"
  using assms
proof (induction hs arbitrary: x fl)
  case (Cons h hs)
  show ?case
  proof (cases "claim_delete fl h")
    case (Inl e)
    then show ?thesis using Cons.IH [of x fl] Cons.prems by auto
  next
    case (Inr fl1)
    show ?thesis
    proof (cases "exists_object d h")
      case True
      then show ?thesis using Cons.IH [of x fl] Cons.prems Inr drop_claim_delete [OF Inr] by auto
    next
      case False
      then have run: "claim_orphans d hs (hold x h) fl1 = (x', fl')" using Cons.prems Inr by simp
      have fl1: "claims fl h = None" "claims fl1 = (claims fl)(h \<mapsto> Delete)"
        using Inr by (auto simp: claim_delete_Inr)
      obtain es where es: "del_claims x' = del_claims x @ h # es" "del_keys x' = del_keys x @ key_for h # map key_for es"
        "set es \<subseteq> set hs - db_keys d" "set es \<inter> dom (claims fl1) = {}"
        "\<forall>h \<in> set es. claims fl' h = Some Delete" "fold (\<lambda>h fl. drop_claim fl h) es fl' = fl1"
        "\<forall>h. claims fl1 h \<noteq> None \<longrightarrow> claims fl' h = claims fl1 h"
        using Cons.IH [OF run] by (auto simp: hold_def queue_blob_def)
      have "fold (\<lambda>h fl. drop_claim fl h) (h # es) fl' = fl"
        using es(6) fold_drop_claim_commute [of es fl' h] drop_claim_delete [OF Inr] by simp
      then show ?thesis using es fl1 False by (intro exI [of _ "h # es"]) auto
    qed
  qed
qed auto

lemma await_alone [simp]: "await alone w = w\<lparr>w_awaits := Suc (w_awaits w)\<rparr>"
  by (simp add: await_def alone_def)

text \<open>
  The orphan sweep never deletes the blob of an object that has a row: after it, whether it
  succeeded or not, every row that had its blob still has it, the database is untouched, and
  every claim it took is released. A path claimed by an upload or another deletion is skipped.
\<close>

theorem sweep_spares_rows:
  assumes law: "s3_delete_law (sa_delete s3) present"
    and aborts: "\<And>s xs. present (sa_aborted s3 s xs) = present s"
    and run: "sweep alone clock s3 cfg w = Some (r, w')"
  shows "w_db w' = w_db w \<and> w_fl w' = w_fl w
    \<and> (\<forall>h. h \<in> db_keys (w_db w) \<or> is_claimed (w_fl w) h \<longrightarrow>
          key_for h \<in> present (w_s3 w) \<longrightarrow> key_for h \<in> present (w_s3 w'))"
proof -
  let ?grace = "gc_orphan_grace cfg"
  show ?thesis
  proof (cases "w_db w' = w_db w \<and> w_fl w' = w_fl w \<and> present (w_s3 w') = present (w_s3 w)")
    case True
    then show ?thesis by simp
  next
    case False
    obtain blobs aborted x fl r1 where
      co: "claim_orphans (w_db w) (orphan_hashes blobs (db_keys (w_db w)) (w_fl w) ?grace) no_deletion (w_fl w) = (x, fl)"
      and fd: "finish_deletion (sa_delete s3) x fl (sa_aborted s3 (w_s3 w) aborted) = (r1, w_fl w', w_s3 w')"
      and db: "w_db w' = w_db w"
      using run False aborts
      by (auto simp: sweep_def Let_def split: option.splits sum.splits prod.splits) blast+
    obtain es where es: "del_claims x = es" "del_keys x = map key_for es" "set es \<inter> db_keys (w_db w) = {}"
      "set es \<inter> dom (claims (w_fl w)) = {}" "fold (\<lambda>h fl. drop_claim fl h) es fl = w_fl w"
      using claim_orphans_spec [OF co] by (auto simp: no_deletion_def)
    obtain r0 s0 where del: "delete_objects (sa_delete s3) (sa_aborted s3 (w_s3 w) aborted) (del_keys x) = (r0, s0)"
      by fastforce
    have keep: "present (w_s3 w) - set (del_keys x) \<subseteq> present s0"
      using delete_batches_law [OF law, of 0 "chunks DELETE_BATCH (del_keys x)" "sa_aborted s3 (w_s3 w) aborted" r0 s0]
        del aborts by (simp add: delete_objects_def DELETE_BATCH_def)
    have w': "w_fl w' = release_claims x fl" "w_s3 w' = s0"
      using fd del by (auto simp: finish_deletion_def)
    have "key_for h \<in> present s0"
      if "h \<in> db_keys (w_db w) \<or> is_claimed (w_fl w) h" "key_for h \<in> present (w_s3 w)" for h
    proof -
      have "h \<notin> set es" using that(1) es(3,4) by (auto simp: is_claimed_def)
      then show ?thesis using keep that(2) es(2) by auto
    qed
    then show ?thesis using w' db es by (auto simp: release_claims_def)
  qed
qed

definition demo_admin :: "string set s3_admin" where
  "demo_admin =
     \<lparr>sa_list = (\<lambda>s tok. Some \<lparr>page_contents =
          [\<lparr>s3_key = Some (key_for ''orphan''), s3_last_modified = Some 0, s3_size = Some 1\<rparr>,
           \<lparr>s3_key = Some (key_for (rep_hash CHR ''d'')), s3_last_modified = Some 0, s3_size = Some 5\<rparr>],
          page_next_token = None\<rparr>),
      sa_mpus = (\<lambda>s m. Some \<lparr>mp_uploads = [], mp_truncated = None, mp_key_marker = None, mp_id_marker = None\<rparr>),
      sa_abort = (\<lambda>s x. True), sa_delete = set_del, sa_aborted = (\<lambda>s xs. s)\<rparr>"

theorem sweep_spares_rows_witness:
  "\<exists>w'. sweep alone (\<lambda>_. 1000000) demo_admin \<lparr>gc_high = 4, gc_low = 0, gc_orphan_grace = 86400\<rparr>
       (demo_world\<lparr>w_s3 := {key_for ''orphan'', key_for (rep_hash CHR ''d'')}\<rparr>) = Some (Inr 1, w')
     \<and> key_for (rep_hash CHR ''d'') \<in> w_s3 w' \<and> key_for ''orphan'' \<notin> w_s3 w'"
proof -
  let ?w = "demo_world\<lparr>w_s3 := {key_for ''orphan'', key_for (rep_hash CHR ''d'')}\<rparr>"
  let ?cfg = "\<lparr>gc_high = 4, gc_low = 0, gc_orphan_grace = 86400\<rparr>"
  have hf: "hash_for (key_for ''orphan'') = Some ''orphan''"
    "hash_for (key_for (rep_hash CHR ''d'')) = Some (rep_hash CHR ''d'')"
    by (simp_all add: hash_for_Some rep_hash_def)
  have "length (rep_hash CHR ''d'') \<noteq> length ''orphan''" by (simp add: rep_hash_def)
  then have ne: "rep_hash CHR ''d'' \<noteq> ''orphan''" by (metis)
  have k: "''locked'' \<noteq> key_for h" for h by (simp add: key_for_def)
  have run: "sweep alone (\<lambda>_. 1000000) demo_admin ?cfg ?w =
      Some (Inr 1, ?w\<lparr>w_awaits := 5, w_s3 := {key_for ''orphan'', key_for (rep_hash CHR ''d'')} - ({key_for ''orphan''} - {''locked''})\<rparr>)"
    using ne ne [symmetric] k
    by (simp add: sweep_def Let_def demo_admin_def demo_world_def list_blobs_def list_blobs_from.simps hf age_def
        abort_stale_multiparts_def abort_from.simps orphan_hashes_def is_claimed_def new_in_flight_def
        all_hashes_def one_object_db_def claim_delete_def take_claim_def exists_object_def find_row_def hold_def
        queue_blob_def no_deletion_def finish_deletion_def delete_objects_def chunks.simps DELETE_BATCH_def
        set_del_def real_errors_def release_claims_def drop_claim_def deletion_len_def db_keys_def)
  have law: "s3_delete_law (sa_delete demo_admin) id"
    by (auto simp: s3_delete_law_def demo_admin_def set_del_def real_errors_def)
  have "rep_hash CHR ''d'' \<in> db_keys (w_db ?w)"
    by (simp add: demo_world_def one_object_db_def db_keys_def)
  with sweep_spares_rows [OF law _ run] have "key_for (rep_hash CHR ''d'') \<in>
      {key_for ''orphan'', key_for (rep_hash CHR ''d'')} - ({key_for ''orphan''} - {''locked''})"
    by (simp add: demo_admin_def)
  then show ?thesis using run k by auto
qed

end
