(* ===== verification/Protocol.thy ===== *)
theory Protocol
  imports Gc
begin

text \<open>
  The protocol the Pusher's tasks follow, as an abstract specification, and what it means for a
  task to follow it. Rows and blobs live in different stores and no transaction spans both; what
  keeps a row from pointing at nothing is the order of the steps and the claims: an upload puts
  the blob before it inserts the row, a deletion removes the row before the blob, and each holds
  the path's claim from its first step to its last. \<^verbatim>\<open>verification/tla/GarretPush.tla\<close> in the
  repository explores the same protocol for small instances; here it is the specification the
  handlers' definitions refine, for any number of tasks and paths.

  A task's own place in the protocol is a phase per path it has claimed. The phases of the others
  are not visible to it, so a step is judged for every assignment of phases to their claims.
\<close>

section \<open>The protocol\<close>

datatype phase = UpClaimed | UpStored | DelClaimed | DelRowGone

fun kind_of :: "phase \<Rightarrow> kind" where
  "kind_of UpClaimed = Upload"
| "kind_of UpStored = Upload"
| "kind_of DelClaimed = Delete"
| "kind_of DelRowGone = Delete"

record proto =
  pt_rows :: "hash set"
  pt_blobs :: "hash set"
  pt_phase :: "hash \<rightharpoonup> phase"

inductive proto_step :: "proto \<Rightarrow> proto \<Rightarrow> bool" where
  take_path: "pt_phase p h = None \<Longrightarrow> ph = UpClaimed \<or> ph = DelClaimed \<Longrightarrow>
    proto_step p (p\<lparr>pt_phase := (pt_phase p)(h \<mapsto> ph)\<rparr>)"
| store: "pt_phase p h = Some ph \<Longrightarrow> kind_of ph = Upload \<Longrightarrow>
    proto_step p (p\<lparr>pt_blobs := insert h (pt_blobs p), pt_phase := (pt_phase p)(h \<mapsto> UpStored)\<rparr>)"
| insert_row: "pt_phase p h = Some UpStored \<Longrightarrow> proto_step p (p\<lparr>pt_rows := insert h (pt_rows p)\<rparr>)"
| row_gone: "pt_phase p h = Some ph \<Longrightarrow> kind_of ph = Delete \<Longrightarrow>
    proto_step p (p\<lparr>pt_rows := pt_rows p - {h}, pt_phase := (pt_phase p)(h \<mapsto> DelRowGone)\<rparr>)"
| blob_gone: "pt_phase p h = Some DelRowGone \<Longrightarrow> proto_step p (p\<lparr>pt_blobs := pt_blobs p - {h}\<rparr>)"
| release: "proto_step p (p\<lparr>pt_phase := (pt_phase p)(h := None)\<rparr>)"
| repair: "proto_step p (p\<lparr>pt_rows := pt_rows p - {h}\<rparr>)"

text \<open>Every row has its blob; what an upload stored is there; what a deletion removed has no row.\<close>

definition proto_inv :: "proto \<Rightarrow> bool" where
  "proto_inv p \<longleftrightarrow> pt_rows p \<subseteq> pt_blobs p
     \<and> (\<forall>h. pt_phase p h = Some UpStored \<longrightarrow> h \<in> pt_blobs p)
     \<and> (\<forall>h. pt_phase p h = Some DelRowGone \<longrightarrow> h \<notin> pt_rows p)"

lemma proto_inv_step: "proto_step p q \<Longrightarrow> proto_inv p \<Longrightarrow> proto_inv q"
  by (induction rule: proto_step.induct) (auto simp: proto_inv_def split: if_splits)

lemma proto_inv_steps: "proto_step\<^sup>*\<^sup>* p q \<Longrightarrow> proto_inv p \<Longrightarrow> proto_inv q"
  by (induction rule: rtranclp_induct) (auto intro: proto_inv_step)

text \<open>Steps on several paths, with the state spelt out.\<close>

abbreviation (input) at_state :: "hash set \<Rightarrow> hash set \<Rightarrow> (hash \<rightharpoonup> phase) \<Rightarrow> proto" where
  "at_state R B f \<equiv> \<lparr>pt_rows = R, pt_blobs = B, pt_phase = f\<rparr>"

lemma proto_steps_on:
  "f h = None \<Longrightarrow> ph = UpClaimed \<or> ph = DelClaimed \<Longrightarrow> proto_step (at_state R B f) (at_state R B (f(h \<mapsto> ph)))"
  "f h = Some ph \<Longrightarrow> kind_of ph = Upload \<Longrightarrow> proto_step (at_state R B f) (at_state R (insert h B) (f(h \<mapsto> UpStored)))"
  "f h = Some UpStored \<Longrightarrow> proto_step (at_state R B f) (at_state (insert h R) B f)"
  "f h = Some ph \<Longrightarrow> kind_of ph = Delete \<Longrightarrow> proto_step (at_state R B f) (at_state (R - {h}) B (f(h \<mapsto> DelRowGone)))"
  "f h = Some DelRowGone \<Longrightarrow> proto_step (at_state R B f) (at_state R (B - {h}) f)"
  "proto_step (at_state R B f) (at_state R B (f(h := None)))"
  "proto_step (at_state R B f) (at_state (R - {h}) B f)"
  using take_path [of "at_state R B f" h ph] store [of "at_state R B f" h ph] insert_row [of "at_state R B f" h]
    row_gone [of "at_state R B f" h ph] blob_gone [of "at_state R B f" h] release [of "at_state R B f" h]
    repair [of "at_state R B f" h]
  by simp_all

lemma rows_gone:
  "\<forall>h \<in> set hs. \<exists>ph. f h = Some ph \<and> kind_of ph = Delete \<Longrightarrow>
   proto_step\<^sup>*\<^sup>* (at_state R B f) (at_state (R - set hs) B (\<lambda>h. if h \<in> set hs then Some DelRowGone else f h))"
proof (induction hs arbitrary: R f)
  case (Cons h hs)
  have "proto_step (at_state R B f) (at_state (R - {h}) B (f(h \<mapsto> DelRowGone)))"
    using Cons.prems proto_steps_on(4) by auto
  also have "proto_step\<^sup>*\<^sup>* (at_state (R - {h}) B (f(h \<mapsto> DelRowGone)))
      (at_state (R - {h} - set hs) B (\<lambda>k. if k \<in> set hs then Some DelRowGone else (f(h \<mapsto> DelRowGone)) k))"
    using Cons.prems by (intro Cons.IH) auto
  also have "R - {h} - set hs = R - set (h # hs)" by auto
  also have "(\<lambda>k. if k \<in> set hs then Some DelRowGone else (f(h \<mapsto> DelRowGone)) k) =
      (\<lambda>k. if k \<in> set (h # hs) then Some DelRowGone else f k)" by auto
  finally show ?case .
qed simp

lemma blobs_gone:
  "finite H \<Longrightarrow> \<forall>h \<in> H. f h = Some DelRowGone \<Longrightarrow> proto_step\<^sup>*\<^sup>* (at_state R B f) (at_state R (B - H) f)"
proof (induction H arbitrary: B rule: finite_induct)
  case (insert h H)
  have "proto_step (at_state R B f) (at_state R (B - {h}) f)" using insert.prems proto_steps_on(5) by simp
  also have "proto_step\<^sup>*\<^sup>* (at_state R (B - {h}) f) (at_state R (B - {h} - H) f)" using insert.IH insert.prems by simp
  also have "B - {h} - H = B - insert h H" by auto
  finally show ?case .
qed simp

lemma all_released: "proto_step\<^sup>*\<^sup>* (at_state R B f) (at_state R B (\<lambda>h. if h \<in> set hs then None else f h))"
proof (induction hs arbitrary: f)
  case (Cons h hs)
  have "proto_step (at_state R B f) (at_state R B (f(h := None)))" by (rule proto_steps_on)
  also have "proto_step\<^sup>*\<^sup>* (at_state R B (f(h := None))) (at_state R B (\<lambda>k. if k \<in> set hs then None else (f(h := None)) k))"
    by (rule Cons.IH)
  also have "(\<lambda>k. if k \<in> set hs then None else (f(h := None)) k) = (\<lambda>k. if k \<in> set (h # hs) then None else f k)" by auto
  finally show ?case .
qed simp

lemma all_taken:
  "distinct hs \<Longrightarrow> \<forall>h \<in> set hs. f h = None \<Longrightarrow>
   proto_step\<^sup>*\<^sup>* (at_state R B f) (at_state R B (\<lambda>h. if h \<in> set hs then Some DelClaimed else f h))"
proof (induction hs arbitrary: f)
  case (Cons h hs)
  have "proto_step (at_state R B f) (at_state R B (f(h \<mapsto> DelClaimed)))" using Cons.prems proto_steps_on(1) by simp
  also have "proto_step\<^sup>*\<^sup>* (at_state R B (f(h \<mapsto> DelClaimed)))
      (at_state R B (\<lambda>k. if k \<in> set hs then Some DelClaimed else (f(h \<mapsto> DelClaimed)) k))"
    using Cons.prems by (intro Cons.IH) auto
  also have "(\<lambda>k. if k \<in> set hs then Some DelClaimed else (f(h \<mapsto> DelClaimed)) k) =
      (\<lambda>k. if k \<in> set (h # hs) then Some DelClaimed else f k)" by auto
  finally show ?case .
qed simp

lemma repaired: "finite H \<Longrightarrow> proto_step\<^sup>*\<^sup>* (at_state R B f) (at_state (R - H) B f)"
proof (induction H arbitrary: R rule: finite_induct)
  case (insert h H)
  have "proto_step (at_state R B f) (at_state (R - {h}) B f)" by (rule proto_steps_on)
  also have "proto_step\<^sup>*\<^sup>* (at_state (R - {h}) B f) (at_state (R - {h} - H) B f)" by (rule insert.IH)
  also have "R - {h} - H = R - insert h H" by auto
  finally show ?case .
qed simp

section \<open>Following the protocol\<close>

text \<open>
  The protocol's view of the world, given the phases; and that the phases are those of the
  claims, in a world whose database is consistent.
\<close>

definition view :: "('s \<Rightarrow> string set) \<Rightarrow> (hash \<rightharpoonup> phase) \<Rightarrow> 's world \<Rightarrow> proto" where
  "view present f w = at_state (db_keys (w_db w)) {h. key_for h \<in> present (w_s3 w)} f"

definition coupled :: "(hash \<rightharpoonup> phase) \<Rightarrow> 's world \<Rightarrow> bool" where
  "coupled f w \<longleftrightarrow> db_inv (w_db w) \<and> claims (w_fl w) = (\<lambda>h. map_option kind_of (f h))"

text \<open>
  \<open>follows M w M' w'\<close>: going from \<open>w\<close> to \<open>w'\<close>, with the task's own phases going from \<open>M\<close> to \<open>M'\<close>, is a
  sequence of protocol steps, whatever the others' phases \<open>f\<close> are, and whatever they become they
  stay apart from the task's own.
\<close>

definition follows :: "('s \<Rightarrow> string set) \<Rightarrow> (hash \<rightharpoonup> phase) \<Rightarrow> 's world \<Rightarrow> (hash \<rightharpoonup> phase) \<Rightarrow> 's world \<Rightarrow> bool" where
  "follows present M w M' w' \<longleftrightarrow> (\<forall>f. dom f \<inter> dom M = {} \<longrightarrow> coupled (f ++ M) w \<longrightarrow>
     (\<exists>f'. dom f' \<inter> dom M' = {} \<and> coupled (f' ++ M') w'
        \<and> proto_step\<^sup>*\<^sup>* (view present (f ++ M) w) (view present (f' ++ M') w')))"

lemma follows_refl [simp]: "follows present M w M w"
  by (auto simp: follows_def)

lemma follows_trans [trans]:
  assumes "follows present M w M1 w1" "follows present M1 w1 M2 w2"
  shows "follows present M w M2 w2"
  unfolding follows_def
proof (intro allI impI)
  fix f assume f: "dom f \<inter> dom M = {}" "coupled (f ++ M) w"
  obtain f1 where f1: "dom f1 \<inter> dom M1 = {}" "coupled (f1 ++ M1) w1"
      "proto_step\<^sup>*\<^sup>* (view present (f ++ M) w) (view present (f1 ++ M1) w1)"
    using assms(1) f unfolding follows_def by meson
  obtain f2 where f2: "dom f2 \<inter> dom M2 = {}" "coupled (f2 ++ M2) w2"
      "proto_step\<^sup>*\<^sup>* (view present (f1 ++ M1) w1) (view present (f2 ++ M2) w2)"
    using assms(2) f1(1,2) unfolding follows_def by meson
  show "\<exists>f'. dom f' \<inter> dom M2 = {} \<and> coupled (f' ++ M2) w2 \<and> proto_step\<^sup>*\<^sup>* (view present (f ++ M) w) (view present (f' ++ M2) w2)"
    using f2(1,2) rtranclp_trans [OF f1(3) f2(3)] by blast
qed

text \<open>The others' steps, whatever a task's own phases are, leave those alone.\<close>

definition participant :: "('s \<Rightarrow> string set) \<Rightarrow> 's env \<Rightarrow> bool" where
  "participant present env \<longleftrightarrow> (\<forall>k M w. follows present M w M (env k w))"

lemma view_awaits [simp]: "view present f (w\<lparr>w_awaits := n\<rparr>) = view present f w" "coupled f (w\<lparr>w_awaits := n\<rparr>) = coupled f w"
  "view present f (w\<lparr>w_slots := m\<rparr>) = view present f w" "coupled f (w\<lparr>w_slots := m\<rparr>) = coupled f w"
  by (simp_all add: view_def coupled_def)

lemma follows_await: "participant present env \<Longrightarrow> follows present M w M (await env w)"
  by (simp add: participant_def await_def follows_def)

lemma follows_slots [simp]: "follows present M w M (w\<lparr>w_slots := n\<rparr>)" "follows present M w M (w\<lparr>w_awaits := k\<rparr>)"
  by (auto simp: follows_def)

text \<open>A step of one's own leaves the others' phases as they are.\<close>

lemma follows_own:
  assumes "\<And>f. dom f \<inter> dom M = {} \<Longrightarrow> coupled (f ++ M) w \<Longrightarrow>
     dom f \<inter> dom M' = {} \<and> coupled (f ++ M') w' \<and> proto_step\<^sup>*\<^sup>* (view present (f ++ M) w) (view present (f ++ M') w')"
  shows "follows present M w M' w'"
  using assms unfolding follows_def by blast


lemma coupled_claim: "coupled (f ++ M) w \<Longrightarrow> claims (w_fl w) h = None \<Longrightarrow> M h = None \<and> f h = None"
  by (auto simp: coupled_def map_add_None)

text \<open>There are others' phases that fit: what can be assumed wherever a run is.\<close>

definition live :: "(hash \<rightharpoonup> phase) \<Rightarrow> 's world \<Rightarrow> bool" where
  "live M w \<longleftrightarrow> (\<exists>f. dom f \<inter> dom M = {} \<and> coupled (f ++ M) w)"

lemma liveD: "live M w \<Longrightarrow> db_inv (w_db w)" "live M w \<Longrightarrow> claims (w_fl w) h = None \<Longrightarrow> M h = None"
  by (auto simp: live_def coupled_def map_add_None)

lemma follows_live: "follows present M w M' w' \<Longrightarrow> live M w \<Longrightarrow> live M' w'"
  unfolding follows_def live_def by blast

lemma follows_if_live: "(live M w \<Longrightarrow> follows present M w M' w') \<Longrightarrow> follows present M w M' w'"
  unfolding follows_def live_def by blast

lemma finite_db_keys [simp]: "finite (db_keys d)"
  by (simp add: db_keys_def)

lemma follows_fewer_rows:
  assumes "db_inv (w_db w) \<Longrightarrow> db_inv d \<and> db_keys d \<subseteq> db_keys (w_db w)"
  shows "follows present M w M (w\<lparr>w_db := d\<rparr>)"
proof (rule follows_own, intro conjI)
  fix f assume c: "coupled (f ++ M) w"
  then have d: "db_inv d" "db_keys d \<subseteq> db_keys (w_db w)" using assms by (simp_all add: coupled_def)
  then show "coupled (f ++ M) (w\<lparr>w_db := d\<rparr>)" using c by (simp add: coupled_def)
  have "db_keys (w_db w) - (db_keys (w_db w) - db_keys d) = db_keys d" using d(2) by auto
  then show "proto_step\<^sup>*\<^sup>* (view present (f ++ M) w) (view present (f ++ M) (w\<lparr>w_db := d\<rparr>))"
    using repaired [of "db_keys (w_db w) - db_keys d" "db_keys (w_db w)"] by (simp add: view_def)
qed

lemma follows_rows_gone:
  assumes "\<forall>h \<in> set hs. \<exists>ph. M h = Some ph \<and> kind_of ph = Delete"
    and "db_inv (w_db w) \<Longrightarrow> db_inv d \<and> db_keys d = db_keys (w_db w) - set hs"
  shows "follows present M w (\<lambda>h. if h \<in> set hs then Some DelRowGone else M h) (w\<lparr>w_db := d\<rparr>)"
proof (rule follows_own)
  fix f assume f: "dom f \<inter> dom M = {}" "coupled (f ++ M) w"
  let ?M = "\<lambda>h. if h \<in> set hs then Some DelRowGone else M h"
  have d: "db_inv d" "db_keys d = db_keys (w_db w) - set hs" using assms(2) f(2) by (simp_all add: coupled_def)
  have add: "(\<lambda>h. if h \<in> set hs then Some DelRowGone else (f ++ M) h) = f ++ ?M"
    by (auto simp: fun_eq_iff map_add_def)
  have "set hs \<subseteq> dom M" using assms(1) by auto
  then have "dom ?M \<subseteq> dom M" by (auto split: if_splits)
  then have "dom f \<inter> dom ?M = {}" using f(1) by blast
  moreover have "\<forall>h \<in> set hs. \<exists>ph. (f ++ M) h = Some ph \<and> kind_of ph = Delete"
    using assms(1) by (metis map_add_find_right)
  then have "proto_step\<^sup>*\<^sup>* (view present (f ++ M) w) (view present (f ++ ?M) (w\<lparr>w_db := d\<rparr>))"
    using rows_gone [of hs "f ++ M" "db_keys (w_db w)"] by (simp add: view_def d(2) add)
  moreover have "coupled (f ++ ?M) (w\<lparr>w_db := d\<rparr>)"
    using f(2) assms(1) d(1) unfolding add [symmetric] coupled_def by (auto simp: fun_eq_iff map_add_find_right)
  ultimately show "dom f \<inter> dom ?M = {} \<and> coupled (f ++ ?M) (w\<lparr>w_db := d\<rparr>)
      \<and> proto_step\<^sup>*\<^sup>* (view present (f ++ M) w) (view present (f ++ ?M) (w\<lparr>w_db := d\<rparr>))" by blast
qed

lemma follows_gate: "claims fl = claims (w_fl w) \<Longrightarrow> follows present M w M (w\<lparr>w_fl := fl\<rparr>)"
  by (rule follows_own) (simp add: coupled_def view_def)

lemma follows_take:
  assumes "claims (w_fl w) h = None" and "claims fl = (claims (w_fl w))(h \<mapsto> kind_of ph)" and "ph = UpClaimed \<or> ph = DelClaimed"
  shows "follows present M w (M(h \<mapsto> ph)) (w\<lparr>w_fl := fl\<rparr>)"
proof (rule follows_own)
  fix f assume f: "dom f \<inter> dom M = {}" "coupled (f ++ M) w"
  have n: "f h = None" "M h = None" using coupled_claim [OF f(2) assms(1)] by auto
  have "proto_step (view present (f ++ M) w) (view present (f ++ M(h \<mapsto> ph)) (w\<lparr>w_fl := fl\<rparr>))"
    using proto_steps_on(1) [of "f ++ M" h ph] n assms(3) by (simp add: view_def map_add_None)
  moreover have "coupled (f ++ M(h \<mapsto> ph)) (w\<lparr>w_fl := fl\<rparr>)"
    using f(2) by (auto simp: coupled_def assms(2) fun_eq_iff)
  ultimately show "dom f \<inter> dom (M(h \<mapsto> ph)) = {} \<and> coupled (f ++ M(h \<mapsto> ph)) (w\<lparr>w_fl := fl\<rparr>)
      \<and> proto_step\<^sup>*\<^sup>* (view present (f ++ M) w) (view present (f ++ M(h \<mapsto> ph)) (w\<lparr>w_fl := fl\<rparr>))"
    using f(1) n by auto
qed

lemma follows_release:
  assumes "set hs \<subseteq> dom M" and "claims fl = (\<lambda>h. if h \<in> set hs then None else claims (w_fl w) h)"
  shows "follows present M w (\<lambda>h. if h \<in> set hs then None else M h) (w\<lparr>w_fl := fl\<rparr>)"
proof (rule follows_own)
  fix f assume f: "dom f \<inter> dom M = {}" "coupled (f ++ M) w"
  let ?M = "\<lambda>h. if h \<in> set hs then None else M h"
  have "f h = None" if "h \<in> set hs" for h using f(1) assms(1) that by blast
  then have add: "(\<lambda>h. if h \<in> set hs then None else (f ++ M) h) = f ++ ?M"
    by (auto simp: fun_eq_iff map_add_def)
  have "proto_step\<^sup>*\<^sup>* (view present (f ++ M) w) (view present (f ++ ?M) (w\<lparr>w_fl := fl\<rparr>))"
    using all_released [of _ _ "f ++ M" hs] by (simp add: view_def add)
  moreover have "coupled (f ++ ?M) (w\<lparr>w_fl := fl\<rparr>)"
    using f(2) unfolding add [symmetric] by (auto simp: coupled_def assms(2) fun_eq_iff)
  moreover have "dom f \<inter> dom ?M = {}" using f(1) by (auto split: if_splits)
  ultimately show "dom f \<inter> dom ?M = {} \<and> coupled (f ++ ?M) (w\<lparr>w_fl := fl\<rparr>)
      \<and> proto_step\<^sup>*\<^sup>* (view present (f ++ M) w) (view present (f ++ ?M) (w\<lparr>w_fl := fl\<rparr>))" by blast
qed

lemma follows_blobs_gone:
  assumes "\<And>h. key_for h \<in> set keys \<Longrightarrow> M h = Some DelRowGone"
    and "present (w_s3 w) - set keys \<subseteq> present s'" "present s' \<subseteq> present (w_s3 w)"
  shows "follows present M w M (w\<lparr>w_s3 := s'\<rparr>)"
proof (rule follows_own, intro conjI)
  let ?H = "{h. key_for h \<in> present (w_s3 w) - present s'}"
  have H: "\<And>h. h \<in> ?H \<Longrightarrow> M h = Some DelRowGone" using assms by blast
  have "finite (key_for -` set keys)" by (rule finite_vimageI) (auto intro: injI)
  then have fin: "finite ?H" by (rule rev_finite_subset) (use assms(2) in auto)
  have eq: "{h. key_for h \<in> present (w_s3 w)} - ?H = {h. key_for h \<in> present s'}" using assms(3) by auto
  fix f assume "coupled (f ++ M) w"
  then show "coupled (f ++ M) (w\<lparr>w_s3 := s'\<rparr>)" by (simp add: coupled_def)
  have "\<forall>h \<in> ?H. (f ++ M) h = Some DelRowGone" using H by (metis map_add_find_right)
  from blobs_gone [OF fin this, of "db_keys (w_db w)" "{h. key_for h \<in> present (w_s3 w)}", unfolded eq]
  show "proto_step\<^sup>*\<^sup>* (view present (f ++ M) w) (view present (f ++ M) (w\<lparr>w_s3 := s'\<rparr>))" by (simp add: view_def)
qed

lemma follows_same_blobs: "present s' = present (w_s3 w) \<Longrightarrow> follows present M w M (w\<lparr>w_s3 := s'\<rparr>)"
  by (rule follows_own) (simp add: coupled_def view_def)

lemma follows_store:
  assumes "M h = Some ph" "kind_of ph = Upload" and "present s' = insert (key_for h) (present (w_s3 w))"
  shows "follows present M w (M(h \<mapsto> UpStored)) (w\<lparr>w_s3 := s'\<rparr>)"
proof (rule follows_own)
  fix f assume f: "dom f \<inter> dom M = {}" "coupled (f ++ M) w"
  have "{k. key_for k \<in> present s'} = insert h {k. key_for k \<in> present (w_s3 w)}" using assms(3) by auto
  then have "proto_step (view present (f ++ M) w) (view present (f ++ M(h \<mapsto> UpStored)) (w\<lparr>w_s3 := s'\<rparr>))"
    using proto_steps_on(2) [of "f ++ M" h ph] assms(1,2) by (simp add: view_def map_add_find_right)
  moreover have "coupled (f ++ M(h \<mapsto> UpStored)) (w\<lparr>w_s3 := s'\<rparr>)"
    using f(2) assms(1,2) by (auto simp: coupled_def fun_eq_iff map_add_find_right)
  ultimately show "dom f \<inter> dom (M(h \<mapsto> UpStored)) = {} \<and> coupled (f ++ M(h \<mapsto> UpStored)) (w\<lparr>w_s3 := s'\<rparr>)
      \<and> proto_step\<^sup>*\<^sup>* (view present (f ++ M) w) (view present (f ++ M(h \<mapsto> UpStored)) (w\<lparr>w_s3 := s'\<rparr>))"
    using f(1) assms(1) by auto
qed

lemma follows_insert:
  assumes "M h = Some UpStored" "db_inv (w_db w) \<Longrightarrow> db_inv d \<and> db_keys d = insert h (db_keys (w_db w))"
  shows "follows present M w M (w\<lparr>w_db := d\<rparr>)"
proof (rule follows_own, intro conjI)
  fix f assume c: "coupled (f ++ M) w"
  then have d: "db_inv d" "db_keys d = insert h (db_keys (w_db w))" using assms(2) by (simp_all add: coupled_def)
  show "coupled (f ++ M) (w\<lparr>w_db := d\<rparr>)" using c d(1) by (simp add: coupled_def)
  show "proto_step\<^sup>*\<^sup>* (view present (f ++ M) w) (view present (f ++ M) (w\<lparr>w_db := d\<rparr>))"
    using proto_steps_on(3) [of "f ++ M" h] assms(1) d(2) by (simp add: view_def map_add_find_right r_into_rtranclp)
qed

lemma follows_take_all:
  assumes "distinct hs" "\<forall>h \<in> set hs. claims (w_fl w) h = None"
    and "claims fl = (\<lambda>h. if h \<in> set hs then Some Delete else claims (w_fl w) h)"
  shows "follows present M w (\<lambda>h. if h \<in> set hs then Some DelClaimed else M h) (w\<lparr>w_fl := fl\<rparr>)"
proof (rule follows_own)
  fix f assume f: "dom f \<inter> dom M = {}" "coupled (f ++ M) w"
  let ?M = "\<lambda>h. if h \<in> set hs then Some DelClaimed else M h"
  have n: "\<forall>h \<in> set hs. (f ++ M) h = None" "\<forall>h \<in> set hs. f h = None"
    using assms(2) f(2) by (auto simp: coupled_def map_add_None)
  have add: "(\<lambda>h. if h \<in> set hs then Some DelClaimed else (f ++ M) h) = f ++ ?M"
    by (auto simp: fun_eq_iff map_add_def)
  have "proto_step\<^sup>*\<^sup>* (view present (f ++ M) w) (view present (f ++ ?M) (w\<lparr>w_fl := fl\<rparr>))"
    using all_taken [OF assms(1) n(1)] by (simp add: view_def add)
  moreover have "coupled (f ++ ?M) (w\<lparr>w_fl := fl\<rparr>)"
    using f(2) unfolding add [symmetric] by (auto simp: coupled_def assms(3) fun_eq_iff)
  moreover have "dom f \<inter> dom ?M = {}" using f(1) n(2) by (auto split: if_splits)
  ultimately show "dom f \<inter> dom ?M = {} \<and> coupled (f ++ ?M) (w\<lparr>w_fl := fl\<rparr>)
      \<and> proto_step\<^sup>*\<^sup>* (view present (f ++ M) w) (view present (f ++ ?M) (w\<lparr>w_fl := fl\<rparr>))" by blast
qed

section \<open>Tasks\<close>

text \<open>The world is as the protocol leaves it: there are phases for the claims under which its invariant holds.\<close>

definition protocol_ok :: "('s \<Rightarrow> string set) \<Rightarrow> 's world \<Rightarrow> bool" where
  "protocol_ok present w \<longleftrightarrow> (\<exists>f. coupled f w \<and> proto_inv (view present f w))"

lemma protocol_ok_rows: "protocol_ok present w \<Longrightarrow> h \<in> db_keys (w_db w) \<Longrightarrow> key_for h \<in> present (w_s3 w)"
  by (auto simp: protocol_ok_def proto_inv_def view_def)

lemma protocol_ok_db: "protocol_ok present w \<Longrightarrow> db_inv (w_db w)"
  by (auto simp: protocol_ok_def coupled_def)

lemma protocol_ok_idle:
  "db_inv (w_db w) \<Longrightarrow> claims (w_fl w) = Map.empty \<Longrightarrow> \<forall>h \<in> db_keys (w_db w). key_for h \<in> present (w_s3 w) \<Longrightarrow> protocol_ok present w"
  unfolding protocol_ok_def by (rule exI [of _ Map.empty]) (auto simp: coupled_def proto_inv_def view_def)

lemma follows_ok: "follows present Map.empty w Map.empty w' \<Longrightarrow> protocol_ok present w \<Longrightarrow> protocol_ok present w'"
  unfolding follows_def protocol_ok_def using proto_inv_steps by fastforce

text \<open>
  The contract of a task: run among participants it is one itself, so tasks compose. From it
  follows that it keeps every row's blob, and that it may stand for the others of another task.
\<close>

locale task =
  fixes present :: "'s \<Rightarrow> string set" and pre :: bool and run :: "'s env \<Rightarrow> 's world \<Rightarrow> 's world option"
  assumes run_follows: "pre \<Longrightarrow> participant present env \<Longrightarrow> run env w = Some w' \<Longrightarrow> follows present M w M w'"
begin

lemma run_ok:
  assumes "pre" "participant present env" "protocol_ok present w" "run env w = Some w'"
  shows "protocol_ok present w' \<and> db_inv (w_db w') \<and> (\<forall>h \<in> db_keys (w_db w'). key_for h \<in> present (w_s3 w'))"
  using follows_ok [OF run_follows [OF assms(1,2,4)] assms(3)] protocol_ok_rows protocol_ok_db by blast

lemma run_participant:
  assumes "pre" "participant present env"
  shows "participant present (\<lambda>k w. case run env w of None \<Rightarrow> w | Some w' \<Rightarrow> w')"
  using run_follows [OF assms] by (auto simp: participant_def split: option.splits)

end

end
