(* ===== verification/Body_Reader.thy ===== *)
theory Body_Reader
  imports Storage
begin

text \<open>
  \<^verbatim>\<open>BodyReader\<close> of \<^verbatim>\<open>crates/garret-server/src/storage.rs\<close>: it reads any stream of body chunks and
  cuts it into parts, hashing and counting exactly what goes into them.

  A stream is polled. A poll that never returns is the outer \<^verbatim>\<open>None\<close>; of one that returns, \<^verbatim>\<open>None\<close>
  is the end of the body, and an item is a chunk, a read error, or silence past the idle timeout. \<^verbatim>\<open>Sha256\<close> is incremental, so the hasher's state is the bytes
  it was fed. A stream may never end, hence \<open>partial_function (option)\<close>; \<open>body_stream\<close> is the
  interface under which the loops are shown to return, for the raw request body here and for the
  verified one in theory \<open>Verify\<close>.
\<close>

section \<open>Reading\<close>

datatype body_item = Chunk bytes | Broken | Stalled

datatype put_error = ClientBodyError | BodyOverLimit | S3Failure | NothingInFlight

record 's reader =
  rd_body :: 's
  rd_carry :: "bytes option"
  rd_hashed :: bytes
  rd_received :: nat

definition new_reader :: "'s \<Rightarrow> 's reader" where
  "new_reader b = \<lparr>rd_body = b, rd_carry = None, rd_hashed = [], rd_received = 0\<rparr>"

text \<open>Silence past the idle timeout is the caller's error; a chunk's own error is passed on.\<close>

definition next_chunk ::
  "('s \<Rightarrow> (body_item option \<times> 's) option) \<Rightarrow> 's \<Rightarrow> ((put_error + body_item option) \<times> 's) option" where
  "next_chunk poll b =
     map_option (\<lambda>(item, b'). (if item = Some Stalled then Inl ClientBodyError else Inr item, b')) (poll b)"

definition reader_next ::
  "('s \<Rightarrow> (body_item option \<times> 's) option) \<Rightarrow> 's reader \<Rightarrow>
   ((put_error + bytes option) \<times> 's reader) option" where
  "reader_next poll rd =
     (case rd_carry rd of
        Some left \<Rightarrow> Some (Inr (Some left), rd\<lparr>rd_carry := None\<rparr>)
      | None \<Rightarrow> map_option (\<lambda>(r, b).
          (case r of
             Inl e \<Rightarrow> Inl e
           | Inr None \<Rightarrow> Inr None
           | Inr (Some (Chunk c)) \<Rightarrow> Inr (Some c)
           | Inr (Some _) \<Rightarrow> Inl ClientBodyError, rd\<lparr>rd_body := b\<rparr>)) (next_chunk poll (rd_body rd)))"

definition reader_append :: "'s reader \<Rightarrow> bytes \<Rightarrow> 's reader" where
  "reader_append rd bs =
     rd\<lparr>rd_hashed := rd_hashed rd @ bs, rd_received := rd_received rd + length bs\<rparr>"

partial_function (option) fill ::
  "('s \<Rightarrow> (body_item option \<times> 's) option) \<Rightarrow> nat \<Rightarrow> 's reader \<Rightarrow> bytes \<Rightarrow>
   ((put_error + bytes) \<times> 's reader) option" where
  "fill poll cap rd part =
     (if length part < cap then
        (case reader_next poll rd of
           None \<Rightarrow> None
         | Some x \<Rightarrow>
             (case x of (r, rd') \<Rightarrow>
                (case r of
                   Inl e \<Rightarrow> Some (Inl e, rd')
                 | Inr c \<Rightarrow>
                     (case c of
                        None \<Rightarrow> Some (Inr part, rd')
                      | Some chunk \<Rightarrow>
                          (let room = cap - length part in
                           if length chunk > room
                           then Some (Inr (part @ take room chunk),
                                  (reader_append rd' (take room chunk))\<lparr>rd_carry := Some (drop room chunk)\<rparr>)
                           else fill poll cap (reader_append rd' chunk) (part @ chunk))))))
      else Some (Inr part, rd))"

partial_function (option) has_more ::
  "('s \<Rightarrow> (body_item option \<times> 's) option) \<Rightarrow> 's reader \<Rightarrow> ((put_error + bool) \<times> 's reader) option" where
  "has_more poll rd =
     (case reader_next poll rd of
        None \<Rightarrow> None
      | Some x \<Rightarrow>
          (case x of (r, rd') \<Rightarrow>
             (case r of
                Inl e \<Rightarrow> Some (Inl e, rd')
              | Inr c \<Rightarrow>
                  (case c of
                     None \<Rightarrow> Some (Inr False, rd')
                   | Some chunk \<Rightarrow>
                       if chunk \<noteq> [] then Some (Inr True, rd'\<lparr>rd_carry := Some chunk\<rparr>)
                       else has_more poll rd'))))"

definition reader_finish :: "(bytes \<Rightarrow> bytes) \<Rightarrow> 's reader \<Rightarrow> bytes \<times> nat" where
  "reader_finish sha256 rd = (sha256 (rd_hashed rd), rd_received rd)"

section \<open>Interface: a stream that ends\<close>

text \<open>The bytes before the first item that is not a chunk, and whether there is none.\<close>

fun lead :: "body_item list \<Rightarrow> bytes" where
  "lead (Chunk c # xs) = c @ lead xs"
| "lead _ = []"

fun clean :: "body_item list \<Rightarrow> bool" where
  "clean [] = True"
| "clean (Chunk c # xs) = clean xs"
| "clean _ = False"

text \<open>
  A live stream answers every poll: \<open>items\<close> is what it will yield, \<open>ended\<close> what is known once it
  has said \<^verbatim>\<open>None\<close>. Nothing is promised after an error, since no reader polls again.
\<close>

locale body_stream =
  fixes poll :: "'s \<Rightarrow> (body_item option \<times> 's) option"
    and items :: "'s \<Rightarrow> body_item list"
    and ended :: "'s \<Rightarrow> bool"
    and live :: "'s \<Rightarrow> bool"
  assumes poll_end: "live b \<Longrightarrow> items b = [] \<Longrightarrow>
        \<exists>b'. poll b = Some (None, b') \<and> items b' = [] \<and> ended b' \<and> live b'"
    and poll_chunk: "live b \<Longrightarrow> items b = Chunk c # xs \<Longrightarrow>
        \<exists>b'. poll b = Some (Some (Chunk c), b') \<and> items b' = xs \<and> live b'"
    and poll_error: "live b \<Longrightarrow> items b = x # xs \<Longrightarrow> x = Broken \<or> x = Stalled \<Longrightarrow>
        \<exists>b'. poll b = Some (Some x, b')"
begin

text \<open>What the reader has still to deliver.\<close>

definition pend :: "'s reader \<Rightarrow> bytes" where
  "pend rd = (case rd_carry rd of None \<Rightarrow> [] | Some c \<Rightarrow> c) @ lead (items (rd_body rd))"

definition sound :: "'s reader \<Rightarrow> bool" where
  "sound rd = clean (items (rd_body rd))"

definition left :: "'s reader \<Rightarrow> nat" where
  "left rd = (case rd_carry rd of None \<Rightarrow> 0 | Some c \<Rightarrow> 1) + length (items (rd_body rd))"

lemma next_cases:
  assumes "live (rd_body rd)"
  obtains (Got) c rd' where "reader_next poll rd = Some (Inr (Some c), rd')" "pend rd = c @ pend rd'"
      "sound rd' = sound rd" "left rd' < left rd" "rd_carry rd' = None" "rd_hashed rd' = rd_hashed rd"
      "rd_received rd' = rd_received rd" "live (rd_body rd')"
  | (End) rd' where "reader_next poll rd = Some (Inr None, rd')" "pend rd = []" "sound rd" "ended (rd_body rd')"
      "pend rd' = []" "sound rd'" "rd_carry rd' = None" "rd_hashed rd' = rd_hashed rd"
      "rd_received rd' = rd_received rd" "live (rd_body rd')"
  | (Error) rd' where "reader_next poll rd = Some (Inl ClientBodyError, rd')" "pend rd = []" "\<not> sound rd"
proof (cases "rd_carry rd")
  case (Some c)
  then show ?thesis using assms
    by (intro Got [of c "rd\<lparr>rd_carry := None\<rparr>"]) (auto simp: reader_next_def pend_def sound_def left_def)
next
  case None
  show ?thesis
  proof (cases "items (rd_body rd)")
    case Nil
    then obtain b where "poll (rd_body rd) = Some (None, b)" "items b = []" "ended b" "live b"
      using poll_end assms by blast
    then show ?thesis using None Nil
      by (intro End [of "rd\<lparr>rd_body := b\<rparr>"]) (auto simp: reader_next_def next_chunk_def pend_def sound_def)
  next
    case (Cons x xs)
    show ?thesis
    proof (cases x)
      case (Chunk c)
      then obtain b where "poll (rd_body rd) = Some (Some (Chunk c), b)" "items b = xs" "live b"
        using poll_chunk assms Cons by blast
      then show ?thesis using None Cons Chunk
        by (intro Got [of c "rd\<lparr>rd_body := b\<rparr>"])
          (auto simp: reader_next_def next_chunk_def pend_def sound_def left_def)
    next
      case Broken
      then obtain b where "poll (rd_body rd) = Some (Some x, b)" using poll_error assms Cons by blast
      then show ?thesis using None Cons Broken
        by (intro Error [of "rd\<lparr>rd_body := b\<rparr>"]) (auto simp: reader_next_def next_chunk_def pend_def sound_def)
    next
      case Stalled
      then obtain b where "poll (rd_body rd) = Some (Some x, b)" using poll_error assms Cons by blast
      then show ?thesis using None Cons Stalled
        by (intro Error [of "rd\<lparr>rd_body := b\<rparr>"]) (auto simp: reader_next_def next_chunk_def pend_def sound_def)
    qed
  qed
qed

lemma pend_append [simp]:
  "pend (reader_append rd bs) = pend rd" "sound (reader_append rd bs) = sound rd"
  "left (reader_append rd bs) = left rd" "rd_body (reader_append rd bs) = rd_body rd"
  "rd_hashed (reader_append rd bs) = rd_hashed rd @ bs"
  "rd_received (reader_append rd bs) = rd_received rd + length bs"
  "rd_carry (reader_append rd bs) = rd_carry rd"
  by (simp_all add: reader_append_def pend_def sound_def left_def)

text \<open>
  Filling takes exactly the next bytes up to the capacity; when the body ends first, the end has
  been seen; when it breaks first, the error surfaces. It always returns.
\<close>

definition filled :: "'s reader \<Rightarrow> bytes \<Rightarrow> nat \<Rightarrow> put_error + bytes \<Rightarrow> 's reader \<Rightarrow> bool" where
  "filled rd part cap r rd' \<longleftrightarrow>
     (let n = cap - length part in
      if n \<le> length (pend rd) then
        r = Inr (part @ take n (pend rd)) \<and> pend rd' = drop n (pend rd) \<and> sound rd' = sound rd \<and> live (rd_body rd')
      \<and> rd_hashed rd' = rd_hashed rd @ take n (pend rd) \<and> rd_received rd' = rd_received rd + n
      else if sound rd then
        r = Inr (part @ pend rd) \<and> pend rd' = [] \<and> sound rd' \<and> ended (rd_body rd') \<and> live (rd_body rd')
      \<and> rd_hashed rd' = rd_hashed rd @ pend rd \<and> rd_received rd' = rd_received rd + length (pend rd)
      else r = Inl ClientBodyError)"

lemma fill_returns:
  "live (rd_body rd) \<Longrightarrow> length part \<le> cap \<Longrightarrow> \<exists>r rd'. fill poll cap rd part = Some (r, rd') \<and> filled rd part cap r rd'"
proof (induction "left rd" arbitrary: rd part rule: less_induct)
  case less
  show ?case
  proof (cases "length part < cap")
    case False
    then show ?thesis using less.prems by (simp add: fill.simps [of _ cap rd part] filled_def)
  next
    case True
    show ?thesis
    proof (cases rule: next_cases [OF less.prems(1), case_names Got End Error])
      case (Got c rd')
      show ?thesis
      proof (cases "length c > cap - length part")
        case split: True
        let ?n = "cap - length part"
        let ?rd = "(reader_append rd' (take ?n c))\<lparr>rd_carry := Some (drop ?n c)\<rparr>"
        have "fill poll cap rd part = Some (Inr (part @ take ?n c), ?rd)"
          using True split Got(1) by (simp add: fill.simps [of _ cap rd part] Let_def)
        moreover have "pend ?rd = drop ?n c @ pend rd'" "sound ?rd = sound rd'"
          using Got(5) by (simp_all add: pend_def sound_def)
        ultimately show ?thesis using True split Got by (auto simp: filled_def Let_def min_def)
      next
        case False
        have le: "length (part @ c) \<le> cap" using False True by simp
        have "fill poll cap rd part = fill poll cap (reader_append rd' c) (part @ c)"
          using True False Got(1) by (simp add: fill.simps [of _ cap rd part] Let_def)
        moreover obtain r rd'' where "fill poll cap (reader_append rd' c) (part @ c) = Some (r, rd'')"
          "filled (reader_append rd' c) (part @ c) cap r rd''"
          using less.hyps [of "reader_append rd' c" "part @ c"] Got(4,8) le by auto
        ultimately show ?thesis using Got False True by (auto simp: filled_def Let_def split: if_splits)
      qed
    next
      case (End rd')
      then show ?thesis using True by (simp add: fill.simps [of _ cap rd part] filled_def)
    next
      case (Error rd')
      then show ?thesis using True by (simp add: fill.simps [of _ cap rd part] filled_def)
    qed
  qed
qed

lemma has_more_returns:
  "live (rd_body rd) \<Longrightarrow> \<exists>r rd'. has_more poll rd = Some (r, rd') \<and>
     (if pend rd \<noteq> [] then r = Inr True
      else if sound rd then r = Inr False \<and> ended (rd_body rd') \<and> rd_hashed rd' = rd_hashed rd
             \<and> rd_received rd' = rd_received rd
      else r = Inl ClientBodyError)"
proof (induction "left rd" arbitrary: rd rule: less_induct)
  case less
  show ?case
  proof (cases rule: next_cases [OF less.prems, case_names Got End Error])
    case (Got c rd')
    show ?thesis
    proof (cases "c = []")
      case True
      then have "has_more poll rd = has_more poll rd'" using Got(1) by (simp add: has_more.simps [of _ rd])
      moreover have "pend rd = pend rd'" using Got(2) True by simp
      ultimately show ?thesis using less(1) [OF Got(4,8)] unfolding Got(3,6,7) by simp
    next
      case False
      then show ?thesis using Got by (simp add: has_more.simps [of _ rd])
    qed
  next
    case (End rd')
    then show ?thesis by (simp add: has_more.simps [of _ rd])
  next
    case (Error rd')
    then show ?thesis by (simp add: has_more.simps [of _ rd])
  qed
qed

end

section \<open>The raw request body\<close>

definition poll_list :: "body_item list \<Rightarrow> (body_item option \<times> body_item list) option" where
  "poll_list xs = Some (case xs of [] \<Rightarrow> (None, []) | x # r \<Rightarrow> (Some x, r))"

interpretation raw_body: body_stream poll_list id "\<lambda>b. b = []" "\<lambda>_. True"
  by unfold_locales (auto simp: poll_list_def)

end
