(* ===== verification/Upload_Stream.thy ===== *)
theory Upload_Stream
  imports Body_Reader
begin

text \<open>
  \<^verbatim>\<open>Storage::put_streaming\<close> and \<^verbatim>\<open>multipart_body\<close> of \<^verbatim>\<open>crates/garret-server/src/storage.rs\<close>: one
  \<^verbatim>\<open>PutObject\<close> for a body that fits a part, a multipart upload otherwise.

  S3's requests are the fields of \<open>s3_api\<close>, functions on the service's state. Part uploads run on
  their own tasks and finish in any order: the parameter \<open>pick\<close> chooses which one the next
  \<^verbatim>\<open>join_next\<close> yields, and the theorems hold for every choice. A part's request takes effect when it
  is collected; \<open>s3_upload_law\<close> says that it is invisible until the upload is completed. Permits
  only delay (theory \<open>Storage\<close> has their accounting), so they do not occur here.
\<close>

section \<open>The upload\<close>

record 's s3_api =
  api_put :: "'s \<Rightarrow> string \<Rightarrow> bytes \<Rightarrow> bool \<times> 's"
  api_create :: "'s \<Rightarrow> string \<Rightarrow> string option \<times> 's"
  api_part :: "'s \<Rightarrow> string \<Rightarrow> string \<Rightarrow> nat \<Rightarrow> bytes \<Rightarrow> string option option \<times> 's"
  api_complete :: "'s \<Rightarrow> string \<Rightarrow> string \<Rightarrow> (nat \<times> string option) list \<Rightarrow> bool \<times> 's"
  api_abort :: "'s \<Rightarrow> string \<Rightarrow> string \<Rightarrow> bool \<times> 's"

type_synonym part_task = "nat \<times> bytes"
type_synonym completed_part = "nat \<times> string option"

definition put :: "'s s3_api \<Rightarrow> 's \<Rightarrow> string \<Rightarrow> bytes \<Rightarrow> (put_error + unit) \<times> 's" where
  "put api s key body =
     (case api_put api s key body of (ok, s') \<Rightarrow> (if ok then Inr () else Inl S3Failure, s'))"

definition upload_part ::
  "'s s3_api \<Rightarrow> 's \<Rightarrow> string \<Rightarrow> string \<Rightarrow> part_task \<Rightarrow> (put_error + completed_part) \<times> 's" where
  "upload_part api s key i t =
     (case api_part api s key i (fst t) (snd t) of
        (None, s') \<Rightarrow> (Inl S3Failure, s')
      | (Some etag, s') \<Rightarrow> (Inr (fst t, etag), s'))"

definition collect_part ::
  "'s s3_api \<Rightarrow> nat \<Rightarrow> string \<Rightarrow> string \<Rightarrow> part_task list \<Rightarrow> 's \<Rightarrow>
   (put_error + completed_part) \<times> part_task list \<times> 's" where
  "collect_part api choice key i tasks s =
     (if tasks = [] then (Inl NothingInFlight, [], s)
      else (let j = choice mod length tasks in
        case upload_part api s key i (tasks ! j) of (r, s') \<Rightarrow>
          (r, take j tasks @ drop (Suc j) tasks, s')))"

text \<open>\<^verbatim>\<open>while in_flight.len() >= bound\<close>, and with bound 1 \<^verbatim>\<open>while !in_flight.is_empty()\<close>.\<close>

function collect_down ::
  "'s s3_api \<Rightarrow> (nat \<Rightarrow> nat) \<Rightarrow> string \<Rightarrow> string \<Rightarrow> nat \<Rightarrow> completed_part list \<Rightarrow> part_task list \<Rightarrow> 's \<Rightarrow>
   (put_error + completed_part list \<times> part_task list) \<times> 's" where
  "collect_down api pick key i bound completed tasks s =
     (if length tasks < bound then (Inr (completed, tasks), s)
      else (case collect_part api (pick (length completed)) key i tasks s of
              (Inl e, rest, s') \<Rightarrow> (Inl e, s')
            | (Inr c, rest, s') \<Rightarrow> collect_down api pick key i bound (completed @ [c]) rest s'))"
  by pat_completeness auto

lemma collect_part_shorter:
  "collect_part api choice key i tasks s = (Inr c, rest, s') \<Longrightarrow> length rest < length tasks"
proof -
  assume run: "collect_part api choice key i tasks s = (Inr c, rest, s')"
  then have "tasks \<noteq> []" by (auto simp: collect_part_def)
  moreover from this have "choice mod length tasks < length tasks" by simp
  then have "length (take (choice mod length tasks) tasks @ drop (Suc (choice mod length tasks)) tasks)
      < length tasks" unfolding length_append length_take length_drop by linarith
  ultimately show ?thesis using run by (auto simp: collect_part_def Let_def split: prod.splits)
qed

termination collect_down
  by (relation "measure (\<lambda>(api, pick, key, i, bound, completed, tasks, s). length tasks)")
    (auto dest: sym collect_part_shorter)

declare collect_down.simps [simp del]

partial_function (option) multipart_loop ::
  "'s s3_api \<Rightarrow> (nat \<Rightarrow> nat) \<Rightarrow> ('b \<Rightarrow> (body_item option \<times> 'b) option) \<Rightarrow> upload_limits \<Rightarrow> string \<Rightarrow> string \<Rightarrow>
   completed_part list \<Rightarrow> nat \<Rightarrow> part_task list \<Rightarrow> 'b reader \<Rightarrow> 's \<Rightarrow>
   ((put_error + completed_part list \<times> part_task list) \<times> 'b reader \<times> 's) option" where
  "multipart_loop api pick poll l key i completed part_number tasks rd s =
     (case collect_down api pick key i (max_parts_in_flight l) completed tasks s of (r, s1) \<Rightarrow>
        (case r of
           Inl e \<Rightarrow> Some (Inl e, rd, s1)
         | Inr ct \<Rightarrow>
             (case ct of (completed1, tasks1) \<Rightarrow>
                (case fill poll (part_size l) rd [] of
                   None \<Rightarrow> None
                 | Some x \<Rightarrow>
                     (case x of (r, rd1) \<Rightarrow>
                        (case r of
                           Inl e \<Rightarrow> Some (Inl e, rd1, s1)
                         | Inr part \<Rightarrow>
                             if part = [] then Some (Inr (completed1, tasks1), rd1, s1)
                             else if length part < part_size l
                             then Some (Inr (completed1, tasks1 @ [(part_number + 1, part)]), rd1, s1)
                             else multipart_loop api pick poll l key i completed1 (part_number + 1)
                                    (tasks1 @ [(part_number + 1, part)]) rd1 s1))))))"

definition multipart_body ::
  "'s s3_api \<Rightarrow> (nat \<Rightarrow> nat) \<Rightarrow> ('b \<Rightarrow> (body_item option \<times> 'b) option) \<Rightarrow> upload_limits \<Rightarrow> string \<Rightarrow> string \<Rightarrow>
   part_task list \<Rightarrow> 'b reader \<Rightarrow> 's \<Rightarrow> ((put_error + unit) \<times> 'b reader \<times> 's) option" where
  "multipart_body api pick poll l key i tasks rd s =
     (case multipart_loop api pick poll l key i [] 1 tasks rd s of
        None \<Rightarrow> None
      | Some (Inl e, rd1, s1) \<Rightarrow> Some (Inl e, rd1, s1)
      | Some (Inr (completed, tasks1), rd1, s1) \<Rightarrow>
          (case collect_down api pick key i 1 completed tasks1 s1 of
             (Inl e, s2) \<Rightarrow> Some (Inl e, rd1, s2)
           | (Inr (completed2, _), s2) \<Rightarrow>
               (case api_complete api s2 key i (sort_key fst completed2) of (ok, s3) \<Rightarrow>
                  Some (if ok then Inr () else Inl S3Failure, rd1, s3))))"

text \<open>The rest of \<^verbatim>\<open>put_streaming\<close> once the first part is read.\<close>

definition store_first ::
  "(bytes \<Rightarrow> bytes) \<Rightarrow> 's s3_api \<Rightarrow> (nat \<Rightarrow> nat) \<Rightarrow> ('b \<Rightarrow> (body_item option \<times> 'b) option) \<Rightarrow> upload_limits \<Rightarrow>
   string \<Rightarrow> bytes \<Rightarrow> 'b reader \<Rightarrow> 's \<Rightarrow> ((put_error + bytes \<times> nat) \<times> 'b reader \<times> 's) option" where
  "store_first sha256 api pick poll l key fst_part rd s =
     (if length fst_part < part_size l then
        (case put api s key fst_part of
           (Inl e, s') \<Rightarrow> Some (Inl e, rd, s')
         | (Inr _, s') \<Rightarrow> Some (Inr (reader_finish sha256 rd), rd, s'))
      else
        (case api_create api s key of
           (None, s') \<Rightarrow> Some (Inl S3Failure, rd, s')
         | (Some i, s') \<Rightarrow>
             (case multipart_body api pick poll l key i [(1, fst_part)] rd s' of
                None \<Rightarrow> None
              | Some (Inr _, rd', s'') \<Rightarrow> Some (Inr (reader_finish sha256 rd'), rd', s'')
              | Some (Inl e, rd', s'') \<Rightarrow> Some (Inl e, rd', snd (api_abort api s'' key i)))))"

definition put_streaming ::
  "(bytes \<Rightarrow> bytes) \<Rightarrow> 's s3_api \<Rightarrow> (nat \<Rightarrow> nat) \<Rightarrow> ('b \<Rightarrow> (body_item option \<times> 'b) option) \<Rightarrow> upload_limits \<Rightarrow>
   string \<Rightarrow> 'b \<Rightarrow> nat \<Rightarrow> 's \<Rightarrow> ((put_error + bytes \<times> nat) \<times> 'b reader \<times> 's) option" where
  "put_streaming sha256 api pick poll l key body first_part_hint s =
     (let reserve = clamp 1 (part_size l) first_part_hint in
      case fill poll reserve (new_reader body) [] of
        None \<Rightarrow> None
      | Some (Inl e, rd) \<Rightarrow> Some (Inl e, rd, s)
      | Some (Inr fst_part, rd) \<Rightarrow>
          if length fst_part = reserve \<and> reserve < part_size l then
            (case has_more poll rd of
               None \<Rightarrow> None
             | Some (Inl e, rd') \<Rightarrow> Some (Inl e, rd', s)
             | Some (Inr True, rd') \<Rightarrow> Some (Inl BodyOverLimit, rd', s)
             | Some (Inr False, rd') \<Rightarrow> store_first sha256 api pick poll l key fst_part rd' s)
          else store_first sha256 api pick poll l key fst_part rd s)"

section \<open>What S3 documents\<close>

text \<open>
  \<open>get\<close> is what a read of a key returns, \<open>parts\<close> what an unfinished upload holds. A \<^verbatim>\<open>PutObject\<close>
  or \<^verbatim>\<open>CompleteMultipartUpload\<close> is atomic on its key, though a failed one may have taken effect;
  nothing else is visible to reads; a completed object is its parts in the order listed.
\<close>

definition s3_upload_law ::
  "'s s3_api \<Rightarrow> ('s \<Rightarrow> string \<rightharpoonup> bytes) \<Rightarrow> ('s \<Rightarrow> string \<Rightarrow> string \<Rightarrow> nat \<rightharpoonup> bytes) \<Rightarrow> bool" where
  "s3_upload_law api get parts \<longleftrightarrow>
     (\<forall>s k b ok s'. api_put api s k b = (ok, s') \<longrightarrow>
        get s' = (get s)(k \<mapsto> b) \<or> \<not> ok \<and> get s' = get s)
   \<and> (\<forall>s k r s'. api_create api s k = (r, s') \<longrightarrow> get s' = get s)
   \<and> (\<forall>s k i n b r s'. api_part api s k i n b = (r, s') \<longrightarrow>
        get s' = get s \<and> (\<forall>m. m \<noteq> n \<longrightarrow> parts s' k i m = parts s k i m)
      \<and> (r \<noteq> None \<longrightarrow> parts s' k i n = Some b))
   \<and> (\<forall>s k i cs ok s'. api_complete api s k i cs = (ok, s') \<longrightarrow>
        sorted_wrt (<) (map fst cs) \<longrightarrow> (\<forall>c \<in> set cs. parts s k i (fst c) \<noteq> None) \<longrightarrow>
        get s' = (get s)(k \<mapsto> concat (map (\<lambda>c. the (parts s k i (fst c))) cs)) \<or> \<not> ok \<and> get s' = get s)
   \<and> (\<forall>s k i ok s'. api_abort api s k i = (ok, s') \<longrightarrow> get s' = get s)"

lemma s3_lawD:
  assumes "s3_upload_law api get parts"
  shows "api_put api s k b = (ok, s') \<Longrightarrow> get s' = (get s)(k \<mapsto> b) \<or> \<not> ok \<and> get s' = get s"
    and "api_create api s k = (r, s') \<Longrightarrow> get s' = get s"
    and "api_part api s k i n b = (t, s') \<Longrightarrow>
           get s' = get s \<and> (\<forall>m. m \<noteq> n \<longrightarrow> parts s' k i m = parts s k i m) \<and> (t \<noteq> None \<longrightarrow> parts s' k i n = Some b)"
    and "api_complete api s k i cs = (ok, s') \<Longrightarrow> sorted_wrt (<) (map fst cs) \<Longrightarrow>
         (\<forall>c \<in> set cs. parts s k i (fst c) \<noteq> None) \<Longrightarrow>
         get s' = (get s)(k \<mapsto> concat (map (\<lambda>c. the (parts s k i (fst c))) cs)) \<or> \<not> ok \<and> get s' = get s"
    and "api_abort api s k i = (ok, s') \<Longrightarrow> get s' = get s"
proof -
  note law = assms [unfolded s3_upload_law_def]
  note put = law [THEN conjunct1] and law1 = law [THEN conjunct2]
  note create = law1 [THEN conjunct1] and law2 = law1 [THEN conjunct2]
  note part = law2 [THEN conjunct1] and law3 = law2 [THEN conjunct2]
  note complete = law3 [THEN conjunct1] and abort = law3 [THEN conjunct2]
  show "api_put api s k b = (ok, s') \<Longrightarrow> get s' = (get s)(k \<mapsto> b) \<or> \<not> ok \<and> get s' = get s"
    by (rule put [rule_format])
  show "api_create api s k = (r, s') \<Longrightarrow> get s' = get s" by (rule create [rule_format])
  show "api_part api s k i n b = (t, s') \<Longrightarrow>
      get s' = get s \<and> (\<forall>m. m \<noteq> n \<longrightarrow> parts s' k i m = parts s k i m) \<and> (t \<noteq> None \<longrightarrow> parts s' k i n = Some b)"
    by (rule part [THEN spec, THEN spec, THEN spec, THEN spec, THEN spec, THEN spec, THEN spec, THEN mp])
  show "api_complete api s k i cs = (ok, s') \<Longrightarrow> sorted_wrt (<) (map fst cs) \<Longrightarrow>
      (\<forall>c \<in> set cs. parts s k i (fst c) \<noteq> None) \<Longrightarrow>
      get s' = (get s)(k \<mapsto> concat (map (\<lambda>c. the (parts s k i (fst c))) cs)) \<or> \<not> ok \<and> get s' = get s"
    using complete by blast
  show "api_abort api s k i = (ok, s') \<Longrightarrow> get s' = get s" by (rule abort [rule_format])
qed

section \<open>Parts in flight\<close>

text \<open>\<open>P\<close> lists the part bodies cut so far; every one is completed or in flight, exactly once.\<close>

definition parts_inv ::
  "(nat \<rightharpoonup> bytes) \<Rightarrow> bytes list \<Rightarrow> completed_part list \<Rightarrow> part_task list \<Rightarrow> bool" where
  "parts_inv held P completed tasks \<longleftrightarrow>
     mset (map fst completed @ map fst tasks) = mset [1..<Suc (length P)]
   \<and> (\<forall>t \<in> set tasks. snd t = P ! (fst t - 1))
   \<and> (\<forall>c \<in> set completed. held (fst c) = Some (P ! (fst c - 1)))"

lemma mset_remove_nth: "j < length xs \<Longrightarrow> mset xs = add_mset (xs ! j) (mset (take j xs @ drop (Suc j) xs))"
  by (metis id_take_nth_drop mset.simps(2) mset_append union_mset_add_mset_right append_Cons)

lemma collect_part_inv:
  assumes law: "s3_upload_law api get parts" and inv: "parts_inv (parts s key i) P completed tasks"
    and run: "collect_part api choice key i tasks s = (r, rest, s')"
  shows "get s' = get s \<and> (\<forall>c. r = Inr c \<longrightarrow>
           parts_inv (parts s' key i) P (completed @ [c]) rest \<and> length rest < length tasks)"
proof (cases "tasks = []")
  case True
  then show ?thesis using run by (auto simp: collect_part_def)
next
  case False
  define j where "j = choice mod length tasks"
  have j: "j < length tasks" using False by (simp add: j_def)
  obtain n b where t: "tasks ! j = (n, b)" by fastforce
  obtain t' where part: "api_part api s key i n b = (t', s')"
    and r: "r = (case t' of None \<Rightarrow> Inl S3Failure | Some e \<Rightarrow> Inr (n, e))"
    and rest: "rest = take j tasks @ drop (Suc j) tasks"
    using run False t
    by (auto simp: collect_part_def upload_part_def Let_def j_def [symmetric] split: prod.splits option.splits)
  note law' = s3_lawD(3) [OF law part]
  have ms: "mset tasks = add_mset (n, b) (mset rest)" using mset_remove_nth [OF j] t rest by simp
  then have sub: "set rest \<subseteq> set tasks" "(n, b) \<in> set tasks"
    by (metis set_mset_mset set_mset_add_mset_insert subset_insertI) (metis insertI1 set_mset_mset set_mset_add_mset_insert ms)
  have len: "length rest < length tasks" using arg_cong [OF ms, of size] by simp
  have nums: "mset (map fst completed) + add_mset n (mset (map fst rest)) = mset [1..<Suc (length P)]"
    using inv ms by (simp add: parts_inv_def)
  then have "n \<notin> fst ` set completed"
  proof -
    have "distinct [1..<Suc (length P)]" by simp
    then have "distinct (map fst completed @ n # map fst rest)"
      by (metis nums mset_append mset.simps(2) mset_eq_imp_distinct_iff)
    then show ?thesis by auto
  qed
  have old: "parts s' key i (fst c) = Some (P ! (fst c - 1))" if "c \<in> set completed" for c
  proof -
    have "fst c \<noteq> n" using that \<open>n \<notin> fst ` set completed\<close> by auto
    then show ?thesis using that inv law' by (simp add: parts_inv_def)
  qed
  have "parts_inv (parts s' key i) P (completed @ [(n, e)]) rest" if "t' = Some e" for e
    using law' nums sub inv old that by (auto simp: parts_inv_def)
  then show ?thesis using law' r len by (auto split: option.splits)
qed

lemma collect_down_inv:
  assumes "s3_upload_law api get parts" "parts_inv (parts s key i) P completed tasks"
    and "collect_down api pick key i bound completed tasks s = (r, s')"
  shows "get s' = get s \<and> (\<forall>completed' tasks'. r = Inr (completed', tasks') \<longrightarrow>
           length tasks' < bound \<and> parts_inv (parts s' key i) P completed' tasks')"
  using assms
proof (induction api pick key i bound completed tasks s rule: collect_down.induct)
  case (1 api pick key i bound completed tasks s)
  show ?case
  proof (cases "length tasks < bound")
    case True
    then show ?thesis using 1(3,4) by (auto simp: collect_down.simps)
  next
    case False
    obtain r1 rest s1 where run: "collect_part api (pick (length completed)) key i tasks s = (r1, rest, s1)"
      by (metis prod.exhaust)
    note one = collect_part_inv [OF 1(2,3) run]
    show ?thesis
    proof (cases r1)
      case (Inl e)
      then show ?thesis using False run one 1(4) by (auto simp: collect_down.simps)
    next
      case (Inr c)
      then have inv: "parts_inv (parts s1 key i) P (completed @ [c]) rest" using one by simp
      have "collect_down api pick key i bound (completed @ [c]) rest s1 = (r, s')"
        using 1(4) False run Inr by (simp add: collect_down.simps [of api pick key i bound completed tasks])
      from 1(1) [OF False run [symmetric] Inr refl 1(2) inv this] show ?thesis using one by auto
    qed
  qed
qed

lemma parts_inv_spawn:
  assumes "parts_inv held P completed tasks"
  shows "parts_inv held (P @ [b]) completed (tasks @ [(Suc (length P), b)])"
proof -
  have rng: "n - 1 < length P" if "n \<in> fst ` set completed \<union> fst ` set tasks" for n
  proof -
    have "set (map fst completed @ map fst tasks) = set [1..<Suc (length P)]"
      using assms unfolding parts_inv_def by (metis mset_eq_setD)
    then have "n \<in> {1..<Suc (length P)}" using that by auto
    then show ?thesis by auto
  qed
  then show ?thesis using assms by (auto simp: parts_inv_def nth_append)
qed

text \<open>With nothing left in flight, the sorted list of completed parts is the whole body.\<close>

lemma parts_inv_done:
  assumes "parts_inv held P completed []"
  shows "sorted_wrt (<) (map fst (sort_key fst completed))"
    and "\<forall>c \<in> set (sort_key fst completed). held (fst c) \<noteq> None"
    and "concat (map (\<lambda>c. the (held (fst c))) (sort_key fst completed)) = concat P"
proof -
  have "mset (map fst (sort_key fst completed)) = mset [1..<Suc (length P)]"
    using assms by (simp add: parts_inv_def)
  moreover have "sorted (map fst (sort_key fst completed))" "sorted [1..<Suc (length P)]"
    by (simp_all del: upt_Suc)
  ultimately have nums: "map fst (sort_key fst completed) = [1..<Suc (length P)]"
    by (metis properties_for_sort)
  then show "sorted_wrt (<) (map fst (sort_key fst completed))" by (simp del: upt_Suc)
  show "\<forall>c \<in> set (sort_key fst completed). held (fst c) \<noteq> None"
    using assms by (auto simp: parts_inv_def)
  have "map (\<lambda>c. the (held (fst c))) (sort_key fst completed) =
      map (\<lambda>c. P ! (fst c - 1)) (sort_key fst completed)"
    using assms by (intro map_cong) (auto simp: parts_inv_def)
  also have "\<dots> = map (\<lambda>n. P ! (n - 1)) [1..<Suc (length P)]"
    unfolding nums [symmetric] by simp
  also have "\<dots> = P" by (rule nth_equalityI) (auto simp del: upt_Suc)
  finally show "concat (map (\<lambda>c. the (held (fst c))) (sort_key fst completed)) = concat P" by simp
qed

section \<open>What is stored is what was read\<close>

context body_stream
begin

text \<open>The reader has cut \<open>P\<close> so far.\<close>

definition cut :: "'s reader \<Rightarrow> bytes list \<Rightarrow> bool" where
  "cut rd P \<longleftrightarrow> rd_hashed rd = concat P \<and> rd_received rd = length (concat P)"

lemma multipart_loop_returns:
  assumes law: "s3_upload_law api get parts" and size: "0 < part_size l"
  shows "parts_inv (parts s key i) P completed tasks \<Longrightarrow> length P = n \<Longrightarrow> cut rd P \<Longrightarrow> live (rd_body rd) \<Longrightarrow>
    \<exists>r rd' s'. multipart_loop api pick poll l key i completed n tasks rd s = Some (r, rd', s')
      \<and> get s' = get s
      \<and> (\<forall>completed' tasks'. r = Inr (completed', tasks') \<longrightarrow> sound rd \<and> ended (rd_body rd')
          \<and> (\<exists>P'. parts_inv (parts s' key i) P' completed' tasks' \<and> concat P' = concat P @ pend rd \<and> cut rd' P'))"
proof (induction "length (pend rd)" arbitrary: s P completed tasks n rd rule: less_induct)
  case less
  obtain r1 s1 where cd: "collect_down api pick key i (max_parts_in_flight l) completed tasks s = (r1, s1)"
    by fastforce
  note down = collect_down_inv [OF law less.prems(1) cd]
  note loop = multipart_loop.simps [of api pick poll l key i completed n tasks rd s]
  show ?case
  proof (cases r1)
    case (Inl e)
    then show ?thesis using cd down by (simp add: loop)
  next
    case (Inr ct)
    obtain c1 t1 where ct: "ct = (c1, t1)" by fastforce
    have g1: "get s1 = get s" and inv1: "parts_inv (parts s1 key i) P c1 t1"
      using down Inr ct by auto
    obtain r2 rd1 where fl: "fill poll (part_size l) rd [] = Some (r2, rd1)"
      and fd: "filled rd [] (part_size l) r2 rd1" using fill_returns [OF less.prems(4), of "[]" "part_size l"] by auto
    note step = loop [unfolded cd fl Inr ct, simplified]
    show ?thesis
    proof (cases "part_size l \<le> length (pend rd)")
      case True
      let ?part = "take (part_size l) (pend rd)"
      have r2: "r2 = Inr ?part" "pend rd1 = drop (part_size l) (pend rd)" "sound rd1 = sound rd"
        "cut rd1 (P @ [?part])" "live (rd_body rd1)"
        using fd True less.prems(3) by (auto simp: filled_def cut_def Let_def)
      have less1: "length (pend rd1) < length (pend rd)" using True size r2(2) by simp
      have "multipart_loop api pick poll l key i completed n tasks rd s =
          multipart_loop api pick poll l key i c1 (Suc n) (t1 @ [(Suc n, ?part)]) rd1 s1"
        using step True size r2(1) by auto
      moreover have "concat (P @ [?part]) @ pend rd1 = concat P @ pend rd" using r2(2) by simp
      moreover have "parts_inv (parts s1 key i) (P @ [?part]) c1 (t1 @ [(Suc n, ?part)])"
        using parts_inv_spawn [OF inv1] less.prems(2) by simp
      ultimately show ?thesis
        using less.hyps [OF less1 _ _ r2(4,5), of s1 c1 "t1 @ [(Suc n, ?part)]" "Suc n"] less.prems(2) g1 r2(3)
        by simp
    next
      case False
      show ?thesis
      proof (cases "sound rd")
        case True
        have r2: "r2 = Inr (pend rd)" "ended (rd_body rd1)" "cut rd1 (P @ [pend rd])"
          using fd True False less.prems(3) by (auto simp: filled_def cut_def Let_def)
        have "parts_inv (parts s1 key i) (P @ [pend rd]) c1 (t1 @ [(Suc n, pend rd)])"
          using parts_inv_spawn [OF inv1] less.prems(2) by simp
        then show ?thesis
          using step r2 True False g1 inv1
          by (cases "pend rd = []") (auto simp: cut_def intro: exI [of _ P] exI [of _ "P @ [pend rd]"])
      next
        case False
        then have "r2 = Inl ClientBodyError" using fd \<open>\<not> part_size l \<le> length (pend rd)\<close>
          by (auto simp: filled_def Let_def)
        then show ?thesis using step g1 by simp
      qed
    qed
  qed
qed

text \<open>
  The outcome of an upload whose body still held \<open>bs\<close>: on success the blob is \<open>bs\<close> and the end
  was seen; on failure nothing changed, unless the body was sound and S3 itself failed late.
\<close>

definition stored ::
  "('x \<Rightarrow> string \<rightharpoonup> bytes) \<Rightarrow> string \<Rightarrow> bool \<Rightarrow> bytes \<Rightarrow> 'x \<Rightarrow> bool \<Rightarrow> 's reader \<Rightarrow> 'x \<Rightarrow> bool" where
  "stored get key ok bs s succ rd' s' \<longleftrightarrow>
     (if succ then ok \<and> ended (rd_body rd') \<and> get s' = (get s)(key \<mapsto> bs) \<and> cut rd' [bs]
      else get s' = get s \<or> ok \<and> get s' = (get s)(key \<mapsto> bs))"

lemma multipart_body_returns:
  assumes law: "s3_upload_law api get parts" and size: "0 < part_size l" and cut: "cut rd [b]"
    and live: "live (rd_body rd)"
  shows "\<exists>r rd' s'. multipart_body api pick poll l key i [(1, b)] rd s = Some (r, rd', s')
      \<and> stored get key (sound rd) (b @ pend rd) s (r = Inr ()) rd' s'"
proof -
  have "parts_inv (parts s key i) [b] [] [(1, b)]" by (simp add: parts_inv_def)
  from multipart_loop_returns [OF law size this _ cut live, of 1 pick]
  obtain r1 rd1 s1 where run: "multipart_loop api pick poll l key i [] 1 [(1, b)] rd s = Some (r1, rd1, s1)"
    and g1: "get s1 = get s"
    and ok: "\<forall>c t. r1 = Inr (c, t) \<longrightarrow> sound rd \<and> ended (rd_body rd1)
        \<and> (\<exists>P. parts_inv (parts s1 key i) P c t \<and> concat P = b @ pend rd \<and> cut rd1 P)" by auto
  show ?thesis
  proof (cases r1)
    case (Inl e)
    then show ?thesis using run g1 by (simp add: multipart_body_def stored_def)
  next
    case (Inr ct)
    obtain c t where ct: "ct = (c, t)" by fastforce
    obtain P where P: "parts_inv (parts s1 key i) P c t" "concat P = b @ pend rd" "cut rd1 P"
      and fin: "sound rd" "ended (rd_body rd1)" using ok Inr ct by blast
    obtain r2 s2 where cd: "collect_down api pick key i 1 c t s1 = (r2, s2)" by fastforce
    note down = collect_down_inv [OF law P(1) cd]
    show ?thesis
    proof (cases r2)
      case (Inl e)
      then show ?thesis using run Inr ct cd down g1 \<open>r1 = Inr ct\<close>
        by (simp add: multipart_body_def stored_def)
    next
      case r2: (Inr ct2)
      obtain c2 where ct2: "ct2 = (c2, [])" and inv2: "parts_inv (parts s2 key i) P c2 []"
        using down r2 by (cases ct2) auto
      obtain ok3 s3 where cp: "api_complete api s2 key i (sort_key fst c2) = (ok3, s3)" by fastforce
      have "get s3 = (get s2)(key \<mapsto> concat P) \<or> \<not> ok3 \<and> get s3 = get s2"
        using s3_lawD(4) [OF law cp] parts_inv_done [OF inv2] by simp
      then show ?thesis using run Inr ct cd down g1 r2 ct2 cp fin P(2,3)
        by (auto simp: multipart_body_def stored_def cut_def)
    qed
  qed
qed

lemma store_first_returns:
  assumes law: "s3_upload_law api get parts" and size: "0 < part_size l" and cut: "cut rd [b]"
    and live: "live (rd_body rd)" and short: "length b < part_size l \<Longrightarrow> pend rd = [] \<and> sound rd \<and> ended (rd_body rd)"
  shows "\<exists>r rd' s'. store_first sha256 api pick poll l key b rd s = Some (r, rd', s')
      \<and> stored get key (sound rd) (b @ pend rd) s (\<exists>x. r = Inr x) rd' s'
      \<and> (\<forall>x. r = Inr x \<longrightarrow> x = reader_finish sha256 rd')"
proof (cases "length b < part_size l")
  case True
  obtain ok s' where p: "api_put api s key b = (ok, s')" by fastforce
  have "get s' = (get s)(key \<mapsto> b) \<or> \<not> ok \<and> get s' = get s" using s3_lawD(1) [OF law p] .
  then show ?thesis using True p cut short [OF True]
    by (auto simp: store_first_def put_def stored_def)
next
  case False
  obtain o1 s1 where c: "api_create api s key = (o1, s1)" by fastforce
  have g1: "get s1 = get s" using s3_lawD(2) [OF law c] .
  show ?thesis
  proof (cases o1)
    case None
    then show ?thesis using False c g1 by (simp add: store_first_def stored_def)
  next
    case (Some i)
    obtain r rd' s2 where m: "multipart_body api pick poll l key i [(1, b)] rd s1 = Some (r, rd', s2)"
      and st: "stored get key (sound rd) (b @ pend rd) s1 (r = Inr ()) rd' s2"
      using multipart_body_returns [OF law size cut live, of pick key i s1] by blast
    obtain ok s3 where ab: "api_abort api s2 key i = (ok, s3)" by fastforce
    have "get s3 = get s2" using s3_lawD(5) [OF law ab] .
    then show ?thesis using False c Some m st g1 ab
      by (cases r) (auto simp: store_first_def stored_def)
  qed
qed

lemma put_streaming_returns:
  assumes law: "s3_upload_law api get parts" and size: "0 < part_size l" and live: "live b"
  shows "\<exists>r rd' s'. put_streaming sha256 api pick poll l key b hint s = Some (r, rd', s')
      \<and> stored get key (clean (items b)) (lead (items b)) s (\<exists>x. r = Inr x) rd' s'
      \<and> (\<forall>x. r = Inr x \<longrightarrow> x = reader_finish sha256 rd')"
proof -
  define n where "n = clamp 1 (part_size l) hint"
  have n: "0 < n" "n \<le> part_size l" using size by (auto simp: n_def clamp_def)
  have new: "pend (new_reader b) = lead (items b)" "sound (new_reader b) = clean (items b)"
    "rd_hashed (new_reader b) = []" "rd_received (new_reader b) = 0" "live (rd_body (new_reader b))"
    using live by (simp_all add: new_reader_def pend_def sound_def)
  obtain r1 rd1 where fl: "fill poll n (new_reader b) [] = Some (r1, rd1)"
    and fd: "filled (new_reader b) [] n r1 rd1" using fill_returns [OF new(5), of "[]" n] by auto
  note put = put_streaming_def [of sha256 api pick poll l key b hint s, folded n_def, unfolded Let_def fl]
  show ?thesis
  proof (cases r1)
    case (Inl e)
    then show ?thesis by (simp add: put stored_def)
  next
    case (Inr p)
    have pre: "lead (items b) = p @ pend rd1" "cut rd1 [p]" "sound rd1 = clean (items b)"
      "live (rd_body rd1)" using fd Inr by (auto simp: filled_def Let_def cut_def new split: if_splits)
    show ?thesis
    proof (cases "length p = n \<and> n < part_size l")
      case True
      obtain r2 rd2 where hm: "has_more poll rd1 = Some (r2, rd2)" and
        more: "if pend rd1 \<noteq> [] then r2 = Inr True
          else if sound rd1 then r2 = Inr False \<and> ended (rd_body rd2) \<and> rd_hashed rd2 = rd_hashed rd1
             \<and> rd_received rd2 = rd_received rd1
          else r2 = Inl ClientBodyError" using has_more_returns [OF pre(4)] by blast
      show ?thesis
      proof (cases "r2 = Inr False")
        case False
        then show ?thesis using True hm Inr by (cases r2) (auto simp: put stored_def)
      next
        case nomore: True
        then have e: "pend rd1 = []" "sound rd1" "ended (rd_body rd2)" "cut rd2 [p]"
          using more pre(2) by (auto simp: cut_def split: if_splits)
        obtain ok s' where p: "api_put api s key p = (ok, s')" by fastforce
        have "get s' = (get s)(key \<mapsto> p) \<or> \<not> ok \<and> get s' = get s" using s3_lawD(1) [OF law p] .
        moreover have "put_streaming sha256 api pick poll l key b hint s =
            store_first sha256 api pick poll l key p rd2 s"
          using True hm Inr nomore by (simp add: put)
        ultimately show ?thesis using True p e pre
          by (auto simp: store_first_def put_def stored_def)
      qed
    next
      case False
      have "length p < part_size l \<Longrightarrow> pend rd1 = [] \<and> sound rd1 \<and> ended (rd_body rd1)"
        using fd Inr False n by (auto simp: filled_def Let_def new split: if_splits)
      from store_first_returns [OF law size pre(2,4) this, of sha256 pick key s]
      show ?thesis using False Inr pre by (auto simp: put)
    qed
  qed
qed

end

end
