(* ===== verification/Verify.thy ===== *)
theory Verify
  imports Store_Paths Upload_Stream
begin

text \<open>
  \<^verbatim>\<open>crates/garret-pusher/src/verify.rs\<close>: the NarHash/NarSize check on the compressed NAR as it
  streams to S3, inline or on its own thread.

  The zstd decoder is not part of the repository: one streaming call is the parameter \<open>run\<close>, from
  the decoder's state and the input left to the bytes consumed, the output, the hint and the next
  state, or to an error. \<^verbatim>\<open>compress_bound\<close> and SHA-256 are parameters too; the hasher's state is the
  bytes it was fed. The offloaded check is deterministic in the chunks it is sent, so its thread
  is modelled by them: \<open>closed\<close> says, at each send, whether a refusal already reached has closed the
  queue by then, and \<open>crashed\<close> whether the thread dies without a verdict.
\<close>

section \<open>The checker\<close>

definition WINDOW_LOG_MAX :: nat where "WINDOW_LOG_MAX = 23"
definition COMPRESSED_SLACK :: nat where "COMPRESSED_SLACK = 64 * 1024"
definition SCRATCH :: nat where "SCRATCH = 128 * 1024"
definition OFFLOAD_MIN :: int where "OFFLOAD_MIN = 4 * 1024 * 1024"

definition USIZE_MAX :: nat where "USIZE_MAX = 2 ^ 64 - 1"

definition saturating_add :: "nat \<Rightarrow> nat \<Rightarrow> nat" where
  "saturating_add a b = min USIZE_MAX (a + b)"

definition max_compressed_len :: "(nat \<Rightarrow> nat) \<Rightarrow> int \<Rightarrow> nat" where
  "max_compressed_len compress_bound claimed_size =
     saturating_add (compress_bound (nat (max 0 claimed_size))) COMPRESSED_SLACK"

datatype check_error =
    OverCompressed nat
  | BadZstd
  | OverSize
  | MidFrame
  | SizeMismatch int
  | HashMismatch string

record 'd checker =
  ck_decoder :: 'd
  ck_hashed :: bytes
  ck_nar_size :: int
  ck_compressed :: nat
  ck_max_compressed :: nat
  ck_frame_done :: bool
  ck_claimed_hash :: string
  ck_claimed_size :: int

type_synonym 'd zstd_run = "'d \<Rightarrow> bytes \<Rightarrow> (nat \<times> bytes \<times> nat \<times> 'd) option"

definition new_checker :: "(nat \<Rightarrow> nat) \<Rightarrow> 'd \<Rightarrow> string \<Rightarrow> int \<Rightarrow> 'd checker" where
  "new_checker compress_bound d claimed_hash claimed_size =
     \<lparr>ck_decoder = d, ck_hashed = [], ck_nar_size = 0, ck_compressed = 0,
      ck_max_compressed = max_compressed_len compress_bound claimed_size, ck_frame_done = False,
      ck_claimed_hash = claimed_hash, ck_claimed_size = claimed_size\<rparr>"

partial_function (option) feed_loop ::
  "'d zstd_run \<Rightarrow> 'd checker \<Rightarrow> bytes \<Rightarrow> ((check_error + unit) \<times> 'd checker) option" where
  "feed_loop run ck src =
     (case run (ck_decoder ck) src of
        None \<Rightarrow> Some (Inl BadZstd, ck)
      | Some x \<Rightarrow>
          (case x of (n, out, hint, d) \<Rightarrow>
             (let ck1 = ck\<lparr>ck_decoder := d, ck_nar_size := ck_nar_size ck + int (length out)\<rparr> in
              if ck_nar_size ck1 > ck_claimed_size ck1 then Some (Inl OverSize, ck1)
              else
                (let ck2 = ck1\<lparr>ck_hashed := ck_hashed ck1 @ out,
                               ck_frame_done := (if n > 0 \<or> out \<noteq> [] then hint = 0 else ck_frame_done ck1)\<rparr>
                 in if n = length src \<and> length out < SCRATCH then Some (Inr (), ck2)
                    else feed_loop run ck2 (drop n src)))))"

definition feed :: "'d zstd_run \<Rightarrow> 'd checker \<Rightarrow> bytes \<Rightarrow> ((check_error + unit) \<times> 'd checker) option" where
  "feed run ck chunk =
     (let ck1 = ck\<lparr>ck_compressed := saturating_add (ck_compressed ck) (length chunk)\<rparr> in
      if ck_compressed ck1 > ck_max_compressed ck1
      then Some (Inl (OverCompressed (ck_max_compressed ck1)), ck1)
      else feed_loop run ck1 chunk)"

definition finish :: "(bytes \<Rightarrow> bytes) \<Rightarrow> 'd checker \<Rightarrow> check_error + unit" where
  "finish sha256 ck =
     (if \<not> ck_frame_done ck then Inl MidFrame
      else if ck_nar_size ck \<noteq> ck_claimed_size ck then Inl (SizeMismatch (ck_nar_size ck))
      else (let hash = sha256_nix32 (sha256 (ck_hashed ck)) in
        if hash \<noteq> ck_claimed_hash ck then Inl (HashMismatch hash) else Inr ()))"

section \<open>The verified stream\<close>

datatype outcome = Accepted | Refused check_error | Failed

datatype 'd engine =
    Inline "'d checker"
  | Offload "'d checker" "bytes list"

record 'd verified_nar =
  vn_inner :: "body_item list"
  vn_engine :: "'d engine"
  vn_outcome :: "outcome option"

definition with_offload ::
  "(nat \<Rightarrow> nat) \<Rightarrow> 'd \<Rightarrow> body_item list \<Rightarrow> string \<Rightarrow> int \<Rightarrow> bool \<Rightarrow> 'd verified_nar" where
  "with_offload compress_bound d inner claimed_hash claimed_size offload =
     (let ck = new_checker compress_bound d claimed_hash claimed_size in
      \<lparr>vn_inner = inner, vn_engine = (if offload then Offload ck [] else Inline ck), vn_outcome = None\<rparr>)"

definition new_verified ::
  "(nat \<Rightarrow> nat) \<Rightarrow> 'd \<Rightarrow> body_item list \<Rightarrow> string \<Rightarrow> int \<Rightarrow> 'd verified_nar" where
  "new_verified compress_bound d inner claimed_hash claimed_size =
     with_offload compress_bound d inner claimed_hash claimed_size (claimed_size \<ge> OFFLOAD_MIN)"

definition into_outcome :: "'d verified_nar \<Rightarrow> outcome option" where
  "into_outcome vn = vn_outcome vn"

definition refuse :: "'d verified_nar \<Rightarrow> check_error \<Rightarrow> body_item option \<times> 'd verified_nar" where
  "refuse vn reason = (Some Broken, vn\<lparr>vn_outcome := Some (Refused reason)\<rparr>)"

text \<open>The offloaded thread: feed every chunk until one is refused.\<close>

fun feed_all :: "'d zstd_run \<Rightarrow> 'd checker \<Rightarrow> bytes list \<Rightarrow> ((check_error + unit) \<times> 'd checker) option" where
  "feed_all run ck [] = Some (Inr (), ck)"
| "feed_all run ck (c # cs) =
     (case feed run ck c of
        None \<Rightarrow> None
      | Some (Inl e, ck') \<Rightarrow> Some (Inl e, ck')
      | Some (Inr _, ck') \<Rightarrow> feed_all run ck' cs)"

text \<open>Then \<^verbatim>\<open>finish\<close>, unless it already refused.\<close>

definition thread_verdict ::
  "'d zstd_run \<Rightarrow> (bytes \<Rightarrow> bytes) \<Rightarrow> 'd checker \<Rightarrow> bytes list \<Rightarrow> (check_error + unit) option" where
  "thread_verdict run sha256 ck sent =
     map_option (\<lambda>(r, ck'). case r of Inl e \<Rightarrow> Inl e | Inr _ \<Rightarrow> finish sha256 ck') (feed_all run ck sent)"

definition poll_verdict ::
  "'d zstd_run \<Rightarrow> (bytes \<Rightarrow> bytes) \<Rightarrow> bool \<Rightarrow> 'd checker \<Rightarrow> bytes list \<Rightarrow> 'd verified_nar \<Rightarrow>
   (body_item option \<times> 'd verified_nar) option" where
  "poll_verdict run sha256 crashed ck sent vn =
     (if crashed then Some (Some Broken, vn\<lparr>vn_outcome := Some Failed\<rparr>)
      else map_option (\<lambda>v. case v of
             Inr _ \<Rightarrow> (None, vn\<lparr>vn_outcome := Some Accepted\<rparr>)
           | Inl reason \<Rightarrow> refuse vn reason) (thread_verdict run sha256 ck sent))"

definition queue_closed ::
  "'d zstd_run \<Rightarrow> (nat \<Rightarrow> bool) \<Rightarrow> bool \<Rightarrow> 'd checker \<Rightarrow> bytes list \<Rightarrow> bool" where
  "queue_closed run closed crashed ck sent =
     (closed (length sent) \<and>
      (crashed \<or> (case feed_all run ck sent of Some (Inl e, _) \<Rightarrow> True | _ \<Rightarrow> False)))"

definition poll_next ::
  "'d zstd_run \<Rightarrow> (bytes \<Rightarrow> bytes) \<Rightarrow> (nat \<Rightarrow> bool) \<Rightarrow> bool \<Rightarrow> 'd verified_nar \<Rightarrow>
   (body_item option \<times> 'd verified_nar) option" where
  "poll_next run sha256 closed crashed vn =
     (if vn_outcome vn \<noteq> None then Some (None, vn)
      else (case vn_engine vn of
        Inline ck \<Rightarrow>
          (case vn_inner vn of
             Chunk c # rest \<Rightarrow>
               map_option (\<lambda>(r, ck').
                 let vn' = vn\<lparr>vn_inner := rest, vn_engine := Inline ck'\<rparr> in
                 case r of Inr _ \<Rightarrow> (Some (Chunk c), vn') | Inl reason \<Rightarrow> refuse vn' reason) (feed run ck c)
           | x # rest \<Rightarrow> Some (Some x, vn\<lparr>vn_inner := rest\<rparr>)
           | [] \<Rightarrow> Some (case finish sha256 ck of
                 Inr _ \<Rightarrow> (None, vn\<lparr>vn_outcome := Some Accepted\<rparr>)
               | Inl reason \<Rightarrow> refuse vn reason))
      | Offload ck sent \<Rightarrow>
          (case vn_inner vn of
             Chunk c # rest \<Rightarrow>
               if queue_closed run closed crashed ck sent
               then poll_verdict run sha256 crashed ck sent (vn\<lparr>vn_inner := rest\<rparr>)
               else Some (Some (Chunk c), vn\<lparr>vn_inner := rest, vn_engine := Offload ck (sent @ [c])\<rparr>)
           | x # rest \<Rightarrow> Some (Some x, vn\<lparr>vn_inner := rest\<rparr>)
           | [] \<Rightarrow> poll_verdict run sha256 crashed ck sent vn)))"

section \<open>The check itself\<close>

text \<open>
  A reference for what the decoder produced: its calls on one chunk, until the chunk is consumed
  and the decoder had room to spare.
\<close>

inductive decodes :: "'d zstd_run \<Rightarrow> 'd \<Rightarrow> bytes \<Rightarrow> bytes \<Rightarrow> 'd \<Rightarrow> bool" for run :: "'d zstd_run" where
  DecodeLast: "run d src = Some (length src, out, hint, d') \<Longrightarrow> length out < SCRATCH \<Longrightarrow>
    decodes run d src out d'"
| DecodeMore: "run d src = Some (n, out, hint, d1) \<Longrightarrow> decodes run d1 (drop n src) outs d' \<Longrightarrow>
    decodes run d src (out @ outs) d'"

inductive decodes_all :: "'d zstd_run \<Rightarrow> 'd \<Rightarrow> bytes list \<Rightarrow> bytes \<Rightarrow> 'd \<Rightarrow> bool" for run :: "'d zstd_run" where
  DecodeNil: "decodes_all run d [] [] d"
| DecodeCons: "decodes run d c out d1 \<Longrightarrow> decodes_all run d1 cs outs d' \<Longrightarrow>
    decodes_all run d (c # cs) (out @ outs) d'"

definition checker_inv :: "'d checker \<Rightarrow> bool" where
  "checker_inv ck \<longleftrightarrow> ck_nar_size ck = int (length (ck_hashed ck))"

definition same_claim :: "'d checker \<Rightarrow> 'd checker \<Rightarrow> bool" where
  "same_claim ck ck' \<longleftrightarrow> ck_claimed_hash ck' = ck_claimed_hash ck \<and> ck_claimed_size ck' = ck_claimed_size ck
     \<and> ck_max_compressed ck' = ck_max_compressed ck"

lemma feed_loop_ok:
  assumes "feed_loop run ck src = Some y"
  shows "checker_inv ck \<longrightarrow> fst y = Inr () \<longrightarrow>
    (\<exists>out. decodes run (ck_decoder ck) src out (ck_decoder (snd y)) \<and> ck_hashed (snd y) = ck_hashed ck @ out
       \<and> checker_inv (snd y) \<and> same_claim ck (snd y) \<and> ck_compressed (snd y) = ck_compressed ck
       \<and> ck_nar_size (snd y) \<le> ck_claimed_size ck)"
  using assms
proof (rule feed_loop.raw_induct [rotated])
  fix rec_feed run and ck :: "'a checker" and src y
  assume ih: "\<And>run ck src y. rec_feed run ck src = Some y \<Longrightarrow> checker_inv ck \<longrightarrow> fst y = Inr () \<longrightarrow>
    (\<exists>out. decodes run (ck_decoder ck) src out (ck_decoder (snd y)) \<and> ck_hashed (snd y) = ck_hashed ck @ out
       \<and> checker_inv (snd y) \<and> same_claim ck (snd y) \<and> ck_compressed (snd y) = ck_compressed ck
       \<and> ck_nar_size (snd y) \<le> ck_claimed_size ck)"
    and eq: "(case run (ck_decoder ck) src of
        None \<Rightarrow> Some (Inl BadZstd, ck)
      | Some x \<Rightarrow>
          (case x of (n, out, hint, d) \<Rightarrow>
             (let ck1 = ck\<lparr>ck_decoder := d, ck_nar_size := ck_nar_size ck + int (length out)\<rparr> in
              if ck_nar_size ck1 > ck_claimed_size ck1 then Some (Inl OverSize, ck1)
              else
                (let ck2 = ck1\<lparr>ck_hashed := ck_hashed ck1 @ out,
                               ck_frame_done := (if n > 0 \<or> out \<noteq> [] then hint = 0 else ck_frame_done ck1)\<rparr>
                 in if n = length src \<and> length out < SCRATCH then Some (Inr (), ck2)
                    else rec_feed run ck2 (drop n src))))) = Some y"
  show "checker_inv ck \<longrightarrow> fst y = Inr () \<longrightarrow>
    (\<exists>out. decodes run (ck_decoder ck) src out (ck_decoder (snd y)) \<and> ck_hashed (snd y) = ck_hashed ck @ out
       \<and> checker_inv (snd y) \<and> same_claim ck (snd y) \<and> ck_compressed (snd y) = ck_compressed ck
       \<and> ck_nar_size (snd y) \<le> ck_claimed_size ck)"
  proof (intro impI)
    assume inv: "checker_inv ck" and ok: "fst y = Inr ()"
    obtain n out hint d where r: "run (ck_decoder ck) src = Some (n, out, hint, d)"
      using eq ok by (cases "run (ck_decoder ck) src") auto
    define ck2 where "ck2 = ck\<lparr>ck_decoder := d, ck_nar_size := ck_nar_size ck + int (length out),
        ck_hashed := ck_hashed ck @ out,
        ck_frame_done := (if n > 0 \<or> out \<noteq> [] then hint = 0 else ck_frame_done ck)\<rparr>"
    have le: "ck_nar_size ck2 \<le> ck_claimed_size ck" and
      step: "(if n = length src \<and> length out < SCRATCH then Some (Inr (), ck2)
         else rec_feed run ck2 (drop n src)) = Some y"
      using eq r ok by (auto simp: ck2_def Let_def split: if_splits)
    have inv2: "checker_inv ck2" "same_claim ck ck2" "ck_decoder ck2 = d"
      "ck_hashed ck2 = ck_hashed ck @ out" "ck_compressed ck2 = ck_compressed ck"
      "ck_claimed_size ck2 = ck_claimed_size ck"
      using inv by (simp_all add: ck2_def checker_inv_def same_claim_def)
    show "\<exists>out. decodes run (ck_decoder ck) src out (ck_decoder (snd y)) \<and> ck_hashed (snd y) = ck_hashed ck @ out
       \<and> checker_inv (snd y) \<and> same_claim ck (snd y) \<and> ck_compressed (snd y) = ck_compressed ck
       \<and> ck_nar_size (snd y) \<le> ck_claimed_size ck"
    proof (cases "n = length src \<and> length out < SCRATCH")
      case True
      then have "decodes run (ck_decoder ck) src out d" using r by (auto intro: DecodeLast)
      then show ?thesis using step True inv2 le by auto
    next
      case False
      then have "rec_feed run ck2 (drop n src) = Some y" using step by (auto split: if_splits)
      from ih [OF this] inv2(1) ok obtain outs where "decodes run d (drop n src) outs (ck_decoder (snd y))"
        "ck_hashed (snd y) = ck_hashed ck @ out @ outs" "checker_inv (snd y)" "same_claim ck2 (snd y)"
        "ck_compressed (snd y) = ck_compressed ck" "ck_nar_size (snd y) \<le> ck_claimed_size ck"
        using inv2 by auto
      moreover from this have "decodes run (ck_decoder ck) src (out @ outs) (ck_decoder (snd y))"
        using r by (auto intro: DecodeMore)
      ultimately show ?thesis using inv2(2) by (auto simp: same_claim_def)
    qed
  qed
qed

lemma feed_ok:
  assumes "feed run ck chunk = Some (Inr (), ck')" "checker_inv ck"
  obtains out where "decodes run (ck_decoder ck) chunk out (ck_decoder ck')"
    "ck_hashed ck' = ck_hashed ck @ out" "checker_inv ck'" "same_claim ck ck'"
    "ck_compressed ck' \<le> ck_max_compressed ck" "ck_nar_size ck' \<le> ck_claimed_size ck"
proof -
  let ?ck = "ck\<lparr>ck_compressed := saturating_add (ck_compressed ck) (length chunk)\<rparr>"
  have run: "feed_loop run ?ck chunk = Some (Inr (), ck')" and le: "ck_compressed ?ck \<le> ck_max_compressed ck"
    using assms(1) by (auto simp: feed_def Let_def split: if_splits)
  have "checker_inv ?ck" using assms(2) by (simp add: checker_inv_def)
  with feed_loop_ok [OF run] show ?thesis using le that by (auto simp: same_claim_def)
qed

lemma feed_all_ok:
  assumes "feed_all run ck cs = Some (Inr (), ck')" "checker_inv ck"
  shows "\<exists>out. decodes_all run (ck_decoder ck) cs out (ck_decoder ck') \<and> ck_hashed ck' = ck_hashed ck @ out
    \<and> checker_inv ck' \<and> same_claim ck ck'"
  using assms
proof (induction run ck cs rule: feed_all.induct)
  case (1 run ck)
  then show ?case by (auto simp: same_claim_def intro: DecodeNil)
next
  case (2 run ck c cs)
  obtain ck1 where f: "feed run ck c = Some (Inr (), ck1)" and rest: "feed_all run ck1 cs = Some (Inr (), ck')"
    using 2(2) by (auto split: option.splits sum.splits prod.splits)
  obtain out where o1: "decodes run (ck_decoder ck) c out (ck_decoder ck1)" "ck_hashed ck1 = ck_hashed ck @ out"
    "checker_inv ck1" "same_claim ck ck1" using feed_ok [OF f 2(3)] by blast
  from 2(1) [OF f refl refl rest o1(3)] obtain outs where
    "decodes_all run (ck_decoder ck1) cs outs (ck_decoder ck')" "ck_hashed ck' = ck_hashed ck1 @ outs"
    "checker_inv ck'" "same_claim ck1 ck'" by blast
  then show ?case using o1 by (auto simp: same_claim_def intro: DecodeCons)
qed

lemma feed_all_snoc:
  "feed_all run ck (cs @ [c]) =
     (case feed_all run ck cs of
        None \<Rightarrow> None
      | Some (Inl e, ck') \<Rightarrow> Some (Inl e, ck')
      | Some (Inr _, ck') \<Rightarrow> feed run ck' c)"
  by (induction run ck cs rule: feed_all.induct)
    (auto split: option.splits sum.splits prod.splits)

text \<open>What acceptance means, whichever engine ran the check.\<close>

definition nar_matches :: "'d zstd_run \<Rightarrow> (bytes \<Rightarrow> bytes) \<Rightarrow> 'd \<Rightarrow> bytes list \<Rightarrow> string \<Rightarrow> int \<Rightarrow> bool" where
  "nar_matches run sha256 d cs claimed_hash claimed_size \<longleftrightarrow>
     (\<exists>nar d'. decodes_all run d cs nar d' \<and> int (length nar) = claimed_size
        \<and> sha256_nix32 (sha256 nar) = claimed_hash)"

lemma thread_verdict_accepts:
  assumes "thread_verdict run sha256 (new_checker cb d h n) cs = Some (Inr ())"
  shows "nar_matches run sha256 d cs h n"
proof -
  let ?ck = "new_checker cb d h n"
  have ck: "ck_decoder ?ck = d" "ck_hashed ?ck = []" "checker_inv ?ck" "ck_claimed_hash ?ck = h"
    "ck_claimed_size ?ck = n" by (simp_all add: new_checker_def checker_inv_def)
  obtain ck' where fa: "feed_all run ?ck cs = Some (Inr (), ck')" and fin: "finish sha256 ck' = Inr ()"
    using assms by (cases "feed_all run ?ck cs") (auto simp: thread_verdict_def split: sum.splits prod.splits)
  from feed_all_ok [OF fa ck(3)] obtain nar where "decodes_all run d cs nar (ck_decoder ck')"
    "ck_hashed ck' = nar" "checker_inv ck'" "same_claim ?ck ck'" using ck by auto
  then show ?thesis using fin ck
    by (auto simp: nar_matches_def finish_def checker_inv_def same_claim_def Let_def split: if_splits)
qed

section \<open>The verified stream ends only in acceptance\<close>

definition verdict_items :: "'d zstd_run \<Rightarrow> (bytes \<Rightarrow> bytes) \<Rightarrow> bool \<Rightarrow> 'd checker \<Rightarrow> bytes list \<Rightarrow> body_item list option" where
  "verdict_items run sha256 crashed ck sent =
     (if crashed then Some [Broken]
      else map_option (\<lambda>v. case v of Inr _ \<Rightarrow> [] | Inl _ \<Rightarrow> [Broken]) (thread_verdict run sha256 ck sent))"

fun inline_items :: "'d zstd_run \<Rightarrow> (bytes \<Rightarrow> bytes) \<Rightarrow> 'd checker \<Rightarrow> body_item list \<Rightarrow> body_item list option" where
  "inline_items run sha256 ck [] = Some (case finish sha256 ck of Inr _ \<Rightarrow> [] | Inl _ \<Rightarrow> [Broken])"
| "inline_items run sha256 ck (Chunk c # xs) =
     (case feed run ck c of
        None \<Rightarrow> None
      | Some (Inl _, _) \<Rightarrow> Some [Broken]
      | Some (Inr _, ck') \<Rightarrow> map_option (Cons (Chunk c)) (inline_items run sha256 ck' xs))"
| "inline_items run sha256 ck (x # xs) = Some [x]"

fun offload_items ::
  "'d zstd_run \<Rightarrow> (bytes \<Rightarrow> bytes) \<Rightarrow> (nat \<Rightarrow> bool) \<Rightarrow> bool \<Rightarrow> 'd checker \<Rightarrow> bytes list \<Rightarrow> body_item list \<Rightarrow>
   body_item list option" where
  "offload_items run sha256 closed crashed ck sent [] = verdict_items run sha256 crashed ck sent"
| "offload_items run sha256 closed crashed ck sent (Chunk c # xs) =
     (if queue_closed run closed crashed ck sent then verdict_items run sha256 crashed ck sent
      else map_option (Cons (Chunk c)) (offload_items run sha256 closed crashed ck (sent @ [c]) xs))"
| "offload_items run sha256 closed crashed ck sent (x # xs) = Some [x]"

definition vn_items ::
  "'d zstd_run \<Rightarrow> (bytes \<Rightarrow> bytes) \<Rightarrow> (nat \<Rightarrow> bool) \<Rightarrow> bool \<Rightarrow> 'd verified_nar \<Rightarrow> body_item list option" where
  "vn_items run sha256 closed crashed vn =
     (if vn_outcome vn \<noteq> None then Some []
      else (case vn_engine vn of
              Inline ck \<Rightarrow> inline_items run sha256 ck (vn_inner vn)
            | Offload ck sent \<Rightarrow> offload_items run sha256 closed crashed ck sent (vn_inner vn)))"

definition vn_live ::
  "'d zstd_run \<Rightarrow> (bytes \<Rightarrow> bytes) \<Rightarrow> (nat \<Rightarrow> bool) \<Rightarrow> bool \<Rightarrow> 'd verified_nar \<Rightarrow> bool" where
  "vn_live run sha256 closed crashed vn \<longleftrightarrow>
     vn_outcome vn \<in> {None, Some Accepted} \<and> vn_items run sha256 closed crashed vn \<noteq> None"

lemma queue_closed_refused:
  "queue_closed run closed crashed ck sent \<Longrightarrow> verdict_items run sha256 crashed ck sent = Some [Broken]"
  by (cases "feed_all run ck sent")
    (auto simp: queue_closed_def verdict_items_def thread_verdict_def split: sum.splits prod.splits)

lemma poll_verdict_items:
  assumes "verdict_items run sha256 crashed ck sent = Some ys"
  shows "ys = [] \<and> poll_verdict run sha256 crashed ck sent vn = Some (None, vn\<lparr>vn_outcome := Some Accepted\<rparr>)
       \<or> ys = [Broken] \<and> (\<exists>vn'. poll_verdict run sha256 crashed ck sent vn = Some (Some Broken, vn'))"
proof (cases crashed)
  case True
  then show ?thesis using assms by (simp add: verdict_items_def poll_verdict_def)
next
  case False
  then obtain v where "thread_verdict run sha256 ck sent = Some v" using assms by (auto simp: verdict_items_def)
  then show ?thesis using assms False by (cases v) (auto simp: verdict_items_def poll_verdict_def refuse_def)
qed

lemma inline_poll:
  assumes "vn_engine vn = Inline ck" "vn_outcome vn = None"
    "inline_items run sha256 ck (vn_inner vn) = Some ys"
  shows "case ys of
      [] \<Rightarrow> poll_next run sha256 closed crashed vn = Some (None, vn\<lparr>vn_outcome := Some Accepted\<rparr>)
    | Chunk c # zs \<Rightarrow> \<exists>ck' rest. inline_items run sha256 ck' rest = Some zs \<and>
        poll_next run sha256 closed crashed vn =
          Some (Some (Chunk c), vn\<lparr>vn_inner := rest, vn_engine := Inline ck'\<rparr>)
    | x # zs \<Rightarrow> \<exists>vn'. poll_next run sha256 closed crashed vn = Some (Some x, vn')"
proof (cases "vn_inner vn")
  case Nil
  then show ?thesis using assms by (auto simp: poll_next_def refuse_def split: sum.splits)
next
  case (Cons x rest)
  show ?thesis
  proof (cases x)
    case (Chunk c)
    obtain r ck' where f: "feed run ck c = Some (r, ck')"
      using assms(3) Cons Chunk by (cases "feed run ck c") auto
    show ?thesis
    proof (cases r)
      case (Inr u)
      then show ?thesis using assms Cons Chunk f
        by (cases "inline_items run sha256 ck' rest") (auto simp: poll_next_def intro!: exI [of _ ck'] exI [of _ rest])
    qed (use assms Cons Chunk f in \<open>auto simp: poll_next_def refuse_def\<close>)
  qed (use assms Cons in \<open>auto simp: poll_next_def\<close>)
qed

lemma offload_poll:
  assumes "vn_engine vn = Offload ck sent" "vn_outcome vn = None"
    "offload_items run sha256 closed crashed ck sent (vn_inner vn) = Some ys"
  shows "case ys of
      [] \<Rightarrow> poll_next run sha256 closed crashed vn = Some (None, vn\<lparr>vn_outcome := Some Accepted\<rparr>)
    | Chunk c # zs \<Rightarrow> \<exists>rest. offload_items run sha256 closed crashed ck (sent @ [c]) rest = Some zs \<and>
        poll_next run sha256 closed crashed vn =
          Some (Some (Chunk c), vn\<lparr>vn_inner := rest, vn_engine := Offload ck (sent @ [c])\<rparr>)
    | x # zs \<Rightarrow> \<exists>vn'. poll_next run sha256 closed crashed vn = Some (Some x, vn')"
proof (cases "vn_inner vn")
  case Nil
  then show ?thesis using assms poll_verdict_items [of run sha256 crashed ck sent ys vn]
    by (auto simp: poll_next_def)
next
  case (Cons x rest)
  show ?thesis
  proof (cases x)
    case (Chunk c)
    show ?thesis
    proof (cases "queue_closed run closed crashed ck sent")
      case True
      then show ?thesis
        using assms Cons Chunk queue_closed_refused [OF True, of sha256]
          poll_verdict_items [of run sha256 crashed ck sent ys "vn\<lparr>vn_inner := rest\<rparr>"]
        by (auto simp: poll_next_def)
    next
      case False
      then show ?thesis using assms Cons Chunk by (auto simp: poll_next_def)
    qed
  qed (use assms Cons in \<open>auto simp: poll_next_def\<close>)
qed

text \<open>The verified stream meets the reader's interface, and its end means acceptance.\<close>

lemma verified_poll:
  assumes "vn_live run sha256 closed crashed vn"
  shows "case the (vn_items run sha256 closed crashed vn) of
      [] \<Rightarrow> \<exists>vn'. poll_next run sha256 closed crashed vn = Some (None, vn') \<and> vn_outcome vn' = Some Accepted
    | Chunk c # zs \<Rightarrow> \<exists>vn'. poll_next run sha256 closed crashed vn = Some (Some (Chunk c), vn')
        \<and> vn_items run sha256 closed crashed vn' = Some zs \<and> vn_outcome vn' = None
    | x # zs \<Rightarrow> \<exists>vn'. poll_next run sha256 closed crashed vn = Some (Some x, vn')"
proof (cases "vn_outcome vn")
  case (Some oc)
  then show ?thesis using assms by (auto simp: vn_live_def vn_items_def poll_next_def)
next
  case None
  obtain ys where ys: "vn_items run sha256 closed crashed vn = Some ys" using assms by (auto simp: vn_live_def)
  show ?thesis
  proof (cases "vn_engine vn")
    case (Inline ck)
    then have "inline_items run sha256 ck (vn_inner vn) = Some ys" using ys None by (simp add: vn_items_def)
    from inline_poll [OF Inline None this, of closed crashed] show ?thesis
      using ys None by (auto simp: vn_items_def split: list.splits body_item.splits)
  next
    case (Offload ck sent)
    then have "offload_items run sha256 closed crashed ck sent (vn_inner vn) = Some ys"
      using ys None by (simp add: vn_items_def)
    from offload_poll [OF Offload None this] show ?thesis
      using ys None by (auto simp: vn_items_def split: list.splits body_item.splits)
  qed
qed

interpretation verified: body_stream "poll_next run sha256 closed crashed"
  "\<lambda>vn. the (vn_items run sha256 closed crashed vn)" "\<lambda>vn. vn_outcome vn = Some Accepted"
  "vn_live run sha256 closed crashed"
  for run :: "'d zstd_run" and sha256 closed crashed
proof unfold_locales
  fix vn c xs x
  assume live: "vn_live run sha256 closed crashed vn"
  note poll = verified_poll [OF live]
  show "the (vn_items run sha256 closed crashed vn) = [] \<Longrightarrow>
      \<exists>vn'. poll_next run sha256 closed crashed vn = Some (None, vn') \<and> the (vn_items run sha256 closed crashed vn') = []
        \<and> vn_outcome vn' = Some Accepted \<and> vn_live run sha256 closed crashed vn'"
    using poll by (auto simp: vn_live_def vn_items_def)
  show "the (vn_items run sha256 closed crashed vn) = Chunk c # xs \<Longrightarrow>
      \<exists>vn'. poll_next run sha256 closed crashed vn = Some (Some (Chunk c), vn')
        \<and> the (vn_items run sha256 closed crashed vn') = xs \<and> vn_live run sha256 closed crashed vn'"
    using poll by (auto simp: vn_live_def)
  show "the (vn_items run sha256 closed crashed vn) = x # xs \<Longrightarrow> x = Broken \<or> x = Stalled \<Longrightarrow>
      \<exists>vn'. poll_next run sha256 closed crashed vn = Some (Some x, vn')"
    using poll by auto
qed

end
