(* ===== verification/Upload_Laws.thy ===== *)
theory Upload_Laws
  imports Verify
begin

text \<open>
  What the upload path promises: a blob is stored only after its NAR has been checked against
  the claim, it is exactly the bytes that were checked, both engines of the check agree, and the
  whole returns whenever the decoder makes progress.
\<close>

section \<open>Which streams end in acceptance\<close>

lemma thread_verdict_Cons:
  "thread_verdict run sha256 ck (c # cs) =
     (case feed run ck c of
        None \<Rightarrow> None
      | Some (Inl e, _) \<Rightarrow> Some (Inl e)
      | Some (Inr _, ck') \<Rightarrow> thread_verdict run sha256 ck' cs)"
  by (auto simp: thread_verdict_def split: option.splits sum.splits prod.splits)

lemma feed_all_refused_append:
  "feed_all run ck sent = Some (Inl e, ck') \<Longrightarrow> feed_all run ck (sent @ cs) = Some (Inl e, ck')"
  by (induction run ck sent rule: feed_all.induct) (auto split: option.splits sum.splits prod.splits)

lemma inline_clean:
  "inline_items run sha256 ck xs = Some ys \<Longrightarrow>
     (clean ys \<longrightarrow> ys = xs) \<and>
     (clean ys \<longleftrightarrow> (\<exists>cs. xs = map Chunk cs \<and> thread_verdict run sha256 ck cs = Some (Inr ())))"
proof (induction run sha256 ck xs arbitrary: ys rule: inline_items.induct)
  case (1 run sha256 ck)
  then show ?case by (cases "finish sha256 ck") (auto simp: thread_verdict_def)
next
  case (2 run sha256 ck c xs)
  obtain r ck' where f: "feed run ck c = Some (r, ck')" using 2(2) by (cases "feed run ck c") auto
  show ?case
  proof (cases r)
    case (Inl e)
    then show ?thesis using 2(2) f by (auto simp: thread_verdict_Cons Cons_eq_map_conv)
  next
    case (Inr u)
    then obtain zs where zs: "inline_items run sha256 ck' xs = Some zs" "ys = Chunk c # zs"
      using 2(2) f by auto
    show ?thesis using 2(1) [OF f refl Inr zs(1)] zs(2) f Inr
      by (auto simp: thread_verdict_Cons Cons_eq_map_conv)
  qed
qed auto

lemma offload_clean:
  "offload_items run sha256 closed crashed ck sent xs = Some ys \<Longrightarrow>
     (clean ys \<longrightarrow> ys = xs) \<and>
     (clean ys \<longleftrightarrow> \<not> crashed \<and> (\<exists>cs. xs = map Chunk cs \<and> thread_verdict run sha256 ck (sent @ cs) = Some (Inr ())))"
proof (induction run sha256 closed crashed ck sent xs arbitrary: ys rule: offload_items.induct)
  case (1 run sha256 closed crashed ck sent)
  show ?case
  proof (cases crashed)
    case False
    then obtain v where "thread_verdict run sha256 ck sent = Some v"
      using 1 by (auto simp: verdict_items_def)
    then show ?thesis using 1 False by (cases v) (auto simp: verdict_items_def)
  qed (use 1 in \<open>auto simp: verdict_items_def\<close>)
next
  case (2 run sha256 closed crashed ck sent c xs)
  show ?case
  proof (cases "queue_closed run closed crashed ck sent")
    case True
    then have "ys = [Broken]" using 2(2) queue_closed_refused [OF True, of sha256] by simp
    moreover have "thread_verdict run sha256 ck (sent @ cs) \<noteq> Some (Inr ())" if "\<not> crashed" for cs
      using True that feed_all_refused_append [of run ck sent _ _ cs]
      by (auto simp: queue_closed_def thread_verdict_def split: option.splits sum.splits prod.splits)
    ultimately show ?thesis by auto
  next
    case False
    then obtain zs where zs: "offload_items run sha256 closed crashed ck (sent @ [c]) xs = Some zs"
      "ys = Chunk c # zs" using 2(2) by auto
    show ?thesis using 2(1) [OF False zs(1)] zs(2) by (auto simp: Cons_eq_map_conv)
  qed
qed auto

lemma verified_clean:
  assumes "vn = with_offload cb d inner h n offload" "vn_items run sha256 closed crashed vn = Some ys"
  shows "(clean ys \<longrightarrow> ys = inner) \<and>
    (clean ys \<longleftrightarrow> \<not> (offload \<and> crashed) \<and>
       (\<exists>cs. inner = map Chunk cs \<and> thread_verdict run sha256 (new_checker cb d h n) cs = Some (Inr ())))"
proof (cases offload)
  case True
  then have "offload_items run sha256 closed crashed (new_checker cb d h n) [] inner = Some ys"
    using assms by (simp add: with_offload_def vn_items_def Let_def)
  from offload_clean [OF this] show ?thesis using True by simp
next
  case False
  then have "inline_items run sha256 (new_checker cb d h n) inner = Some ys"
    using assms by (simp add: with_offload_def vn_items_def Let_def)
  from inline_clean [OF this] show ?thesis using False by simp
qed

lemma lead_map_Chunk [simp]: "lead (map Chunk cs) = concat cs"
  by (induction cs) simp_all

section \<open>The check always returns\<close>

text \<open>
  What zstd documents of a streaming call: it consumes no more than it is given and writes no more
  than the buffer holds, and given input it consumes or writes something.
\<close>

definition zstd_progress :: "'d zstd_run \<Rightarrow> bool" where
  "zstd_progress run \<longleftrightarrow>
     (\<forall>d src n out hint d'. run d src = Some (n, out, hint, d') \<longrightarrow>
        n \<le> length src \<and> length out \<le> SCRATCH \<and> (src \<noteq> [] \<longrightarrow> n > 0 \<or> out \<noteq> []))"

lemma feed_loop_returns:
  assumes p: "zstd_progress run"
  shows "\<exists>r ck'. feed_loop run ck src = Some (r, ck')"
proof (induction "length src + nat (ck_claimed_size ck - ck_nar_size ck)" arbitrary: ck src rule: less_induct)
  case less
  show ?case
  proof (cases "run (ck_decoder ck) src")
    case None
    then show ?thesis by (simp add: feed_loop.simps)
  next
    case (Some x)
    obtain n out hint d where x: "run (ck_decoder ck) src = Some (n, out, hint, d)" using Some by (cases x) auto
    have law: "n \<le> length src" "length out \<le> SCRATCH" "src \<noteq> [] \<longrightarrow> n > 0 \<or> out \<noteq> []"
      using p x unfolding zstd_progress_def by blast+
    show ?thesis
    proof (cases "ck_nar_size ck + int (length out) > ck_claimed_size ck \<or> (n = length src \<and> length out < SCRATCH)")
      case True
      then show ?thesis using x by (auto simp: feed_loop.simps [of run ck src] Let_def)
    next
      case False
      let ?ck = "ck\<lparr>ck_decoder := d, ck_nar_size := ck_nar_size ck + int (length out),
          ck_hashed := ck_hashed ck @ out,
          ck_frame_done := (hint = 0)\<rparr>"
      have prog: "n > 0 \<or> out \<noteq> []"
      proof (cases "src = []")
        case True
        then have "\<not> length out < SCRATCH" using False law(1) by simp
        then show ?thesis by (auto simp: SCRATCH_def)
      qed (use law in simp)
      from prog have "n > 0 \<or> length out > 0" by simp
      then have "length (drop n src) + nat (ck_claimed_size ?ck - ck_nar_size ?ck)
          < length src + nat (ck_claimed_size ck - ck_nar_size ck)"
        using False law(1) by (simp del: length_greater_0_conv) linarith
      moreover have "feed_loop run ck src = feed_loop run ?ck (drop n src)"
        using False x prog by (simp add: feed_loop.simps [of run ck src] Let_def del: if_split) blast
      ultimately show ?thesis using less [of "drop n src" ?ck] by simp
    qed
  qed
qed

lemma feed_returns:
  assumes "zstd_progress run"
  obtains r ck' where "feed run ck chunk = Some (r, ck')"
proof -
  have "\<exists>r ck'. feed run ck chunk = Some (r, ck')"
    using feed_loop_returns [OF assms, of "ck\<lparr>ck_compressed := saturating_add (ck_compressed ck) (length chunk)\<rparr>" chunk]
    by (auto simp: feed_def Let_def)
  then show ?thesis using that by blast
qed

lemma feed_all_returns:
  assumes "zstd_progress run"
  shows "\<exists>r ck'. feed_all run ck cs = Some (r, ck')"
proof (induction cs arbitrary: ck)
  case (Cons c cs)
  obtain r ck' where "feed run ck c = Some (r, ck')" using feed_returns [OF assms] .
  then show ?case using Cons by (cases r) simp_all
qed simp

lemma inline_items_returns:
  assumes "zstd_progress run"
  shows "\<exists>ys. inline_items run sha256 ck xs = Some ys"
proof (induction xs arbitrary: ck)
  case (Cons x xs)
  show ?case
  proof (cases x)
    case (Chunk c)
    obtain r ck' where "feed run ck c = Some (r, ck')" using feed_returns [OF assms] .
    then show ?thesis using Cons [of ck'] Chunk by (cases r) auto
  qed simp_all
qed simp

lemma verdict_items_returns:
  "zstd_progress run \<Longrightarrow> \<exists>ys. verdict_items run sha256 crashed ck sent = Some ys"
  using feed_all_returns [of run ck sent] by (auto simp: verdict_items_def thread_verdict_def)

lemma offload_items_returns:
  assumes "zstd_progress run"
  shows "\<exists>ys. offload_items run sha256 closed crashed ck sent xs = Some ys"
proof (induction xs arbitrary: sent)
  case (Cons x xs)
  show ?case
  proof (cases x)
    case (Chunk c)
    then show ?thesis using Cons [of "sent @ [c]"] verdict_items_returns [OF assms] by auto
  qed simp_all
qed (simp add: verdict_items_returns [OF assms])

lemma verified_live:
  "zstd_progress run \<Longrightarrow> vn_live run sha256 closed crashed (with_offload cb d inner h n offload)"
  using inline_items_returns [of run sha256] offload_items_returns [of run sha256 closed crashed]
  by (simp add: vn_live_def vn_items_def with_offload_def Let_def)

section \<open>Properties\<close>

lemma put_verified:
  assumes law: "s3_upload_law api get parts" and "0 < part_size l" and "zstd_progress run"
    and vn: "vn = new_verified cb d inner h n"
  shows "\<exists>r rd s'. put_streaming sha256 api pick (poll_next run sha256 closed crashed) l key vn hint s = Some (r, rd, s')
    \<and> (\<forall>x. r = Inr x \<longrightarrow> (\<exists>cs. inner = map Chunk cs \<and> nar_matches run sha256 d cs h n
          \<and> get s' = (get s)(key \<mapsto> concat cs) \<and> x = (sha256 (concat cs), length (concat cs))
          \<and> into_outcome (rd_body rd) = Some Accepted))
    \<and> ((\<nexists>cs. inner = map Chunk cs \<and> nar_matches run sha256 d cs h n) \<longrightarrow> get s' = get s)"
proof -
  have live: "vn_live run sha256 closed crashed vn"
    using verified_live [OF assms(3)] vn by (simp add: new_verified_def)
  obtain ys where ys: "vn_items run sha256 closed crashed vn = Some ys" using live by (auto simp: vn_live_def)
  obtain r rd s' where run: "put_streaming sha256 api pick (poll_next run sha256 closed crashed) l key vn hint s = Some (r, rd, s')"
    and st: "verified.stored get key (clean ys) (lead ys) s (\<exists>x. r = Inr x) rd s'"
    and fin: "\<forall>x. r = Inr x \<longrightarrow> x = reader_finish sha256 rd"
    using verified.put_streaming_returns [OF law assms(2) live, of sha256 pick key hint s] ys by auto
  have acc: "\<exists>cs. inner = map Chunk cs \<and> ys = inner \<and> nar_matches run sha256 d cs h n" if "clean ys"
    using that verified_clean [OF vn [unfolded new_verified_def] ys]
    by (auto dest: thread_verdict_accepts)
  have ok: "\<exists>cs. inner = map Chunk cs \<and> nar_matches run sha256 d cs h n
      \<and> get s' = (get s)(key \<mapsto> concat cs) \<and> x = (sha256 (concat cs), length (concat cs))
      \<and> into_outcome (rd_body rd) = Some Accepted" if "r = Inr x" for x
    using that st fin acc
    by (auto simp: verified.stored_def verified.cut_def reader_finish_def into_outcome_def)
  have "get s' = get s" if "\<nexists>cs. inner = map Chunk cs \<and> nar_matches run sha256 d cs h n"
    using that st acc by (auto simp: verified.stored_def split: if_splits)
  then show ?thesis using run ok by blast
qed

text \<open>An upload writes its own key or nothing, whether it succeeds or not.\<close>

lemma put_effect:
  assumes law: "s3_upload_law api get parts" and "0 < part_size l" and "zstd_progress run"
    and vn: "vn = new_verified cb d inner h n"
    and run: "put_streaming sha256 api pick (poll_next run sha256 closed crashed) l key vn hint s = Some (r, rd, s')"
  shows "get s' = get s \<or> (\<exists>b. get s' = (get s)(key \<mapsto> b))"
proof -
  have live: "vn_live run sha256 closed crashed vn"
    using verified_live [OF assms(3)] vn by (simp add: new_verified_def)
  then obtain ys where "vn_items run sha256 closed crashed vn = Some ys" by (auto simp: vn_live_def)
  then have "verified.stored get key (clean ys) (lead ys) s (\<exists>x. r = Inr x) rd s'"
    using verified.put_streaming_returns [OF law assms(2) live, of sha256 pick key hint s] run by auto
  then show ?thesis by (auto simp: verified.stored_def split: if_splits)
qed

text \<open>
  C8. Verified before stored: an upload through the check always returns, and it succeeds
  only when the body arrived whole and decompresses to a NAR with exactly the claimed size and
  hash; the blob is then exactly the bytes received, with their digest and length reported, and
  the outcome is acceptance. A body that does not match its claim leaves the store as it was,
  whatever part size, part completion order, thread timing or S3 failures occur.
\<close>

theorem upload_verified_before_stored:
  assumes law: "s3_upload_law api get parts" and "0 < part_size l" and "zstd_progress run"
    and vn: "vn = new_verified cb d inner h n"
  shows "\<exists>r rd s'. put_streaming sha256 api pick (poll_next run sha256 closed crashed) l key vn hint s = Some (r, rd, s')
    \<and> (\<forall>x. r = Inr x \<longrightarrow> (\<exists>cs. inner = map Chunk cs \<and> nar_matches run sha256 d cs h n
          \<and> get s' = (get s)(key \<mapsto> concat cs) \<and> x = (sha256 (concat cs), length (concat cs))
          \<and> into_outcome (rd_body rd) = Some Accepted))
    \<and> ((\<nexists>cs. inner = map Chunk cs \<and> nar_matches run sha256 d cs h n) \<longrightarrow> get s' = get s)"
  using put_verified [OF assms] .

text \<open>A decoder that copies its input, and an S3 in memory, for concrete runs.\<close>

definition copy_run :: "unit zstd_run" where
  "copy_run d src = Some (min SCRATCH (length src), take SCRATCH src, 0, ())"

type_synonym mem_s3 = "(string \<rightharpoonup> bytes) \<times> (string \<times> string \<times> nat \<rightharpoonup> bytes)"

definition mem_api :: "mem_s3 s3_api" where
  "mem_api =
     \<lparr>api_put = (\<lambda>(g, p) k b. (True, g(k \<mapsto> b), p)),
      api_create = (\<lambda>(g, p) k. (Some ''id'', g, p)),
      api_part = (\<lambda>(g, p) k i n b. (Some (Some ''etag''), g, p((k, i, n) \<mapsto> b))),
      api_complete = (\<lambda>(g, p) k i cs. (True, g(k \<mapsto> concat (map (\<lambda>c. the (p (k, i, fst c))) cs)), p)),
      api_abort = (\<lambda>(g, p) k i. (True, g, p))\<rparr>"

lemma mem_api_law: "s3_upload_law mem_api fst (\<lambda>s k i n. snd s (k, i, n))"
  unfolding s3_upload_law_def mem_api_def by auto

lemma copy_run_progress: "zstd_progress copy_run"
  by (auto simp: zstd_progress_def copy_run_def SCRATCH_def)

definition demo_limits :: upload_limits where
  "demo_limits = \<lparr>part_size = 4, max_parts_in_flight = 2, body_idle = 60, unit_bytes = 1, part_units = 4,
     total_units = 8\<rparr>"

theorem upload_verified_before_stored_witness:
  "\<exists>rd s'. put_streaming id mem_api id (poll_next copy_run id (\<lambda>_. False) False) demo_limits ''k''
       (new_verified id () [Chunk [7, 8]] (sha256_nix32 [7, 8]) 2) 10 (Map.empty, Map.empty) =
     Some (Inr ([7, 8], 2), rd, s') \<and> fst s' ''k'' = Some [7, 8] \<and> into_outcome (rd_body rd) = Some Accepted"
proof -
  let ?vn = "new_verified id () [Chunk [7, 8]] (sha256_nix32 [7, 8]) 2"
  let ?run = "put_streaming id mem_api id (poll_next copy_run id (\<lambda>_. False) False) demo_limits ''k'' ?vn 10 (Map.empty, Map.empty)"
  have fin: "map_option (\<lambda>(r, rd, s). r) ?run = Some (Inr ([7, 8], 2))"
    by (simp add: put_streaming_def clamp_def demo_limits_def fill.simps reader_next_def next_chunk_def
        new_reader_def new_verified_def with_offload_def poll_next_def new_checker_def feed_def
        feed_loop.simps copy_run_def SCRATCH_def OFFLOAD_MIN_def max_compressed_len_def saturating_add_def
        COMPRESSED_SLACK_def USIZE_MAX_def reader_append_def finish_def store_first_def put_def mem_api_def
        reader_finish_def Let_def)
  have pos: "0 < part_size demo_limits" by (simp add: demo_limits_def)
  obtain r rd s' where run: "?run = Some (r, rd, s')"
    and ok: "\<forall>x. r = Inr x \<longrightarrow> (\<exists>cs. [Chunk [7, 8]] = map Chunk cs
        \<and> nar_matches copy_run id () cs (sha256_nix32 [7, 8]) 2
        \<and> fst s' = [''k'' \<mapsto> concat cs] \<and> x = (id (concat cs), length (concat cs))
        \<and> into_outcome (rd_body rd) = Some Accepted)"
    using upload_verified_before_stored [where ?sha256.0 = id and pick = id and closed = "\<lambda>_. False"
        and crashed = False and key = "''k''" and hint = 10 and s = "(Map.empty, Map.empty)" and cb = id
        and d = "()" and inner = "[Chunk [7, 8]]" and h = "sha256_nix32 [7, 8]" and n = 2,
        OF mem_api_law pos copy_run_progress refl, unfolded fst_conv]
    by blast
  have r: "r = Inr ([7, 8], 2)" using fin run by simp
  obtain cs where cs: "[Chunk [7, 8]] = map Chunk cs"
    and st: "fst s' = [''k'' \<mapsto> concat cs]"
      "into_outcome (rd_body rd) = Some Accepted" using ok [THEN spec, THEN mp, OF r]
    by (elim exE conjE) (rule that; assumption)
  have "concat cs = [7, 8]" using arg_cong [OF cs, of lead] by simp
  then have "fst s' ''k'' = Some [7, 8]" using st(1) by simp
  then show ?thesis using run st(2) unfolding r by blast
qed



end
