(* ===== verification/Narinfo.thy ===== *)
theory Narinfo
  imports Fixtures
begin

text \<open>
  \<^verbatim>\<open>crates/garret-server/src/narinfo.rs\<close>: signing keys, the signed fingerprint, re-signing's
  verification, hash normalisation and the rendered narinfo.

  Base64 and ed25519 are not part of the repository: their functions are the fields of \<open>crypto\<close>.
  \<^verbatim>\<open>str::trim\<close> is modelled on ASCII white space, the only kind a key file holds.
\<close>

section \<open>Decimal numbers\<close>

definition digit_char :: "nat \<Rightarrow> char" where
  "digit_char n = char_of (48 + n)"

fun show_nat :: "nat \<Rightarrow> string" where
  "show_nat n = (if n < 10 then [digit_char n] else show_nat (n div 10) @ [digit_char (n mod 10)])"

declare show_nat.simps [simp del]

definition show_int :: "int \<Rightarrow> string" where
  "show_int i = (if i < 0 then CHR ''-'' # show_nat (nat (- i)) else show_nat (nat i))"

section \<open>Keys\<close>

record 'k crypto =
  b64_decode :: "string \<Rightarrow> bytes option"
  b64_encode :: "bytes \<Rightarrow> string"
  key_from_bytes :: "bytes \<Rightarrow> 'k"
  verifying_key :: "'k \<Rightarrow> bytes"
  ed_sign :: "'k \<Rightarrow> string \<Rightarrow> bytes"
  ed_verify :: "bytes \<Rightarrow> string \<Rightarrow> bytes \<Rightarrow> bool"

record 'k signing_key_file =
  sk_name :: string
  sk_key :: 'k

datatype narinfo_error =
    MalformedKey
  | BadBase64
  | ShortKey
  | UnsupportedHash
  | WrongLength nat
  | NoSigningKeys

definition is_space :: "char \<Rightarrow> bool" where
  "is_space c = (let n = (of_char c :: nat) in n = 32 \<or> (9 \<le> n \<and> n \<le> 13))"

definition trim :: "string \<Rightarrow> string" where
  "trim s = rev (dropWhile is_space (rev (dropWhile is_space s)))"

definition parse_key :: "'k crypto \<Rightarrow> string \<Rightarrow> narinfo_error + 'k signing_key_file" where
  "parse_key cr contents =
     (case split_once (CHR '':'') (trim contents) of
        None \<Rightarrow> Inl MalformedKey
      | Some (name, b64) \<Rightarrow>
          (case b64_decode cr b64 of
             None \<Rightarrow> Inl BadBase64
           | Some bs \<Rightarrow>
               if length bs < 32 then Inl ShortKey
               else Inr \<lparr>sk_name = name, sk_key = key_from_bytes cr (take 32 bs)\<rparr>))"

definition public_key :: "'k crypto \<Rightarrow> 'k signing_key_file \<Rightarrow> string" where
  "public_key cr k = sk_name k @ '':'' @ b64_encode cr (verifying_key cr (sk_key k))"

text \<open>\<^verbatim>\<open>Signature::from_slice\<close> takes exactly 64 bytes.\<close>

definition verifies :: "'k crypto \<Rightarrow> 'k signing_key_file \<Rightarrow> string \<Rightarrow> string \<Rightarrow> bool" where
  "verifies cr k sig fp =
     (case split_once (CHR '':'') sig of
        None \<Rightarrow> False
      | Some (name, b64) \<Rightarrow>
          if name \<noteq> sk_name k then False
          else (case b64_decode cr b64 of
                  None \<Rightarrow> False
                | Some bs \<Rightarrow> length bs = 64 \<and> ed_verify cr (verifying_key cr (sk_key k)) fp bs))"

definition key_sign :: "'k crypto \<Rightarrow> 'k signing_key_file \<Rightarrow> string \<Rightarrow> string" where
  "key_sign cr k fp = sk_name k @ '':'' @ b64_encode cr (ed_sign cr (sk_key k) fp)"

section \<open>Hashes, fingerprints and signatures\<close>

definition normalize_hash :: "'k crypto \<Rightarrow> string \<Rightarrow> narinfo_error + string" where
  "normalize_hash cr hash =
     (case (case strip_prefix ''sha256:'' hash of Some d \<Rightarrow> Some d | None \<Rightarrow> strip_prefix ''sha256-'' hash) of
        None \<Rightarrow> Inl UnsupportedHash
      | Some digest \<Rightarrow>
          if length digest = nix_base32_len 32 \<and> is_nix_base32 digest then Inr (''sha256:'' @ digest)
          else (case b64_decode cr digest of
                  None \<Rightarrow> Inl BadBase64
                | Some bs \<Rightarrow> if length bs \<noteq> 32 then Inl (WrongLength (length bs)) else Inr (sha256_nix32 bs)))"

fun join :: "string \<Rightarrow> string list \<Rightarrow> string" where
  "join sep [] = []"
| "join sep [x] = x"
| "join sep (x # y # ys) = x @ sep @ join sep (y # ys)"

definition fingerprint :: "object \<Rightarrow> string \<Rightarrow> string" where
  "fingerprint ob store_dir =
     (let refs = sort (map (\<lambda>r. store_dir @ ''/'' @ r) (obj_references ob)) in
      ''1;'' @ obj_store_path ob @ '';'' @ obj_nar_hash ob @ '';'' @ show_int (obj_nar_size ob) @ '';'' @ join '','' refs)"

definition sign :: "'k crypto \<Rightarrow> object \<Rightarrow> string \<Rightarrow> 'k signing_key_file list \<Rightarrow> narinfo_error + string list" where
  "sign cr ob store_dir keys =
     (if keys = [] then Inl NoSigningKeys
      else (let fp = fingerprint ob store_dir in Inr (map (\<lambda>k. key_sign cr k fp) keys)))"

definition verify_sigs :: "'k crypto \<Rightarrow> object \<Rightarrow> string \<Rightarrow> 'k signing_key_file list \<Rightarrow> bool" where
  "verify_sigs cr ob store_dir keys =
     (let fp = fingerprint ob store_dir in list_ex (\<lambda>sig. list_ex (\<lambda>k. verifies cr k sig fp) keys) (obj_sigs ob))"

section \<open>Rendering\<close>

definition line :: "string \<Rightarrow> string \<Rightarrow> string" where
  "line key value = key @ '': '' @ value @ [CHR 0x0A]"

definition opt_line :: "string \<Rightarrow> string option \<Rightarrow> string" where
  "opt_line key v = (case v of None \<Rightarrow> [] | Some x \<Rightarrow> line key x)"

definition render :: "object \<Rightarrow> string" where
  "render ob =
     line ''StorePath'' (obj_store_path ob)
   @ line ''URL'' (nar_url (obj_store_path_hash ob))
   @ line ''Compression'' ''zstd''
   @ line ''FileHash'' (obj_file_hash ob)
   @ line ''FileSize'' (show_int (obj_file_size ob))
   @ line ''NarHash'' (obj_nar_hash ob)
   @ line ''NarSize'' (show_int (obj_nar_size ob))
   @ line ''References'' (join '' '' (obj_references ob))
   @ opt_line ''Deriver'' (obj_deriver ob)
   @ opt_line ''CA'' (obj_ca ob)
   @ concat (map (line ''Sig'') (obj_sigs ob))"

section \<open>Numbers print without ambiguity\<close>

definition is_digit :: "char \<Rightarrow> bool" where
  "is_digit c = (let n = (of_char c :: nat) in 48 \<le> n \<and> n \<le> 57)"

lemma of_digit_char: "n < 10 \<Longrightarrow> (of_char (digit_char n) :: nat) = 48 + n"
  by (simp add: digit_char_def)

lemma digit_char_inject: "m < 10 \<Longrightarrow> n < 10 \<Longrightarrow> digit_char m = digit_char n \<Longrightarrow> m = n"
  by (metis of_digit_char add_left_cancel)

lemma show_nat_not_Nil [simp]: "show_nat n \<noteq> []"
  by (subst show_nat.simps) simp

lemma show_nat_digits: "list_all is_digit (show_nat n)"
proof (induction n rule: show_nat.induct)
  case (1 n)
  have "is_digit (digit_char (n mod 10))" "n < 10 \<Longrightarrow> is_digit (digit_char n)"
    by (simp_all add: is_digit_def of_digit_char Let_def)
  then show ?case using 1 by (subst show_nat.simps) simp
qed

lemma show_nat_inject: "show_nat m = show_nat n \<Longrightarrow> m = n"
proof (induction m arbitrary: n rule: show_nat.induct)
  case (1 m)
  have last: "last (show_nat k) = digit_char (k mod 10)" for k by (subst show_nat.simps) simp
  have but: "butlast (show_nat k) = (if k < 10 then [] else show_nat (k div 10))" for k
    by (subst show_nat.simps) simp
  have mods: "m mod 10 = n mod 10"
    using 1(2) last [of m] last [of n] by (intro digit_char_inject) simp_all
  have buts: "(if m < 10 then [] else show_nat (m div 10)) = (if n < 10 then [] else show_nat (n div 10))"
    using but [of m] but [of n] 1(2) by simp
  show ?case
  proof (cases "m < 10")
    case True
    then show ?thesis using buts mods show_nat_not_Nil [THEN not_sym] by (auto split: if_splits)
  next
    case False
    then have "m div 10 = n div 10" using buts 1(1) by (auto split: if_splits)
    then show ?thesis using mods by (metis div_mult_mod_eq)
  qed
qed

lemma show_int_inject: "show_int i = show_int j \<longleftrightarrow> i = j"
proof
  assume eq: "show_int i = show_int j"
  have hd: "hd (show_nat n) \<noteq> CHR ''-''" for n
    using show_nat_digits [of n] by (cases "show_nat n") (auto simp: is_digit_def Let_def)
  show "i = j"
  proof (cases "i < 0 \<longleftrightarrow> j < 0")
    case True
    then show ?thesis using eq by (auto simp: show_int_def split: if_splits dest!: show_nat_inject)
  next
    case False
    then show ?thesis using eq hd by (auto simp: show_int_def split: if_splits) (metis list.sel(1))+
  qed
qed simp

lemma show_int_chars: "c \<in> set (show_int i) \<Longrightarrow> is_digit c \<or> c = CHR ''-''"
  using show_nat_digits by (auto simp: show_int_def list_all_iff split: if_splits)

section \<open>What a signature binds\<close>

lemma split_at_inject:
  assumes "a @ c # b = a' @ c # b'" "c \<notin> set a" "c \<notin> set a'"
  shows "a = a' \<and> b = b'"
proof -
  have "split_once c (a @ c # b) = Some (a, b)" "split_once c (a @ c # b) = Some (a', b')"
    using assms by (simp_all add: split_once_Some)
  then show ?thesis by simp
qed

lemma join_inject:
  assumes "join [c] xs = join [c] ys" "\<forall>x \<in> set xs. c \<notin> set x \<and> x \<noteq> []" "\<forall>y \<in> set ys. c \<notin> set y \<and> y \<noteq> []"
  shows "xs = ys"
  using assms
proof (induction "[c]" xs arbitrary: ys rule: join.induct)
  case 1
  then show ?case by (cases ys; cases "tl ys") auto
next
  case (2 x)
  then show ?case by (cases ys; cases "tl ys") auto
next
  case (3 x y zs)
  show ?case
  proof (cases ys)
    case (Cons a as)
    show ?thesis
    proof (cases as)
      case Nil
      then have "x @ c # join [c] (y # zs) = a" using 3(2) Cons by simp
      then have "c \<in> set a" by (metis in_set_conv_decomp)
      then show ?thesis using 3(4) Cons by simp
    next
      case (Cons b bs)
      then have "x @ c # join [c] (y # zs) = a @ c # join [c] (b # bs)" using 3(2) \<open>ys = a # as\<close> by simp
      then have "x = a \<and> join [c] (y # zs) = join [c] (b # bs)"
        by (rule split_at_inject) (use 3(3,4) \<open>ys = a # as\<close> in auto)
      then show ?thesis using 3(1) [of "b # bs"] 3(3,4) \<open>ys = a # as\<close> Cons by auto
    qed
  qed (use 3(2,3) in auto)
qed

lemma sort_map_prefix: "sort (map (\<lambda>r. p @ r) xs) = sort (map (\<lambda>r. p @ r) ys) \<longleftrightarrow> mset xs = mset ys" (is "?l \<longleftrightarrow> ?r")
proof
  assume ?l
  then have "mset (map (\<lambda>r. p @ r) xs) = mset (map (\<lambda>r. p @ r) ys)" by (metis mset_sort)
  then have "image_mset (\<lambda>r. drop (length p) (p @ r)) (mset xs) = image_mset (\<lambda>r. drop (length p) (p @ r)) (mset ys)"
    by (metis (no_types, lifting) image_mset.compositionality mset_map comp_def multiset.map_cong)
  then show ?r by simp
next
  assume ?r
  then show ?l by (metis mset_map properties_for_sort mset_sort sorted_sort)
qed

text \<open>What the signed fields must not contain: the separators.\<close>

definition fields_clean :: "object \<Rightarrow> bool" where
  "fields_clean ob \<longleftrightarrow> CHR '';'' \<notin> set (obj_store_path ob) \<and> CHR '';'' \<notin> set (obj_nar_hash ob)
     \<and> list_all (\<lambda>r. CHR '','' \<notin> set r) (obj_references ob)"

text \<open>
  C38. The fingerprint, the text a signature is over, identifies what it covers: two objects
  with the same fingerprint have the same store path, NAR hash, NAR size and references (in any
  order), so a signature of one vouches for nothing else.
\<close>

theorem fingerprint_binds:
  assumes "fields_clean ob" "fields_clean ob'" "CHR '','' \<notin> set dir"
  shows "fingerprint ob dir = fingerprint ob' dir \<longleftrightarrow>
    obj_store_path ob = obj_store_path ob' \<and> obj_nar_hash ob = obj_nar_hash ob' \<and> obj_nar_size ob = obj_nar_size ob'
    \<and> mset (obj_references ob) = mset (obj_references ob')" (is "?l \<longleftrightarrow> ?r")
proof -
  define rs where "rs ob = sort (map (\<lambda>r. (dir @ ''/'') @ r) (obj_references ob))" for ob :: object
  have fp: "fingerprint ob dir = ''1;'' @ obj_store_path ob @ CHR '';'' # obj_nar_hash ob @ CHR '';'' #
      show_int (obj_nar_size ob) @ CHR '';'' # join '','' (rs ob)" for ob :: object
    by (simp add: fingerprint_def rs_def)
  have num: "CHR '';'' \<notin> set (show_int i)" for i
    using show_int_chars [of "CHR '';''" i] by (auto simp: is_digit_def Let_def)
  have clean: "\<forall>x \<in> set (rs ob). CHR '','' \<notin> set x \<and> x \<noteq> []" if "fields_clean ob" for ob :: object
    using that assms(3) by (auto simp: rs_def fields_clean_def list_all_iff)
  show ?thesis
  proof
    assume ?l
    then have "obj_store_path ob @ CHR '';'' # obj_nar_hash ob @ CHR '';'' # show_int (obj_nar_size ob) @ CHR '';'' # join '','' (rs ob)
      = obj_store_path ob' @ CHR '';'' # obj_nar_hash ob' @ CHR '';'' # show_int (obj_nar_size ob') @ CHR '';'' # join '','' (rs ob')"
      by (simp add: fp)
    then have 1: "obj_store_path ob = obj_store_path ob'"
      and "obj_nar_hash ob @ CHR '';'' # show_int (obj_nar_size ob) @ CHR '';'' # join '','' (rs ob)
        = obj_nar_hash ob' @ CHR '';'' # show_int (obj_nar_size ob') @ CHR '';'' # join '','' (rs ob')"
      using split_at_inject assms(1,2) unfolding fields_clean_def by metis+
    then have 2: "obj_nar_hash ob = obj_nar_hash ob'"
      and "show_int (obj_nar_size ob) @ CHR '';'' # join '','' (rs ob)
        = show_int (obj_nar_size ob') @ CHR '';'' # join '','' (rs ob')"
      using split_at_inject assms(1,2) unfolding fields_clean_def by metis+
    then have 3: "obj_nar_size ob = obj_nar_size ob'" and "join '','' (rs ob) = join '','' (rs ob')"
      using split_at_inject num show_int_inject by metis+
    then have "rs ob = rs ob'" using join_inject clean assms by blast
    then show ?r using 1 2 3 by (simp add: rs_def sort_map_prefix del: append_assoc)
  next
    assume r: ?r
    then have "rs ob = rs ob'" by (simp only: rs_def sort_map_prefix)
    then show ?l using r by (simp add: fp)
  qed
qed

theorem fingerprint_binds_witness:
  "fingerprint (referencing [''b'', ''a''] (fixture_object ''h'')) ''/nix/store'' = fingerprint (referencing [''a'', ''b''] (fixture_object ''h'')) ''/nix/store''
   \<and> fingerprint (referencing [''a''] (fixture_object ''h'')) ''/nix/store'' \<noteq> fingerprint (referencing [''a'', ''b''] (fixture_object ''h'')) ''/nix/store''"
proof -
  have clean: "fields_clean (referencing rs (fixture_object ''h''))" if "list_all (\<lambda>r. CHR '','' \<notin> set r) rs" for rs
    using that by (simp add: fields_clean_def referencing_def fixture_object_def)
  have refs: "obj_references (referencing rs ob) = rs" for rs ob by (simp add: referencing_def)
  show ?thesis
    using fingerprint_binds [OF clean [of "[''b'', ''a'']"] clean [of "[''a'', ''b'']"], of "''/nix/store''"]
      fingerprint_binds [OF clean [of "[''a'']"] clean [of "[''a'', ''b'']"], of "''/nix/store''"]
    by (simp add: refs) (simp add: referencing_def add_mset_commute)
qed

section \<open>Signing and verifying\<close>

text \<open>
  What the code relies on from base64 and ed25519: encoding is undone by decoding and four
  characters stand for three bytes; a signature is 64 bytes and verifies under its key's public half.
\<close>

definition crypto_law :: "'k crypto \<Rightarrow> bool" where
  "crypto_law cr \<longleftrightarrow> (\<forall>bs. b64_decode cr (b64_encode cr bs) = Some bs \<and> length (b64_encode cr bs) = 4 * ((length bs + 2) div 3))
     \<and> (\<forall>k m. length (ed_sign cr k m) = 64 \<and> ed_verify cr (verifying_key cr k) m (ed_sign cr k m))"

lemma parse_key_name:
  assumes "parse_key cr s = Inr k"
  shows "CHR '':'' \<notin> set (sk_name k)"
  using assms by (auto simp: parse_key_def split_once_Some split: option.splits prod.splits if_splits)

lemma verifies_key_sign:
  assumes "crypto_law cr" "CHR '':'' \<notin> set (sk_name k)"
  shows "verifies cr k (key_sign cr k fp) fp"
proof -
  have "split_once (CHR '':'') (key_sign cr k fp) = Some (sk_name k, b64_encode cr (ed_sign cr (sk_key k) fp))"
    using assms(2) by (simp add: split_once_Some key_sign_def)
  then show ?thesis using assms(1) by (simp add: verifies_def crypto_law_def)
qed

lemma fingerprint_sigs [simp]: "fingerprint (ob\<lparr>obj_sigs := s\<rparr>) dir = fingerprint ob dir"
  by (simp add: fingerprint_def)

text \<open>
  C39. Signing with keys read from key files gives one signature per key, in their order, and the
  signed object verifies under any set of keys that shares one with the signer's (key rotation
  with an overlap). An object without signatures verifies under none.
\<close>

theorem sign_verify_roundtrip:
  assumes "crypto_law cr" "keys \<noteq> []" "list_all (\<lambda>k. \<exists>s. parse_key cr s = Inr k) keys" "set keys \<inter> set keys' \<noteq> {}"
  shows "\<exists>sigs. sign cr ob dir keys = Inr sigs \<and> length sigs = length keys
    \<and> verify_sigs cr (ob\<lparr>obj_sigs := sigs\<rparr>) dir keys' \<and> \<not> verify_sigs cr (ob\<lparr>obj_sigs := []\<rparr>) dir keys'"
proof -
  let ?fp = "fingerprint ob dir"
  obtain k where k: "k \<in> set keys" "k \<in> set keys'" using assms(4) by blast
  then have "CHR '':'' \<notin> set (sk_name k)" using assms(3) parse_key_name by (auto simp: list_all_iff)
  then have "verifies cr k (key_sign cr k ?fp) ?fp" by (rule verifies_key_sign [OF assms(1)])
  then show ?thesis
    using k assms(2) by (auto simp: sign_def verify_sigs_def list_ex_iff)
qed

text \<open>A concrete codec and signature scheme that satisfy the laws.\<close>

definition byte_char :: "u8 \<Rightarrow> char" where "byte_char b = char_of (unat b)"

definition char_byte :: "char \<Rightarrow> u8" where "char_byte c = word_of_nat (of_char c)"

lemma char_byte_char [simp]: "char_byte (byte_char b) = b"
proof -
  have "unat b < 256" using unsigned_less [of b] by simp
  then show ?thesis by (simp add: char_byte_def byte_char_def)
qed

fun demo_b64_encode :: "bytes \<Rightarrow> string" where
  "demo_b64_encode [] = []"
| "demo_b64_encode [a] = [byte_char a, CHR ''='', CHR ''='', CHR ''1'']"
| "demo_b64_encode [a, b] = [byte_char a, byte_char b, CHR ''='', CHR ''2'']"
| "demo_b64_encode (a # b # c # bs) = [byte_char a, byte_char b, byte_char c, CHR ''3''] @ demo_b64_encode bs"

fun demo_b64_decode :: "string \<Rightarrow> bytes option" where
  "demo_b64_decode [] = Some []"
| "demo_b64_decode (a # b # c # d # cs) =
     map_option (\<lambda>bs. (if d = CHR ''1'' then [char_byte a] else if d = CHR ''2'' then [char_byte a, char_byte b]
                       else [char_byte a, char_byte b, char_byte c]) @ bs) (demo_b64_decode cs)"
| "demo_b64_decode cs = None"

definition demo_signature :: "bytes \<Rightarrow> string \<Rightarrow> bytes" where
  "demo_signature k m = take 64 (k @ map char_byte m @ replicate 64 0)"

definition demo_crypto :: "bytes crypto" where
  "demo_crypto = \<lparr>b64_decode = demo_b64_decode, b64_encode = demo_b64_encode, key_from_bytes = id, verifying_key = id,
     ed_sign = demo_signature, ed_verify = (\<lambda>pk m s. s = demo_signature pk m)\<rparr>"

lemma crypto_law_demo: "crypto_law demo_crypto"
proof -
  have "demo_b64_decode (demo_b64_encode bs) = Some bs" for bs
    by (induction bs rule: demo_b64_encode.induct) simp_all
  moreover have "length (demo_b64_encode bs) = 4 * ((length bs + 2) div 3)" for bs
    by (induction bs rule: demo_b64_encode.induct) (simp_all, presburger)
  moreover have "length (demo_signature k m) = 64" for k m by (simp add: demo_signature_def)
  ultimately show ?thesis by (simp add: crypto_law_def demo_crypto_def)
qed

theorem sign_verify_roundtrip_witness:
  "\<exists>k sigs. parse_key demo_crypto (''cache-1:'' @ demo_b64_encode (replicate 64 7)) = Inr k \<and> sign demo_crypto (fixture_object ''h'') ''/nix/store'' [k] = Inr sigs
     \<and> verify_sigs demo_crypto ((fixture_object ''h'')\<lparr>obj_sigs := sigs\<rparr>) ''/nix/store'' [k]"
proof -
  let ?k = "\<lparr>sk_name = ''cache-1'', sk_key = replicate 32 7\<rparr> :: bytes signing_key_file"
  have k: "parse_key demo_crypto (''cache-1:'' @ demo_b64_encode (replicate 64 7)) = Inr ?k" by code_simp
  then show ?thesis
    using sign_verify_roundtrip [OF crypto_law_demo, of "[?k]" "[?k]" "fixture_object ''h''" "''/nix/store''"] by auto
qed

section \<open>Spellings of a hash\<close>

text \<open>
  C40. Hashes are normalised to one spelling: a 32-byte digest in nix-base32 (\<^verbatim>\<open>sha256:\<close>) and in SRI
  form (\<^verbatim>\<open>sha256-\<close> and base64) gives the same text, different digests give different texts, and
  whatever was accepted is normal, \<^verbatim>\<open>sha256:\<close> and 52 nix-base32 characters, and stays as it is.
\<close>

theorem normalize_hash_canonical:
  assumes "crypto_law cr"
  shows "(\<forall>bs. length bs = 32 \<longrightarrow> normalize_hash cr (''sha256-'' @ b64_encode cr bs) = Inr (sha256_nix32 bs)
            \<and> normalize_hash cr (sha256_nix32 bs) = Inr (sha256_nix32 bs))
       \<and> (\<forall>bs bs'. length bs = 32 \<longrightarrow> length bs' = 32 \<longrightarrow> sha256_nix32 bs = sha256_nix32 bs' \<longrightarrow> bs = bs')
       \<and> (\<forall>h h'. normalize_hash cr h = Inr h' \<longrightarrow> normalize_hash cr h' = Inr h'
            \<and> (\<exists>d. h' = ''sha256:'' @ d \<and> length d = 52 \<and> is_nix_base32 d))"
proof (intro conjI allI impI)
  fix bs :: bytes assume bs: "length bs = 32"
  have "length (b64_encode cr bs) = 44" "b64_decode cr (b64_encode cr bs) = Some bs"
    using assms bs by (simp_all add: crypto_law_def)
  then show "normalize_hash cr (''sha256-'' @ b64_encode cr bs) = Inr (sha256_nix32 bs)"
    using bs by (simp add: normalize_hash_def nix_base32_len_def)
  show "normalize_hash cr (sha256_nix32 bs) = Inr (sha256_nix32 bs)"
    using bs by (simp add: normalize_hash_def sha256_nix32_def is_nix_base32_encode)
next
  fix bs bs' :: bytes assume "length bs = 32" "length bs' = 32" "sha256_nix32 bs = sha256_nix32 bs'"
  then show "bs = bs'" using nix_base32_encode_inject by (simp add: sha256_nix32_def)
next
  fix h h' assume "normalize_hash cr h = Inr h'"
  then have ex: "\<exists>d. h' = ''sha256:'' @ d \<and> length d = nix_base32_len 32 \<and> is_nix_base32 d"
    by (auto simp: normalize_hash_def sha256_nix32_def is_nix_base32_encode split: option.splits if_splits)
  then show "\<exists>d. h' = ''sha256:'' @ d \<and> length d = 52 \<and> is_nix_base32 d" by (simp add: nix_base32_len_def)
  from ex show "normalize_hash cr h' = Inr h'" by (auto simp: normalize_hash_def)
qed

theorem normalize_hash_canonical_witness:
  "normalize_hash demo_crypto (''sha256-'' @ b64_encode demo_crypto (replicate 32 9)) = Inr (sha256_nix32 (replicate 32 9))"
  using normalize_hash_canonical [OF crypto_law_demo] by simp
end
