(* ===== verification/Pusher.thy ===== *)
theory Pusher
  imports Upload_Laws Gc Narinfo
begin

text \<open>
  \<^verbatim>\<open>crates/garret-pusher/src/main.rs\<close>: the push protocol's handlers and their error answers.

  Handlers run as tasks: at each await the others act (\<open>env\<close>, as in theory \<open>Gc\<close>). Storing the body
  is one step on the object store's state, since the requests it makes are for its own key, whose
  claim it holds. An error's text is a value saying what it names; an internal error's is only
  the id under which its cause is logged. The random id, the JSON parser of the preamble, S3,
  zstd, SHA-256 and the signature scheme are parameters; the timing of part uploads and of the
  offloaded check is too (\<open>pick\<close>, \<open>closed\<close>, \<open>crashed\<close>). Start-up, routing and shutdown are not
  modelled, and neither are metrics and logs.
\<close>

section \<open>Errors\<close>

datatype status =
    StatusOk
  | StatusCreated
  | StatusFound
  | StatusBadRequest
  | StatusUnauthorized
  | StatusForbidden
  | StatusNotFound
  | StatusTooManyRequests
  | StatusInternal
  | StatusServiceUnavailable

datatype message =
    NotAStoreHash string
  | WrongStorePath string
  | BadReference string
  | BadDeriver string
  | BadCa string
  | BadNarHash narinfo_error
  | BodyEnded
  | ImplausibleLength
  | BadPreamble
  | BodyFailed
  | OverLimit
  | NarRefused check_error
  | TooManyUploads
  | BeingDeleted
  | IsQuiescing
  | InternalError nat

record http_error =
  err_status :: status
  err_message :: message
  err_reason :: "string option"
  err_retry_after :: bool

definition refused_error :: "message \<Rightarrow> http_error" where
  "refused_error m = \<lparr>err_status = StatusBadRequest, err_message = m, err_reason = Some ''refused'', err_retry_after = False\<rparr>"

definition retry_after_error :: "status \<Rightarrow> message \<Rightarrow> http_error" where
  "retry_after_error st m = \<lparr>err_status = st, err_message = m, err_reason = None, err_retry_after = True\<rparr>"

text \<open>What \<^verbatim>\<open>anyhow::Error\<close> carries here, and its conversion.\<close>

datatype failure =
    PutFailure put_error
  | DbFailure db_error
  | SignFailure narinfo_error
  | CheckFailed
  | NeverAccepted

definition error_of_failure :: "nat \<Rightarrow> failure \<Rightarrow> http_error" where
  "error_of_failure i e =
     (if e = PutFailure BodyOverLimit then refused_error OverLimit
      else \<lparr>err_status = StatusInternal, err_message = InternalError i,
            err_reason = Some (if e = PutFailure ClientBodyError then ''client_body''
                               else if e = PutFailure S3Failure then ''storage'' else ''internal''),
            err_retry_after = False\<rparr>)"

text \<open>The response: a status, the \<^verbatim>\<open>Retry-After\<close> header, and the body.\<close>

definition error_response :: "http_error \<Rightarrow> status \<times> string option \<times> message" where
  "error_response e = (err_status e, if err_retry_after e then Some ''1'' else None, err_message e)"

definition quiescing_error :: http_error where
  "quiescing_error = retry_after_error StatusServiceUnavailable IsQuiescing"

section \<open>The preamble\<close>

definition MAX_PREAMBLE :: nat where "MAX_PREAMBLE = 1024 * 1024"

definition take_preamble :: "(bytes \<Rightarrow> preamble option) \<Rightarrow> bytes \<Rightarrow> http_error + (preamble \<times> bytes) option" where
  "take_preamble from_slice buf =
     (case preamble_end buf MAX_PREAMBLE of
        Inl _ \<Rightarrow> Inl (refused_error ImplausibleLength)
      | Inr None \<Rightarrow> Inr None
      | Inr (Some e) \<Rightarrow>
          (case from_slice (drop 4 (take e buf)) of
             None \<Rightarrow> Inl (refused_error BadPreamble)
           | Some p \<Rightarrow> Inr (Some (p, drop e buf))))"

text \<open>The loop that buffers chunks until the preamble is complete; the rest of the buffer starts the NAR.\<close>

fun read_preamble ::
  "(bytes \<Rightarrow> preamble option) \<Rightarrow> nat \<Rightarrow> bytes \<Rightarrow> body_item list \<Rightarrow> http_error + preamble \<times> bytes \<times> body_item list" where
  "read_preamble from_slice i head [] =
     (case take_preamble from_slice head of
        Inl e \<Rightarrow> Inl e
      | Inr (Some (p, rest)) \<Rightarrow> Inr (p, rest, [])
      | Inr None \<Rightarrow> Inl (refused_error BodyEnded))"
| "read_preamble from_slice i head (x # xs) =
     (case take_preamble from_slice head of
        Inl e \<Rightarrow> Inl e
      | Inr (Some (p, rest)) \<Rightarrow> Inr (p, rest, x # xs)
      | Inr None \<Rightarrow>
          (case x of
             Chunk c \<Rightarrow> read_preamble from_slice i (head @ c) xs
           | Broken \<Rightarrow> Inl (refused_error BodyFailed)
           | Stalled \<Rightarrow> Inl (error_of_failure i (PutFailure ClientBodyError))))"

fun basenames_of :: "string \<Rightarrow> string list \<Rightarrow> http_error + string list" where
  "basenames_of dir [] = Inr []"
| "basenames_of dir (r # rs) =
     (case store_basename r dir of
        None \<Rightarrow> Inl (refused_error (BadReference r))
      | Some b \<Rightarrow> map_sum id (Cons b) (basenames_of dir rs))"

definition own_name :: "hash \<Rightarrow> preamble \<Rightarrow> string \<Rightarrow> string option" where
  "own_name h p dir =
     (case store_basename (pre_store_path p) dir of
        None \<Rightarrow> None
      | Some base \<Rightarrow> (case strip_prefix h base of None \<Rightarrow> None | Some rest \<Rightarrow> strip_prefix ''-'' rest))"

definition deriver_of :: "string option \<Rightarrow> string \<Rightarrow> http_error + string option" where
  "deriver_of dr dir =
     (case dr of
        None \<Rightarrow> Inr None
      | Some x \<Rightarrow> (case store_basename x dir of None \<Rightarrow> Inl (refused_error (BadDeriver x)) | Some b \<Rightarrow> Inr (Some b)))"

definition ca_ok :: "string option \<Rightarrow> bool" where
  "ca_ok ca = (case ca of None \<Rightarrow> True | Some c \<Rightarrow> CHR 0x0A \<notin> set c \<and> CHR 0x0D \<notin> set c)"

definition build_object :: "'k crypto \<Rightarrow> hash \<Rightarrow> preamble \<Rightarrow> string \<Rightarrow> string \<Rightarrow> http_error + object" where
  "build_object cr h p dir subject =
     (case own_name h p dir of
        None \<Rightarrow> Inl (refused_error (WrongStorePath (pre_store_path p)))
      | Some name \<Rightarrow>
     (case basenames_of dir (pre_references p) of
        Inl e \<Rightarrow> Inl e
      | Inr refs \<Rightarrow>
     (case deriver_of (pre_deriver p) dir of
        Inl e \<Rightarrow> Inl e
      | Inr deriver \<Rightarrow>
          if \<not> ca_ok (pre_ca p) then Inl (refused_error (BadCa (the (pre_ca p))))
          else
     (case normalize_hash cr (pre_nar_hash p) of
        Inl e \<Rightarrow> Inl (refused_error (BadNarHash e))
      | Inr nh \<Rightarrow>
          Inr \<lparr>obj_store_path_hash = h, obj_store_path = pre_store_path p, obj_name = name, obj_nar_hash = nh,
               obj_nar_size = pre_nar_size p, obj_file_hash = [], obj_file_size = 0, obj_deriver = deriver,
               obj_ca = pre_ca p, obj_references = sort refs, obj_sigs = [], obj_pushed_by = Some subject\<rparr>))))"

section \<open>Storing an upload\<close>

record ('s, 'd, 'k) pusher =
  pu_from_slice :: "bytes \<Rightarrow> preamble option"
  pu_enc_sigs :: "string list \<Rightarrow> string"
  pu_crypto :: "'k crypto"
  pu_keys :: "'k signing_key_file list"
  pu_store_dir :: string
  pu_limits :: upload_limits
  pu_api :: "'s s3_api"
  pu_run :: "'d zstd_run"
  pu_decoder :: 'd
  pu_compress_bound :: "nat \<Rightarrow> nat"
  pu_sha256 :: "bytes \<Rightarrow> bytes"

record schedule =
  sc_pick :: "nat \<Rightarrow> nat"
  sc_closed :: "nat \<Rightarrow> bool"
  sc_crashed :: bool
  sc_id :: nat

definition signed_object :: "('s, 'd, 'k) pusher \<Rightarrow> object \<Rightarrow> bytes \<times> nat \<Rightarrow> narinfo_error + object" where
  "signed_object P ob stored =
     (let ob1 = ob\<lparr>obj_file_hash := sha256_nix32 (fst stored), obj_file_size := int (snd stored)\<rparr> in
      map_sum id (\<lambda>sigs. ob1\<lparr>obj_sigs := sigs\<rparr>) (sign (pu_crypto P) ob1 (pu_store_dir P) (pu_keys P)))"

text \<open>The verdict decides before the store's own result does.\<close>

definition upload_verdict :: "nat \<Rightarrow> outcome option \<Rightarrow> put_error + bytes \<times> nat \<Rightarrow> http_error + bytes \<times> nat" where
  "upload_verdict i out stored =
     (case out of
        Some Accepted \<Rightarrow> map_sum (\<lambda>e. error_of_failure i (PutFailure e)) id stored
      | Some Failed \<Rightarrow> Inl (error_of_failure i CheckFailed)
      | Some (Refused reason) \<Rightarrow> Inl (refused_error (NarRefused reason))
      | None \<Rightarrow> (case stored of
            Inl e \<Rightarrow> Inl (error_of_failure i (PutFailure e))
          | Inr _ \<Rightarrow> Inl (error_of_failure i NeverAccepted)))"

definition drop_upload :: "hash \<Rightarrow> 's world \<Rightarrow> 's world" where
  "drop_upload h w = w\<lparr>w_fl := drop_claim (w_fl w) h\<rparr>"

text \<open>The last database call inserts the row and only then drops the claim.\<close>

definition insert_upload :: "(string list \<Rightarrow> string) \<Rightarrow> nat \<Rightarrow> object \<Rightarrow> int \<Rightarrow> 's world \<Rightarrow> (http_error + int) \<times> 's world" where
  "insert_upload enc i ob at w =
     (case insert_object enc (w_db w) ob at of
        Inl e \<Rightarrow> (Inl (error_of_failure i (DbFailure e)), drop_upload (obj_store_path_hash ob) w)
      | Inr d \<Rightarrow> (Inr (obj_file_size ob), drop_upload (obj_store_path_hash ob) (w\<lparr>w_db := d\<rparr>)))"

text \<open>The NAR goes through the check into the store; what followed the preamble in its chunk is its start.\<close>

definition store_nar ::
  "('s, 'd, 'k) pusher \<Rightarrow> schedule \<Rightarrow> hash \<Rightarrow> object \<Rightarrow> bytes \<Rightarrow> body_item list \<Rightarrow> 's \<Rightarrow>
   ((put_error + bytes \<times> nat) \<times> 'd verified_nar reader \<times> 's) option" where
  "store_nar P sc h ob leftover rest s =
     put_streaming (pu_sha256 P) (pu_api P) (sc_pick sc)
       (poll_next (pu_run P) (pu_sha256 P) (sc_closed sc) (sc_crashed sc)) (pu_limits P) (key_for h)
       (new_verified (pu_compress_bound P) (pu_decoder P) (Chunk leftover # rest) (obj_nar_hash ob) (obj_nar_size ob))
       (max_compressed_len (pu_compress_bound P) (obj_nar_size ob)) s"

definition store_upload ::
  "'s env \<Rightarrow> (nat \<Rightarrow> int) \<Rightarrow> ('s, 'd, 'k) pusher \<Rightarrow> schedule \<Rightarrow> hash \<Rightarrow> string \<Rightarrow> body_item list \<Rightarrow> 's world \<Rightarrow>
   ((http_error + int) \<times> 's world) option" where
  "store_upload env clock P sc h subject body w =
     (let w1 = await env w in
      case read_preamble (pu_from_slice P) (sc_id sc) [] body of
        Inl e \<Rightarrow> Some (Inl e, drop_upload h w1)
      | Inr (p, leftover, rest) \<Rightarrow>
     (case build_object (pu_crypto P) h p (pu_store_dir P) subject of
        Inl e \<Rightarrow> Some (Inl e, drop_upload h w1)
      | Inr ob \<Rightarrow>
     (let w2 = await env w1 in
      case store_nar P sc h ob leftover rest (w_s3 w2) of
        None \<Rightarrow> None
      | Some (stored, rd, s) \<Rightarrow>
          (let w3 = w2\<lparr>w_s3 := s\<rparr> in
           case upload_verdict (sc_id sc) (into_outcome (rd_body rd)) stored of
             Inl e \<Rightarrow> Some (Inl e, drop_upload h w3)
           | Inr x \<Rightarrow>
               (case signed_object P ob x of
                  Inl e \<Rightarrow> Some (Inl (error_of_failure (sc_id sc) (SignFailure e)), drop_upload h w3)
                | Inr sob \<Rightarrow>
                    Some (insert_upload (pu_enc_sigs P) (sc_id sc) sob (clock (w_awaits w3)) (await env w3)))))))"

section \<open>The handlers\<close>

definition missing_paths :: "'s env \<Rightarrow> (nat \<Rightarrow> int) \<Rightarrow> hash list \<Rightarrow> 's world \<Rightarrow> hash list \<times> 's world" where
  "missing_paths env clock hashes w =
     (let w1 = await env w; (ms, d) = missing (w_db w1) hashes (clock (w_awaits w)) in (ms, w1\<lparr>w_db := d\<rparr>))"

definition already_stored :: "hash \<Rightarrow> 's world \<Rightarrow> bool" where
  "already_stored h w = exists_object (w_db w) h"

definition release_slot :: "'s world \<Rightarrow> 's world" where
  "release_slot w = w\<lparr>w_slots := w_slots w + 1\<rparr>"

text \<open>With the slot and the claim taken.\<close>

definition claimed_upload ::
  "'s env \<Rightarrow> (nat \<Rightarrow> int) \<Rightarrow> ('s, 'd, 'k) pusher \<Rightarrow> schedule \<Rightarrow> hash \<Rightarrow> string \<Rightarrow> body_item list \<Rightarrow> 's world \<Rightarrow>
   ((http_error + status \<times> upload_ack) \<times> 's world) option" where
  "claimed_upload env clock P sc h subject body w =
     (let w1 = await env w in
      if already_stored h w1 then Some (Inr (StatusOk, Exists), drop_upload h w1)
      else map_option (\<lambda>(r, w'). (map_sum id (\<lambda>_. (StatusCreated, Created)) r, w'))
             (store_upload env clock P sc h subject body w1))"

definition upload ::
  "'s env \<Rightarrow> (nat \<Rightarrow> int) \<Rightarrow> ('s, 'd, 'k) pusher \<Rightarrow> schedule \<Rightarrow> hash \<Rightarrow> string \<Rightarrow> body_item list \<Rightarrow> 's world \<Rightarrow>
   ((http_error + status \<times> upload_ack) \<times> 's world) option" where
  "upload env clock P sc h subject body w =
     (if is_quiescing (w_fl w) then Some (Inl quiescing_error, w)
      else if \<not> is_store_hash h then Some (Inl (refused_error (NotAStoreHash h)), w)
      else
        (let w1 = await env w in
         if already_stored h w1 then Some (Inr (StatusOk, Exists), w1)
         else if w_slots w1 = 0 then Some (Inl (retry_after_error StatusTooManyRequests TooManyUploads), w1)
         else
           (let w2 = w1\<lparr>w_slots := w_slots w1 - 1\<rparr> in
            case claim (w_fl w2) h of
              Inl RefusedUploading \<Rightarrow> Some (Inr (StatusOk, InProgress), release_slot w2)
            | Inl RefusedDeleting \<Rightarrow> Some (Inl (retry_after_error StatusServiceUnavailable BeingDeleted), release_slot w2)
            | Inl RefusedQuiescing \<Rightarrow> Some (Inl quiescing_error, release_slot w2)
            | Inr fl \<Rightarrow>
                map_option (\<lambda>(r, w'). (r, release_slot w'))
                  (claimed_upload env clock P sc h subject body (w2\<lparr>w_fl := fl\<rparr>)))))"

end
