(* ===== verification/Admin_Protocol.thy ===== *)
theory Admin_Protocol
  imports Garret_Prelude
begin

text \<open>
  \<^verbatim>\<open>crates/garret-common/src/admin.rs\<close>: the requests and responses of the admin socket. Their JSON
  encoding is derived by serde and not modelled; an error's \<^verbatim>\<open>message\<close> is whatever the handler's
  error type says.
\<close>

definition DEFAULT_ADMIN_SOCKET :: string where
  "DEFAULT_ADMIN_SOCKET = ''/run/garret/admin.sock''"

datatype repair = RepairNo | RepairLive | RepairQuiesced

datatype request =
    RStatus
  | RGcRun
  | RResign
  | RDelete (rq_hashes: "string list") (rq_dry_run: bool)
  | RPin (rq_name: string) (rq_hash: string) (rq_expires_at: "int option")
  | RUnpin (rq_unpin_name: string)
  | RFsck (rq_verify_sizes: bool) (rq_repair: repair)
  | RPrune (rq_before: int) (rq_prune_dry_run: bool)
  | RBackup (rq_path: string)
  | RDeletePushedBy (rq_subject: string) (rq_since: "int option") (rq_pushed_dry_run: bool)

record fsck_row =
  fr_store_path_hash :: hash
  fr_name :: string

record fsck_size_mismatch =
  fs_store_path_hash :: hash
  fs_name :: string
  fs_db_size :: int
  fs_s3_size :: int

record fsck_report =
  rep_dangling :: "fsck_row list"
  rep_size_mismatches :: "fsck_size_mismatch list"
  rep_orphans :: "string list"
  rep_repaired :: nat
  rep_quiesce_drained :: "bool option"

definition fsck_ok :: "fsck_report \<Rightarrow> bool" where
  "fsck_ok r = (rep_dangling r = [] \<and> rep_size_mismatches r = [] \<and> rep_quiesce_drained r \<noteq> Some False)"

datatype 'e response =
    AStatus nat int "int option" nat
  | AGc nat int bool
  | AResign nat nat
  | ADelete nat int "string list"
  | APin
  | AUnpin bool
  | AFsck fsck_report
  | APrune "string list" int
  | ABackup int
  | ADeletePushedBy "string list" int
  | AError 'e

end
