(* ===== verification/Fsck.thy ===== *)
theory Fsck
  imports Gc Admin_Protocol
begin

text \<open>
  \<^verbatim>\<open>crates/garret-pusher/src/fsck.rs\<close>: the audit of rows against blobs and its repair. Like the
  eviction pass it gives up the processor at every await, where \<open>env\<close> acts; the stretches in
  between are single steps. The wait for uploads to drain wakes up at most \<open>wakes\<close> times before
  its timeout.
\<close>

section \<open>Findings\<close>

datatype drift = Dangling | SizeMismatch int int

record finding =
  fd_hash :: hash
  fd_name :: string
  fd_listed_at :: int
  fd_drift :: drift

text \<open>Collecting into a \<^verbatim>\<open>HashMap\<close>: a later blob of the same hash wins.\<close>

definition s3_sizes :: "blob list \<Rightarrow> hash \<rightharpoonup> int" where
  "s3_sizes blobs = map_of (rev (map (\<lambda>b. (blob_hash b, blob_size b)) blobs))"

definition drift_of :: "(hash \<rightharpoonup> int) \<Rightarrow> bool \<Rightarrow> object_brief \<Rightarrow> drift option" where
  "drift_of sizes verify_sizes row =
     (case sizes (brief_hash row) of
        None \<Rightarrow> Some Dangling
      | Some s3 \<Rightarrow>
          if verify_sizes \<and> s3 \<noteq> brief_file_size row then Some (SizeMismatch (brief_file_size row) s3) else None)"

definition classify_row ::
  "(hash \<rightharpoonup> int) \<Rightarrow> in_flight \<Rightarrow> int \<Rightarrow> int \<Rightarrow> bool \<Rightarrow> object_brief \<Rightarrow> finding option" where
  "classify_row sizes fl grace now verify_sizes row =
     (if is_claimed fl (brief_hash row) \<or> now - brief_created_at row < grace then None
      else map_option (\<lambda>dr. \<lparr>fd_hash = brief_hash row, fd_name = brief_name row,
                             fd_listed_at = brief_created_at row, fd_drift = dr\<rparr>)
             (drift_of sizes verify_sizes row))"

definition classify_rows ::
  "object_brief list \<Rightarrow> blob list \<Rightarrow> in_flight \<Rightarrow> int \<Rightarrow> int \<Rightarrow> bool \<Rightarrow> finding list" where
  "classify_rows rows blobs fl grace now verify_sizes =
     List.map_filter (classify_row (s3_sizes blobs) fl grace now verify_sizes) rows"

fun to_wire :: "finding list \<Rightarrow> fsck_row list \<times> fsck_size_mismatch list" where
  "to_wire [] = ([], [])"
| "to_wire (f # fs) =
     (let (dangling, mismatches) = to_wire fs in
      case fd_drift f of
        Dangling \<Rightarrow> (\<lparr>fr_store_path_hash = fd_hash f, fr_name = fd_name f\<rparr> # dangling, mismatches)
      | SizeMismatch db s3 \<Rightarrow>
          (dangling, \<lparr>fs_store_path_hash = fd_hash f, fs_name = fd_name f, fs_db_size = db, fs_s3_size = s3\<rparr> # mismatches))"

section \<open>Repair\<close>

text \<open>One database call: only the listed row is deleted.\<close>

definition repair_row :: "database \<Rightarrow> finding \<Rightarrow> bool \<times> database" where
  "repair_row d f =
     (if created_at d (fd_hash f) = Some (fd_listed_at f)
      then (case delete_object d (fd_hash f) of (freed, d') \<Rightarrow> (freed \<noteq> None, d'))
      else (False, d))"

fun apply_repair :: "'s env \<Rightarrow> finding list \<Rightarrow> 's world \<Rightarrow> nat \<times> 's world" where
  "apply_repair env [] w = (0, w)"
| "apply_repair env (f # fs) w =
     (let w1 = await env w;
          (deleted, d) = repair_row (w_db w1) f;
          (n, w2) = apply_repair env fs (w1\<lparr>w_db := d\<rparr>)
      in ((if deleted then 1 else 0) + n, w2))"

fun drain_wait :: "'s env \<Rightarrow> nat \<Rightarrow> 's world \<Rightarrow> bool \<times> 's world" where
  "drain_wait env wakes w =
     (if uploads (w_fl w) = 0 then (True, w)
      else (case wakes of 0 \<Rightarrow> (False, w) | Suc n \<Rightarrow> drain_wait env n (await env w)))"

declare drain_wait.simps [simp del]

text \<open>After the gate: everything but the guard.\<close>

definition fsck_pass ::
  "'s env \<Rightarrow> (nat \<Rightarrow> int) \<Rightarrow> 's s3_admin \<Rightarrow> int \<Rightarrow> bool \<Rightarrow> repair \<Rightarrow> bool option \<Rightarrow> 's world \<Rightarrow>
   ((storage_error + fsck_report) \<times> 's world) option" where
  "fsck_pass env clock s3 grace verify_sizes repair drained w =
     (let w1 = await env w in
      case list_blobs (sa_list s3 (w_s3 w1)) (clock (w_awaits w)) of
        None \<Rightarrow> None
      | Some (Inl e) \<Rightarrow> Some (Inl e, w1)
      | Some (Inr blobs) \<Rightarrow>
          (let w2 = await env w1;
               rows = all_objects_brief (w_db w2);
               w3 = await env w2;
               findings = classify_rows rows blobs (w_fl w3) grace (clock (w_awaits w2)) verify_sizes;
               (dangling, mismatches) = to_wire findings;
               orphans = map key_for (orphan_hashes blobs (set (map brief_hash rows)) (w_fl w3) grace);
               (repaired, w4) = (if repair \<noteq> RepairNo \<and> drained \<noteq> Some False then apply_repair env findings w3
                                 else (0, w3))
           in Some (Inr \<lparr>rep_dangling = dangling, rep_size_mismatches = mismatches, rep_orphans = orphans,
                         rep_repaired = repaired, rep_quiesce_drained = drained\<rparr>, w4)))"

text \<open>The guard lives to the end, however the pass returns.\<close>

definition fsck_run ::
  "'s env \<Rightarrow> (nat \<Rightarrow> int) \<Rightarrow> 's s3_admin \<Rightarrow> int \<Rightarrow> nat \<Rightarrow> bool \<Rightarrow> repair \<Rightarrow> 's world \<Rightarrow>
   ((storage_error + fsck_report) \<times> 's world) option" where
  "fsck_run env clock s3 grace wakes verify_sizes repair w =
     (if repair = RepairQuiesced then
        (case drain_wait env wakes (w\<lparr>w_fl := quiesce (w_fl w)\<rparr>) of
           (b, w1) \<Rightarrow> map_option (\<lambda>(r, w2). (r, w2\<lparr>w_fl := drop_guard (w_fl w2)\<rparr>))
                        (fsck_pass env clock s3 grace verify_sizes repair (Some b) w1))
      else fsck_pass env clock s3 grace verify_sizes repair None w)"

section \<open>What is found\<close>

lemma classify_row_Some:
  "classify_row sizes fl grace now vs (brief_from_row r) = Some f \<longleftrightarrow>
     \<not> is_claimed fl (row_hash r) \<and> row_created_at r + grace \<le> now
     \<and> drift_of sizes vs (brief_from_row r) = Some (fd_drift f)
     \<and> f = \<lparr>fd_hash = row_hash r, fd_name = row_name r, fd_listed_at = row_created_at r, fd_drift = fd_drift f\<rparr>"
  by (auto simp: classify_row_def brief_from_row_def)

text \<open>The rows an audit is about: not claimed, older than the grace, without a blob or with one of another size.\<close>

definition drifted :: "blob list \<Rightarrow> in_flight \<Rightarrow> int \<Rightarrow> int \<Rightarrow> bool \<Rightarrow> object_row \<Rightarrow> bool" where
  "drifted blobs fl grace now vs r \<longleftrightarrow>
     \<not> is_claimed fl (row_hash r) \<and> row_created_at r + grace \<le> now
     \<and> (s3_sizes blobs (row_hash r) = None \<or> vs \<and> s3_sizes blobs (row_hash r) \<noteq> Some (row_file_size r))"

lemma drift_of_brief:
  "drift_of sizes vs (brief_from_row r) \<noteq> None \<longleftrightarrow>
     sizes (row_hash r) = None \<or> vs \<and> sizes (row_hash r) \<noteq> Some (row_file_size r)"
  by (auto simp: drift_of_def brief_from_row_def split: option.splits)

lemma classify_rows_map:
  "map (\<lambda>f. (fd_hash f, fd_listed_at f)) (classify_rows (map brief_from_row rs) blobs fl grace now vs) =
   map (\<lambda>r. (row_hash r, row_created_at r)) (filter (drifted blobs fl grace now vs) rs)"
proof (induction rs)
  case (Cons r rs)
  show ?case
  proof (cases "classify_row (s3_sizes blobs) fl grace now vs (brief_from_row r)")
    case None
    then have "\<not> drifted blobs fl grace now vs r"
      using drift_of_brief [of "s3_sizes blobs" vs r]
      by (auto simp: classify_row_def drifted_def brief_from_row_def split: if_splits)
    then show ?thesis using Cons None by (simp add: classify_rows_def map_filter_simps)
  next
    case (Some f)
    then have "drifted blobs fl grace now vs r"
      using drift_of_brief [of "s3_sizes blobs" vs r] unfolding classify_row_Some drifted_def by simp
    moreover have "fd_hash f = row_hash r" "fd_listed_at f = row_created_at r"
      using Some by (auto simp: classify_row_def brief_from_row_def split: if_splits)
    ultimately show ?thesis using Cons Some by (simp add: classify_rows_def map_filter_simps)
  qed
qed (simp add: classify_rows_def map_filter_simps)

lemma to_wire_hashes:
  "to_wire fs = (ds, ms) \<Longrightarrow>
     fr_store_path_hash ` set ds \<union> fs_store_path_hash ` set ms = fd_hash ` set fs \<and> length ds + length ms = length fs"
proof (induction fs arbitrary: ds ms)
  case (Cons f fs)
  obtain ds' ms' where rest: "to_wire fs = (ds', ms')" by fastforce
  have IH: "fr_store_path_hash ` set ds' \<union> fs_store_path_hash ` set ms' = fd_hash ` set fs" "length ds' + length ms' = length fs"
    using Cons.IH [OF rest] by simp_all
  show ?case using Cons.prems rest IH(2) unfolding list.set image_insert IH(1) [symmetric]
    by (cases "fd_drift f") auto
qed simp

section \<open>What is deleted\<close>

lemma repair_row_hit:
  assumes "db_inv d" "r \<in> set (db_objects d)" "fd_hash f = row_hash r" "fd_listed_at f = row_created_at r"
  shows "repair_row d f = (True, remove_row d (row_hash r) (row_file_size r))"
proof -
  have "find_row d (row_hash r) = Some r" using assms(1,2) by (simp add: find_row_Some)
  then show ?thesis using assms by (simp add: repair_row_def created_at_def delete_object_def file_size_def)
qed

lemma db_inv_repair_row [inv_rules]: "db_inv d \<Longrightarrow> db_inv (snd (repair_row d f))"
  using db_inv_delete_object [of d "fd_hash f"] by (auto simp: repair_row_def split: prod.splits)

lemma objects_remove_row: "db_objects (remove_row d h n) = filter (\<lambda>r. row_hash r \<noteq> h) (db_objects d)"
  by (simp add: remove_row_def debit_def delete_row_def)

lemma apply_repair_alone:
  assumes "db_inv (w_db w)" "apply_repair alone fs w = (n, w')" "distinct (map fd_hash fs)"
    "\<forall>f \<in> set fs. \<exists>r \<in> set (db_objects (w_db w)). fd_hash f = row_hash r \<and> fd_listed_at f = row_created_at r"
  shows "db_inv (w_db w') \<and> n = length fs \<and> w_fl w' = w_fl w \<and> w_s3 w' = w_s3 w
    \<and> db_objects (w_db w') = filter (\<lambda>r. row_hash r \<notin> fd_hash ` set fs) (db_objects (w_db w))"
  using assms
proof (induction fs arbitrary: w n)
  case (Cons f fs)
  obtain r where r: "r \<in> set (db_objects (w_db w))" "fd_hash f = row_hash r" "fd_listed_at f = row_created_at r"
    using Cons.prems(4) by auto
  define d where "d = remove_row (w_db w) (row_hash r) (row_file_size r)"
  have rr: "repair_row (w_db w) f = (True, d)" using repair_row_hit [OF Cons.prems(1) r] by (simp add: d_def)
  let ?w = "w\<lparr>w_awaits := Suc (w_awaits w), w_db := d\<rparr>"
  obtain m where m: "apply_repair alone fs ?w = (m, w')" "n = Suc m"
    using Cons.prems(2) rr by (auto simp: Let_def split: prod.splits)
  have objs: "db_objects d = filter (\<lambda>x. row_hash x \<noteq> row_hash r) (db_objects (w_db w))"
    by (simp add: d_def objects_remove_row)
  have inv: "db_inv (w_db ?w)" using db_inv_remove_row [OF Cons.prems(1) r(1)] by (simp add: d_def)
  have fnd: "\<forall>f \<in> set fs. \<exists>r \<in> set (db_objects (w_db ?w)). fd_hash f = row_hash r \<and> fd_listed_at f = row_created_at r"
  proof
    fix g assume g: "g \<in> set fs"
    then obtain q where q: "q \<in> set (db_objects (w_db w))" "fd_hash g = row_hash q" "fd_listed_at g = row_created_at q"
      using Cons.prems(4) by auto
    have "fd_hash g \<noteq> fd_hash f" using g Cons.prems(3) by (metis distinct.simps(2) image_eqI list.set_map list.simps(9))
    then show "\<exists>r \<in> set (db_objects (w_db ?w)). fd_hash g = row_hash r \<and> fd_listed_at g = row_created_at r"
      using q r(2) objs by auto
  qed
  have dist: "distinct (map fd_hash fs)" using Cons.prems(3) by simp
  show ?case using Cons.IH [OF inv m(1) dist fnd] m(2) objs r(2) by (auto intro!: filter_cong)
qed simp

lemma drop_guard_quiesce [simp]: "drop_guard (quiesce fl) = fl"
  by (simp add: drop_guard_def quiesce_def)

lemma drain_wait_alone:
  "drain_wait alone n w = (b, w') \<Longrightarrow> w_db w' = w_db w \<and> w_fl w' = w_fl w \<and> w_s3 w' = w_s3 w \<and> (b \<longleftrightarrow> uploads (w_fl w) = 0)"
proof (induction n arbitrary: w)
  case (Suc n)
  then show ?case using Suc.IH [of "w\<lparr>w_awaits := Suc (w_awaits w)\<rparr>"]
    by (auto simp: drain_wait.simps [of _ "Suc n"] split: if_splits)
qed (auto simp: drain_wait.simps [of _ 0] split: if_splits)
text \<open>The report and the database after an audit, by what was listed.\<close>

definition audited ::
  "blob list \<Rightarrow> in_flight \<Rightarrow> int \<Rightarrow> int \<Rightarrow> bool \<Rightarrow> bool \<Rightarrow> database \<Rightarrow> database \<Rightarrow> fsck_report \<Rightarrow> bool" where
  "audited blobs fl grace now vs repairs d d' rep \<longleftrightarrow>
     (let doomed = filter (drifted blobs fl grace now vs) (db_objects d) in
        fr_store_path_hash ` set (rep_dangling rep) \<union> fs_store_path_hash ` set (rep_size_mismatches rep) = row_hash ` set doomed
      \<and> (if repairs then db_objects d' = filter (\<lambda>r. r \<notin> set doomed) (db_objects d) \<and> rep_repaired rep = length doomed
         else d' = d \<and> rep_repaired rep = 0))"

lemma fsck_pass_alone:
  assumes inv: "db_inv (w_db w)"
    and run: "fsck_pass alone clock s3 grace vs repair drained w = Some (r, w')"
  shows "w_fl w' = w_fl w \<and> w_s3 w' = w_s3 w \<and> db_inv (w_db w') \<and>
    (case r of
       Inl e \<Rightarrow> w_db w' = w_db w
     | Inr rep \<Rightarrow> rep_quiesce_drained rep = drained \<and>
         (\<exists>blobs now t. list_blobs (sa_list s3 (w_s3 w)) t = Some (Inr blobs)
            \<and> audited blobs (w_fl w) grace now vs (repair \<noteq> RepairNo \<and> drained \<noteq> Some False) (w_db w) (w_db w') rep))"
proof (cases "list_blobs (sa_list s3 (w_s3 w)) (clock (w_awaits w))")
  case None
  then show ?thesis using run by (simp add: fsck_pass_def Let_def)
next
  case (Some lb)
  show ?thesis
  proof (cases lb)
    case (Inl e)
    then show ?thesis using run Some inv by (auto simp: fsck_pass_def Let_def)
  next
    case (Inr blobs)
    define now where "now = clock (Suc (Suc (w_awaits w)))"
    define w3 where "w3 = w\<lparr>w_awaits := Suc (Suc (Suc (w_awaits w)))\<rparr>"
    define fs where "fs = classify_rows (map brief_from_row (db_objects (w_db w))) blobs (w_fl w) grace now vs"
    define doomed where "doomed = filter (drifted blobs (w_fl w) grace now vs) (db_objects (w_db w))"
    obtain ds ms where tw: "to_wire fs = (ds, ms)" by fastforce
    obtain n w4 where ar: "(if repair \<noteq> RepairNo \<and> drained \<noteq> Some False then apply_repair alone fs w3 else (0, w3)) = (n, w4)"
      by fastforce
    have res: "w' = w4" "\<exists>orphans. r = Inr \<lparr>rep_dangling = ds, rep_size_mismatches = ms, rep_orphans = orphans, rep_repaired = n, rep_quiesce_drained = drained\<rparr>"
      using run Some Inr tw ar
      by (auto simp: fsck_pass_def Let_def now_def fs_def w3_def all_objects_brief_def split: if_splits)
    have pairs: "map (\<lambda>f. (fd_hash f, fd_listed_at f)) fs = map (\<lambda>r. (row_hash r, row_created_at r)) doomed"
      unfolding fs_def doomed_def by (rule classify_rows_map)
    have hs: "map fd_hash fs = map row_hash doomed" using arg_cong [OF pairs, of "map fst"] by (simp add: comp_def)
    have hset: "fd_hash ` set fs = row_hash ` set doomed" using arg_cong [OF hs, of set] by simp
    have wire: "fr_store_path_hash ` set ds \<union> fs_store_path_hash ` set ms = row_hash ` set doomed"
      using to_wire_hashes [OF tw] hset by simp
    have dist: "distinct (map row_hash (db_objects (w_db w)))" using inv by (simp add: db_inv_def)
    then have dd: "distinct (map fd_hash fs)" unfolding hs doomed_def by (rule distinct_map_filterI)
    have listed: "\<forall>f \<in> set fs. \<exists>r \<in> set (db_objects (w_db w3)). fd_hash f = row_hash r \<and> fd_listed_at f = row_created_at r"
    proof
      fix f assume "f \<in> set fs"
      then have "(fd_hash f, fd_listed_at f) \<in> set (map (\<lambda>r. (row_hash r, row_created_at r)) doomed)"
        unfolding pairs [symmetric] by auto
      then show "\<exists>r \<in> set (db_objects (w_db w3)). fd_hash f = row_hash r \<and> fd_listed_at f = row_created_at r"
        by (auto simp: doomed_def w3_def)
    qed
    have same: "row_hash r \<notin> row_hash ` set doomed \<longleftrightarrow> r \<notin> set doomed" if "r \<in> set (db_objects (w_db w))" for r
      using that distinct_key_unique [OF dist] unfolding doomed_def by force
    have db: "w_fl w4 = w_fl w \<and> w_s3 w4 = w_s3 w \<and> db_inv (w_db w4) \<and>
        (if repair \<noteq> RepairNo \<and> drained \<noteq> Some False
         then db_objects (w_db w4) = filter (\<lambda>r. r \<notin> set doomed) (db_objects (w_db w)) \<and> n = length doomed
         else w_db w4 = w_db w \<and> n = 0)"
    proof (cases "repair \<noteq> RepairNo \<and> drained \<noteq> Some False")
      case False
      then show ?thesis using ar inv by (auto simp: w3_def)
    next
      case True
      then have ap: "apply_repair alone fs w3 = (n, w4)" using ar by simp
      have inv3: "db_inv (w_db w3)" using inv by (simp add: w3_def)
      have "filter (\<lambda>r. row_hash r \<notin> row_hash ` set doomed) (db_objects (w_db w)) = filter (\<lambda>r. r \<notin> set doomed) (db_objects (w_db w))"
        using same by (rule filter_cong [OF refl])
      then show ?thesis
        using apply_repair_alone [OF inv3 ap dd listed] True hset arg_cong [OF hs, of length] by (simp add: w3_def)
    qed
    obtain orphans where r: "r = Inr \<lparr>rep_dangling = ds, rep_size_mismatches = ms, rep_orphans = orphans, rep_repaired = n, rep_quiesce_drained = drained\<rparr>"
      using res(2) by blast
    have "audited blobs (w_fl w) grace now vs (repair \<noteq> RepairNo \<and> drained \<noteq> Some False) (w_db w) (w_db w4)
        \<lparr>rep_dangling = ds, rep_size_mismatches = ms, rep_orphans = orphans, rep_repaired = n, rep_quiesce_drained = drained\<rparr>"
      unfolding audited_def Let_def doomed_def [symmetric] using db wire by (auto split: if_splits)
    then show ?thesis using Some Inr res(1) db r by auto
  qed
qed


text \<open>A row without a blob, an hour past the grace.\<close>

definition dangling_world :: "string set world" where
  "dangling_world = demo_world\<lparr>w_s3 := {}\<rparr>"

definition empty_bucket :: "string set s3_admin" where
  "empty_bucket = demo_admin\<lparr>sa_list := (\<lambda>s tok. Some \<lparr>page_contents = [], page_next_token = None\<rparr>)\<rparr>"

lemma fsck_pass_returns:
  "list_blobs (sa_list s3 (w_s3 (await env w))) (clock (w_awaits w)) = Some (Inr blobs) \<Longrightarrow>
   \<exists>rep w'. fsck_pass env clock s3 grace vs repair drained w = Some (Inr rep, w')"
  by (simp add: fsck_pass_def Let_def split: prod.split)

lemma list_empty_bucket: "list_blobs (sa_list empty_bucket s) t = Some (Inr [])"
  by (simp add: empty_bucket_def list_blobs_def list_blobs_from.simps)

lemma fsck_empty_bucket:
  "\<exists>rep w'. fsck_run alone (\<lambda>_. 1000000) empty_bucket 86400 3 False RepairQuiesced dangling_world = Some (Inr rep, w')"
proof -
  obtain b w1 where dw: "drain_wait alone 3 (dangling_world\<lparr>w_fl := quiesce (w_fl dangling_world)\<rparr>) = (b, w1)" by fastforce
  show ?thesis
    using fsck_pass_returns [where env = alone and w = w1 and clock = "\<lambda>_. 1000000", OF list_empty_bucket] dw
    by (auto simp: fsck_run_def)
qed


section \<open>Repair under interference\<close>

text \<open>The others may add, replace and remove rows, but leave alone rows newer than a cutoff.\<close>

definition env_keeps_newer :: "int \<Rightarrow> 's env \<Rightarrow> bool" where
  "env_keeps_newer cutoff env \<longleftrightarrow> (\<forall>k w r. db_inv (w_db w) \<longrightarrow> r \<in> set (db_objects (w_db w)) \<longrightarrow>
     cutoff < row_created_at r \<longrightarrow> r \<in> set (db_objects (w_db (env k w))))"

definition has_newer :: "int \<Rightarrow> object_row \<Rightarrow> 's world \<Rightarrow> bool" where
  "has_newer cutoff r w \<longleftrightarrow> db_inv (w_db w) \<and> r \<in> set (db_objects (w_db w)) \<and> cutoff < row_created_at r"

lemma has_newer_await:
  "env_keeps db_inv env \<Longrightarrow> env_keeps_newer cutoff env \<Longrightarrow> has_newer cutoff r w \<Longrightarrow> has_newer cutoff r (await env w)"
  by (auto simp: has_newer_def env_keeps_def env_keeps_newer_def await_def)

lemma has_newer_repair_row:
  assumes "has_newer cutoff r w" "fd_listed_at f \<le> cutoff"
  shows "has_newer cutoff r (w\<lparr>w_db := snd (repair_row (w_db w) f)\<rparr>)"
proof (cases "fd_hash f = row_hash r")
  case True
  have "find_row (w_db w) (row_hash r) = Some r" using assms(1) by (simp add: has_newer_def find_row_Some)
  then have "created_at (w_db w) (fd_hash f) \<noteq> Some (fd_listed_at f)"
    using assms True by (auto simp: created_at_def has_newer_def)
  then have "repair_row (w_db w) f = (False, w_db w)" by (simp add: repair_row_def)
  then show ?thesis using assms by (simp add: has_newer_def)
next
  case False
  then show ?thesis using assms db_inv_repair_row [of "w_db w" f]
    by (auto simp: has_newer_def repair_row_def delete_object_def objects_remove_row split: option.splits)
qed

lemma has_newer_apply_repair:
  assumes env: "env_keeps db_inv env" "env_keeps_newer cutoff env"
  shows "has_newer cutoff r w \<Longrightarrow> \<forall>f \<in> set fs. fd_listed_at f \<le> cutoff \<Longrightarrow> apply_repair env fs w = (n, w') \<Longrightarrow> has_newer cutoff r w'"
proof (induction fs arbitrary: w n)
  case (Cons f fs)
  let ?w1 = "await env w"
  have "has_newer cutoff r (?w1\<lparr>w_db := snd (repair_row (w_db ?w1) f)\<rparr>)"
    using has_newer_repair_row [OF has_newer_await [OF env Cons.prems(1)]] Cons.prems(2) by simp
  moreover obtain m where "apply_repair env fs (?w1\<lparr>w_db := snd (repair_row (w_db ?w1) f)\<rparr>) = (m, w')"
    using Cons.prems(3) by (auto simp: Let_def split: prod.splits)
  ultimately show ?case using Cons.IH Cons.prems(2) by auto
qed simp

lemma classify_rows_listed:
  "f \<in> set (classify_rows rows blobs fl grace now vs) \<Longrightarrow> fd_listed_at f \<le> now - grace"
  by (auto simp: classify_rows_def classify_row_def map_filter_def split: if_splits)

lemma has_newer_drain_wait:
  assumes env: "env_keeps db_inv env" "env_keeps_newer cutoff env"
  shows "has_newer cutoff r w \<Longrightarrow> drain_wait env n w = (b, w') \<Longrightarrow> has_newer cutoff r w'"
proof (induction n arbitrary: w)
  case (Suc n)
  then show ?case using has_newer_await [OF env]
    by (auto simp: drain_wait.simps [of _ "Suc n"] split: if_splits)
qed (auto simp: drain_wait.simps [of _ 0] split: if_splits)

lemma has_newer_fsck_pass:
  assumes env: "env_keeps db_inv env" "env_keeps_newer cutoff env" and clock: "\<And>k. clock k - grace \<le> cutoff"
    and w: "has_newer cutoff r w" and run: "fsck_pass env clock s3 grace vs repair drained w = Some (x, w')"
  shows "has_newer cutoff r w'"
proof -
  note aw = has_newer_await [OF env]
  have w3: "has_newer cutoff r (await env w)" "has_newer cutoff r (await env (await env (await env w)))"
    using w aw by blast+
  have listed: "\<forall>f \<in> set (classify_rows rows blobs fl grace (clock k) vs). fd_listed_at f \<le> cutoff" for rows blobs fl k
    using classify_rows_listed clock order_trans by blast
  show ?thesis
    using run w3 has_newer_apply_repair [OF env w3(2) listed]
    by (auto simp: fsck_pass_def Let_def split: option.splits sum.splits prod.splits if_splits)
qed


end
