(* ===== verification/Admin.thy ===== *)
theory Admin
  imports Pusher Fsck
begin

text \<open>
  \<^verbatim>\<open>crates/garret-pusher/src/admin.rs\<close>: the admin socket's commands. Between two database calls the
  others act (\<open>env\<close>, as in theory \<open>Gc\<close>). The socket itself (binding, line framing, JSON) is I/O and
  not modelled, and so is the copy \<^verbatim>\<open>backup\<close> makes: it is a parameter of \<open>dispatch\<close>.
\<close>

datatype admin_error =
    NoGcSection
  | AdminDb db_error
  | AdminStorage storage_error
  | AdminBusy hash busy
  | AdminKeys narinfo_error
  | BackupFailed

section \<open>Delete\<close>

record deleted =
  dl_deleted :: nat
  dl_bytes_freed :: int
  dl_missing :: "hash list"

text \<open>\<^verbatim>\<open>filter(|hash| seen.insert(hash))\<close>: first occurrences, in order.\<close>

fun first_seen :: "'a list \<Rightarrow> 'a list \<Rightarrow> 'a list" where
  "first_seen seen [] = []"
| "first_seen seen (x # xs) = (if x \<in> set seen then first_seen seen xs else x # first_seen (x # seen) xs)"

text \<open>One lock hold per path.\<close>

fun delete_each :: "'s env \<Rightarrow> bool \<Rightarrow> hash list \<Rightarrow> deletion \<Rightarrow> deleted \<Rightarrow> 's world \<Rightarrow> deletion \<times> deleted \<times> 's world" where
  "delete_each env dry [] x dl w = (x, dl, w)"
| "delete_each env dry (h # hs) x dl w =
     (let w1 = await env w;
          (freed, d) = (if dry then (file_size (w_db w1) h, w_db w1) else delete_object (w_db w1) h);
          w2 = w1\<lparr>w_db := d\<rparr>
      in case freed of
           None \<Rightarrow> delete_each env dry hs x (dl\<lparr>dl_missing := dl_missing dl @ [h]\<rparr>) w2
         | Some n \<Rightarrow> delete_each env dry hs (if dry then x else queue_blob x h)
             (dl\<lparr>dl_deleted := dl_deleted dl + 1, dl_bytes_freed := dl_bytes_freed dl + n\<rparr>) w2)"

definition delete_hashes ::
  "'s env \<Rightarrow> ('s \<Rightarrow> string list \<Rightarrow> s3_error list option \<times> 's) \<Rightarrow> hash list \<Rightarrow> bool \<Rightarrow> 's world \<Rightarrow> (admin_error + deleted) \<times> 's world" where
  "delete_hashes env del hashes dry w =
     (let hs = first_seen [] hashes; none = \<lparr>dl_deleted = 0, dl_bytes_freed = 0, dl_missing = []\<rparr> in
      if dry then (case delete_each env True hs no_deletion none w of (_, dl, w1) \<Rightarrow> (Inr dl, w1))
      else
        (case claim_all (w_fl w) hs of
           (Inl (h, b), fl) \<Rightarrow> (Inl (AdminBusy h b), w\<lparr>w_fl := fl\<rparr>)
         | (Inr x, fl) \<Rightarrow>
             (case delete_each env False hs x none (w\<lparr>w_fl := fl\<rparr>) of
                (x1, dl, w1) \<Rightarrow>
                  (let w2 = await env w1 in
                   case finish_deletion del x1 (w_fl w2) (w_s3 w2) of
                     (r, fl2, s) \<Rightarrow> (case r of Inl e \<Rightarrow> Inl (AdminStorage e) | Inr _ \<Rightarrow> Inr dl, w2\<lparr>w_fl := fl2, w_s3 := s\<rparr>)))))"

definition brief_basenames :: "object_brief list \<Rightarrow> string list" where
  "brief_basenames rows = map (\<lambda>r. brief_hash r @ ''-'' @ brief_name r) rows"

definition delete_listed ::
  "'s env \<Rightarrow> ('s \<Rightarrow> string list \<Rightarrow> s3_error list option \<times> 's) \<Rightarrow> object_brief list \<Rightarrow> bool \<Rightarrow> 's world \<Rightarrow>
   (admin_error + object_brief list \<times> int) \<times> 's world" where
  "delete_listed env del matched dry w =
     (if dry then (Inr (matched, sum_list (map brief_file_size matched)), w)
      else (case delete_hashes env del (map brief_hash matched) False w of
              (Inl e, w1) \<Rightarrow> (Inl e, w1)
            | (Inr dl, w1) \<Rightarrow> (Inr (filter (\<lambda>r. brief_hash r \<notin> set (dl_missing dl)) matched, dl_bytes_freed dl), w1)))"

definition delete_pushed_by ::
  "'s env \<Rightarrow> ('s \<Rightarrow> string list \<Rightarrow> s3_error list option \<times> 's) \<Rightarrow> string \<Rightarrow> int option \<Rightarrow> bool \<Rightarrow> 's world \<Rightarrow>
   (admin_error + admin_error response) \<times> 's world" where
  "delete_pushed_by env del subject since dry w =
     (let w1 = await env w; matched = pushed_by (w_db w1) subject since in
      case delete_listed env del matched dry w1 of
        (Inl e, w2) \<Rightarrow> (Inl e, w2)
      | (Inr (gone, bytes), w2) \<Rightarrow> (Inr (ADeletePushedBy (brief_basenames gone) bytes), w2))"

section \<open>Prune\<close>

text \<open>Listing, claiming and deleting in one hold of the connection. A failed delete drops the claims.\<close>

definition prune_rows :: "int \<Rightarrow> int \<Rightarrow> bool \<Rightarrow> 's world \<Rightarrow> (admin_error + object_brief list \<times> deletion option) \<times> 's world" where
  "prune_rows before now dry w =
     (case prunable (w_db w) before now of
        Inl e \<Rightarrow> (Inl (AdminDb e), w)
      | Inr doomed \<Rightarrow>
          if dry then (Inr (doomed, None), w)
          else
            (let hs = map brief_hash doomed in
             case claim_all (w_fl w) hs of
               (Inl (h, b), fl) \<Rightarrow> (Inl (AdminBusy h b), w\<lparr>w_fl := fl\<rparr>)
             | (Inr x, fl) \<Rightarrow>
                 (case delete_pruned (w_db w) doomed of
                    Inl e \<Rightarrow> (Inl (AdminDb e), w\<lparr>w_fl := release_claims x fl\<rparr>)
                  | Inr commits \<Rightarrow>
                      (Inr (doomed, Some (fold (\<lambda>h x. queue_blob x h) hs x)),
                       w\<lparr>w_fl := fl, w_db := last (w_db w # commits)\<rparr>))))"

definition prune ::
  "'s env \<Rightarrow> (nat \<Rightarrow> int) \<Rightarrow> ('s \<Rightarrow> string list \<Rightarrow> s3_error list option \<times> 's) \<Rightarrow> int \<Rightarrow> bool \<Rightarrow> 's world \<Rightarrow>
   (admin_error + admin_error response) \<times> 's world" where
  "prune env clock del before dry w =
     (case prune_rows before (clock (w_awaits w)) dry (await env w) of
        (Inl e, w1) \<Rightarrow> (Inl e, w1)
      | (Inr (pruned, deletion), w1) \<Rightarrow>
          (let answer = APrune (brief_basenames pruned) (sum_list (map brief_file_size pruned)) in
           case deletion of
             None \<Rightarrow> (Inr answer, w1)
           | Some x \<Rightarrow>
               (let w2 = await env w1 in
                case finish_deletion del x (w_fl w2) (w_s3 w2) of
                  (r, fl, s) \<Rightarrow> (case r of Inl e \<Rightarrow> Inl (AdminStorage e) | Inr _ \<Rightarrow> Inr answer, w2\<lparr>w_fl := fl, w_s3 := s\<rparr>))))"

section \<open>Resign\<close>

definition RESIGN_CHUNK :: nat where "RESIGN_CHUNK = 500"

text \<open>One chunk's reads.\<close>

fun read_objects :: "(string \<Rightarrow> string list option) \<Rightarrow> database \<Rightarrow> hash list \<Rightarrow> db_error + object list" where
  "read_objects dec d [] = Inr []"
| "read_objects dec d (h # hs) =
     (case get_object dec d h of
        Inl e \<Rightarrow> Inl e
      | Inr None \<Rightarrow> read_objects dec d hs
      | Inr (Some ob) \<Rightarrow> map_sum id (Cons ob) (read_objects dec d hs))"

text \<open>Which rows are refused, and which get new signatures.\<close>

fun resign_updates ::
  "'k crypto \<Rightarrow> string \<Rightarrow> 'k signing_key_file list \<Rightarrow> object list \<Rightarrow> narinfo_error + nat \<times> (hash \<times> string list) list" where
  "resign_updates cr dir keys [] = Inr (0, [])"
| "resign_updates cr dir keys (ob # obs) =
     (if \<not> verify_sigs cr ob dir keys
      then map_sum id (\<lambda>(n, us). (n + 1, us)) (resign_updates cr dir keys obs)
      else
        (case sign cr ob dir keys of
           Inl e \<Rightarrow> Inl e
         | Inr sigs \<Rightarrow>
             map_sum id (\<lambda>(n, us). (n, if sigs \<noteq> obj_sigs ob then (obj_store_path_hash ob, sigs) # us else us))
               (resign_updates cr dir keys obs)))"

text \<open>One chunk's writes, in one transaction.\<close>

definition apply_updates :: "(string list \<Rightarrow> string) \<Rightarrow> (hash \<times> string list) list \<Rightarrow> database \<Rightarrow> database" where
  "apply_updates enc us d = fold (\<lambda>(h, sigs) d. update_sigs enc d h sigs) us d"

record codec =
  cd_enc :: "string list \<Rightarrow> string"
  cd_dec :: "string \<Rightarrow> string list option"

fun resign_chunks ::
  "'s env \<Rightarrow> codec \<Rightarrow> 'k crypto \<Rightarrow> string \<Rightarrow> 'k signing_key_file list \<Rightarrow> hash list list \<Rightarrow> nat \<Rightarrow> nat \<Rightarrow> 's world \<Rightarrow>
   (admin_error + nat \<times> nat) \<times> 's world" where
  "resign_chunks env cd cr dir keys [] resigned refused w = (Inr (resigned, refused), w)"
| "resign_chunks env cd cr dir keys (c # cs) resigned refused w =
     (let w1 = await env w in
      case read_objects (cd_dec cd) (w_db w1) c of
        Inl e \<Rightarrow> (Inl (AdminDb e), w1)
      | Inr obs \<Rightarrow>
          (case resign_updates cr dir keys obs of
             Inl e \<Rightarrow> (Inl (AdminKeys e), w1)
           | Inr (n, us) \<Rightarrow>
               (let w2 = await env w1 in
                resign_chunks env cd cr dir keys cs (resigned + length us) (refused + n)
                  (w2\<lparr>w_db := apply_updates (cd_enc cd) us (w_db w2)\<rparr>))))"

definition resign ::
  "'s env \<Rightarrow> codec \<Rightarrow> 'k crypto \<Rightarrow> string \<Rightarrow> 'k signing_key_file list \<Rightarrow> 's world \<Rightarrow> (admin_error + admin_error response) \<times> 's world" where
  "resign env cd cr dir keys w =
     (let w1 = await env w in
      case resign_chunks env cd cr dir keys (chunks RESIGN_CHUNK (all_hashes (w_db w1))) 0 0 w1 of
        (Inl e, w2) \<Rightarrow> (Inl e, w2)
      | (Inr (resigned, refused), w2) \<Rightarrow> (Inr (AResign resigned refused), w2))"

section \<open>Dispatch\<close>

definition status_of :: "'s env \<Rightarrow> int option \<Rightarrow> 's world \<Rightarrow> admin_error response \<times> 's world" where
  "status_of env quota w =
     (let ups = uploads (w_fl w); w1 = await env w in
      (AStatus (object_count (w_db w1)) (total_bytes (w_db w1)) quota ups, w1))"

record ('s, 'k) admin_state =
  ad_codec :: codec
  ad_crypto :: "'k crypto"
  ad_keys :: "'k signing_key_file list"
  ad_store_dir :: string
  ad_s3 :: "'s s3_admin"
  ad_gc :: "(int \<times> gc_config) option"
  ad_backup :: "string \<Rightarrow> int option"
  ad_wakes :: nat

definition answered :: "(admin_error + admin_error response) \<times> 's world \<Rightarrow> admin_error response \<times> 's world" where
  "answered rw = (case fst rw of Inl e \<Rightarrow> AError e | Inr a \<Rightarrow> a, snd rw)"

definition dispatch ::
  "'s env \<Rightarrow> (nat \<Rightarrow> int) \<Rightarrow> ('s, 'k) admin_state \<Rightarrow> request \<Rightarrow> 's world \<Rightarrow> (admin_error response \<times> 's world) option" where
  "dispatch env clock st rq w =
     (case rq of
        RStatus \<Rightarrow> Some (status_of env (map_option fst (ad_gc st)) w)
      | RGcRun \<Rightarrow>
          (case ad_gc st of
             None \<Rightarrow> Some (AError NoGcSection, w)
           | Some (_, cfg) \<Rightarrow>
               map_option (\<lambda>(r, w'). answered (case r of
                   Inl e \<Rightarrow> Inl (AdminStorage e)
                 | Inr p \<Rightarrow> Inr (AGc (pr_evicted p) (pr_bytes_freed p) (pr_candidates_exhausted p)), w'))
                 (evict env clock (sa_delete (ad_s3 st)) cfg w))
      | RResign \<Rightarrow> Some (answered (resign env (ad_codec st) (ad_crypto st) (ad_store_dir st) (ad_keys st) w))
      | RDelete hashes dry \<Rightarrow>
          (case delete_hashes env (sa_delete (ad_s3 st)) hashes dry w of
             (r, w') \<Rightarrow> Some (answered (map_sum id (\<lambda>dl. ADelete (dl_deleted dl) (dl_bytes_freed dl) (dl_missing dl)) r, w')))
      | RPin name h expires_at \<Rightarrow>
          (let w1 = await env w in
           case pin_object (w_db w1) name h expires_at (clock (w_awaits w)) of
             Inl e \<Rightarrow> Some (AError (AdminDb e), w1)
           | Inr d \<Rightarrow> Some (APin, w1\<lparr>w_db := d\<rparr>))
      | RUnpin name \<Rightarrow>
          (let w1 = await env w; (removed, d) = unpin (w_db w1) name in Some (AUnpin removed, w1\<lparr>w_db := d\<rparr>))
      | RFsck verify_sizes repair \<Rightarrow>
          (case ad_gc st of
             None \<Rightarrow> Some (AError NoGcSection, w)
           | Some (_, cfg) \<Rightarrow>
               map_option (\<lambda>(r, w'). answered (case r of Inl e \<Rightarrow> Inl (AdminStorage e) | Inr rep \<Rightarrow> Inr (AFsck rep), w'))
                 (fsck_run env clock (ad_s3 st) (gc_orphan_grace cfg) (ad_wakes st) verify_sizes repair w))
      | RPrune before dry \<Rightarrow> Some (answered (prune env clock (sa_delete (ad_s3 st)) before dry w))
      | RDeletePushedBy subject since dry \<Rightarrow>
          Some (answered (delete_pushed_by env (sa_delete (ad_s3 st)) subject since dry w))
      | RBackup path \<Rightarrow>
          Some (answered (case ad_backup st path of None \<Rightarrow> Inl BackupFailed | Some n \<Rightarrow> Inr (ABackup n), await env w)))"

end
