(* ===== verification/Pusher_Laws.thy ===== *)
theory Pusher_Laws
  imports Pusher
begin

text \<open>
  What the push handlers promise: the preamble is read the same however the body is chunked, an
  accepted preamble gives an object whose every field is what Nix would print, and an upload
  answered with \<^verbatim>\<open>created\<close> has a row whose blob was verified and is what the row says.
\<close>

section \<open>Reading the preamble\<close>

lemma take_preamble_mono:
  "take_preamble f buf = Inl e \<Longrightarrow> take_preamble f (buf @ sfx) = Inl e"
  "take_preamble f buf = Inr (Some (p, rest)) \<Longrightarrow> take_preamble f (buf @ sfx) = Inr (Some (p, rest @ sfx))"
proof -
  have take_eq: "take n (buf @ sfx) = take n buf" "drop n (buf @ sfx) = drop n buf @ sfx"
    if "preamble_end buf MAX_PREAMBLE = Inr (Some n)" for n
    using that by (auto elim: preamble_end_Some)
  show "take_preamble f buf = Inl e \<Longrightarrow> take_preamble f (buf @ sfx) = Inl e"
    using take_eq preamble_end_mono [of buf MAX_PREAMBLE _ sfx] preamble_end_Inl_mono [of buf MAX_PREAMBLE _ sfx]
    by (auto simp: take_preamble_def split: sum.splits option.splits)
  show "take_preamble f buf = Inr (Some (p, rest)) \<Longrightarrow> take_preamble f (buf @ sfx) = Inr (Some (p, rest @ sfx))"
    using take_eq preamble_end_mono [of buf MAX_PREAMBLE _ sfx]
    by (auto simp: take_preamble_def split: sum.splits option.splits)
qed

lemma read_preamble_chunks:
  "case take_preamble f (head @ concat cs) of
     Inl e \<Rightarrow> read_preamble f i head (map Chunk cs) = Inl e
   | Inr None \<Rightarrow> read_preamble f i head (map Chunk cs) = Inl (refused_error BodyEnded)
   | Inr (Some (p, rest)) \<Rightarrow> \<exists>rest' cs'. read_preamble f i head (map Chunk cs) = Inr (p, rest', map Chunk cs')
       \<and> rest' @ concat cs' = rest"
proof (induction cs arbitrary: head)
  case Nil
  then show ?case by (auto split: sum.splits option.splits)
next
  case (Cons c cs)
  consider (err) e where "take_preamble f head = Inl e"
    | (full) p rest where "take_preamble f head = Inr (Some (p, rest))"
    | (more) "take_preamble f head = Inr None"
    by (cases "take_preamble f head"; cases "projr (take_preamble f head)") auto
  then show ?case
  proof cases
    case err
    then show ?thesis using take_preamble_mono(1) [OF err, of "concat (c # cs)"] by simp
  next
    case full
    then show ?thesis using take_preamble_mono(2) [OF full, of "concat (c # cs)"]
      by (auto intro!: exI [of _ "c # cs"])
  next
    case more
    then have step: "read_preamble f i head (map Chunk (c # cs)) = read_preamble f i (head @ c) (map Chunk cs)" by simp
    show ?thesis using Cons.IH [of "head @ c"] unfolding step concat.simps append_assoc .
  qed
qed

text \<open>
  How the network cut the body does not matter: reading the preamble chunk by chunk gives
  the answer the whole body gives at once, the same error or the same preamble, and the bytes
  left for the NAR are those after the preamble.
\<close>

theorem preamble_chunking_irrelevant:
  "case take_preamble f (concat cs) of
     Inl e \<Rightarrow> read_preamble f i [] (map Chunk cs) = Inl e
   | Inr None \<Rightarrow> read_preamble f i [] (map Chunk cs) = Inl (refused_error BodyEnded)
   | Inr (Some (p, rest)) \<Rightarrow> \<exists>rest' cs'. read_preamble f i [] (map Chunk cs) = Inr (p, rest', map Chunk cs')
       \<and> rest' @ concat cs' = rest"
  using read_preamble_chunks [where head = "[]" and f = f and cs = cs and i = i] by simp

text \<open>
  C33. The client's framing and the server's parser agree: a framed preamble of at most 1 MiB
  followed by a NAR, cut anywhere, is read as that preamble and that NAR.
\<close>

theorem preamble_roundtrip:
  assumes "to_vec p = Inr json" "from_slice json = Some p" "length json \<le> MAX_PREAMBLE"
    and "to_framed to_vec p = Inr framed" and "concat cs = framed @ nar"
  shows "\<exists>rest cs'. read_preamble from_slice i [] (map Chunk cs) = Inr (p, rest, map Chunk cs') \<and> rest @ concat cs' = nar"
proof -
  have framed: "framed = to_le_bytes (word_of_nat (length json)) @ json"
    using assms(1,4) by (simp add: to_framed_def)
  have "length json < 2 ^ 32" using assms(3) by (simp add: MAX_PREAMBLE_def)
  then have "preamble_end (concat cs) MAX_PREAMBLE = Inr (Some (4 + length json))"
    using preamble_end_framed [of json nar MAX_PREAMBLE] assms(3,5) framed by simp
  then have "take_preamble from_slice (concat cs) = Inr (Some (p, nar))"
    using assms(2,5) framed by (simp add: take_preamble_def)
  then show ?thesis using read_preamble_chunks [where head = "[]" and f = from_slice and cs = cs and i = i] by auto
qed

theorem preamble_roundtrip_witness:
  "\<exists>p rest cs'. read_preamble (\<lambda>j. if j = [9] then Some p else None) 0 [] (map Chunk [[1], [0, 0], [0, 9, 5], [6]]) =
     Inr (p, rest, map Chunk cs') \<and> rest @ concat cs' = [5, 6]"
proof -
  let ?p = "\<lparr>pre_store_path = [], pre_nar_hash = [], pre_nar_size = 0, pre_references = [], pre_deriver = None, pre_ca = None\<rparr>"
  have "to_framed (\<lambda>_. Inr [9]) ?p = (Inr [1, 0, 0, 0, 9] :: unit + bytes)"
    by (simp add: to_framed_def to_le_bytes_def)
  from preamble_roundtrip [where to_vec = "\<lambda>_. Inr [9] :: unit + bytes" and from_slice = "\<lambda>j. if j = [9] then Some ?p else None"
      and cs = "[[1], [0, 0], [0, 9, 5], [6]]" and nar = "[5, 6]" and i = 0, OF _ _ _ this]
  show ?thesis by (auto simp: MAX_PREAMBLE_def)
qed

section \<open>An accepted object\<close>

lemma basenames_of_Inr:
  "basenames_of dir rs = Inr bs \<longleftrightarrow> list_all2 (\<lambda>r b. store_basename r dir = Some b) rs bs"
proof (induction rs arbitrary: bs)
  case (Cons r rs)
  show ?case
  proof (cases "store_basename r dir")
    case None
    then show ?thesis by (cases bs) simp_all
  next
    case (Some b)
    have "map_sum id (Cons b) x = Inr bs \<longleftrightarrow> (\<exists>cs. x = Inr cs \<and> bs = b # cs)" for x :: "http_error + string list"
      by (cases x) auto
    then show ?thesis using Some Cons.IH by (auto simp: list_all2_Cons1)
  qed
qed auto

lemma separators_not_names:
  "\<not> is_name_byte (CHR '';'')" "\<not> is_name_byte (CHR '','')" "\<not> is_name_byte (CHR '' '')"
  "\<not> is_name_byte (CHR 0x0A)" "\<not> is_name_byte (CHR 0x0D)" "\<not> is_name_byte (CHR ''/'')"
  by (simp_all add: is_name_byte_def is_ascii_alphanumeric_def)

lemma alphabet_names: "c \<in> set NIX_BASE32_ALPHABET \<Longrightarrow> is_name_byte c"
proof -
  have "list_all is_name_byte NIX_BASE32_ALPHABET" by code_simp
  then show "c \<in> set NIX_BASE32_ALPHABET \<Longrightarrow> is_name_byte c" by (simp add: list_all_iff)
qed

lemma name_byte_plain:
  "is_name_byte c \<Longrightarrow> c \<noteq> CHR '';'' \<and> c \<noteq> CHR '','' \<and> c \<noteq> CHR '' '' \<and> c \<noteq> CHR 0x0A \<and> c \<noteq> CHR 0x0D"
  using separators_not_names by metis

lemma store_hash_plain: "is_store_hash h \<Longrightarrow> c \<in> set h \<Longrightarrow> is_name_byte c"
  by (rule alphabet_names [OF is_store_hash_in_alphabet])

lemma basename_bytes: "store_basename x dir = Some b \<Longrightarrow> c \<in> set b \<Longrightarrow> is_name_byte c"
proof -
  assume "store_basename x dir = Some b" and c: "c \<in> set b"
  then obtain h n where b: "b = h @ ''-'' @ n" "is_store_hash h" "list_all is_name_byte n"
    by (auto simp: store_basename_Some)
  have "is_name_byte (CHR ''-'')" by (simp add: is_name_byte_def)
  then show ?thesis using b c store_hash_plain [of h c] by (auto simp: list_all_iff)
qed

lemma own_name_Some:
  assumes "own_name h p dir = Some name"
  shows "store_basename (pre_store_path p) dir = Some (h @ ''-'' @ name)"
  using assms by (auto simp: own_name_def strip_prefix_Some split: option.splits)

lemma normalized_chars:
  assumes "normalize_hash cr s = Inr h" "c \<in> set h"
  shows "is_name_byte c \<or> c = CHR '':''"
proof -
  have ex: "\<exists>d. h = ''sha256:'' @ d \<and> is_nix_base32 d"
    using assms(1) by (auto simp: normalize_hash_def sha256_nix32_def is_nix_base32_encode split: option.splits if_splits)
  then obtain d where d: "h = ''sha256:'' @ d" "is_nix_base32 d" by blast
  have "list_all (\<lambda>c. is_name_byte c \<or> c = CHR '':'') ''sha256:''" by code_simp
  then show ?thesis
    using assms(2) d alphabet_names by (auto simp: is_nix_base32_def list_all_iff)
qed


lemma fixture_basename:
  assumes "is_nix_base32 [c]" "is_name_byte n"
  shows "store_basename (''/nix/store/'' @ rep_hash c @ ''-'' @ [n]) ''/nix/store'' = Some (rep_hash c @ ''-'' @ [n])"
proof -
  have "is_store_hash (rep_hash c)" using assms(1) by (simp add: is_store_hash_def rep_hash_def is_nix_base32_def list_all_iff)
  then have "\<exists>h m. rep_hash c @ ''-'' @ [n] = h @ ''-'' @ m \<and> is_store_hash h \<and> 1 \<le> length m \<and> length m \<le> 211 \<and> list_all is_name_byte m"
    using assms(2) by (intro exI [of _ "rep_hash c"] exI [of _ "[n]"] conjI) simp_all
  then show ?thesis by (simp add: store_basename_Some)
qed

lemma fixture_chars:
  "is_nix_base32 ''a''" "is_nix_base32 ''b''" "is_name_byte (CHR ''x'')" "is_name_byte (CHR ''y'')"
  by code_simp+


section \<open>An upload\<close>

text \<open>
  What the handler relies on from the others while it holds the claim on a path, from its \<open>n\<close>th
  await on: they leave the claim and the path's blob alone. The other components promise it (their deletes and uploads
  work under claims of their own, which are exclusive).
\<close>

definition env_respects :: "('s \<Rightarrow> string \<rightharpoonup> bytes) \<Rightarrow> hash \<Rightarrow> nat \<Rightarrow> 's env \<Rightarrow> bool" where
  "env_respects get h n env \<longleftrightarrow> (\<forall>k w. n \<le> k \<longrightarrow> claims (w_fl w) h = Some Upload \<longrightarrow>
     claims (w_fl (env k w)) h = Some Upload \<and> get (w_s3 (env k w)) (key_for h) = get (w_s3 w) (key_for h))"

lemma respects_await:
  "env_respects get h n env \<Longrightarrow> n \<le> w_awaits w \<Longrightarrow> claims (w_fl w) h = Some Upload \<Longrightarrow>
   claims (w_fl (await env w)) h = Some Upload \<and> get (w_s3 (await env w)) (key_for h) = get (w_s3 w) (key_for h)"
  by (auto simp: env_respects_def await_def)

lemma w_awaits_await [simp]: "w_awaits (await env w) = Suc (w_awaits w)"
  by (simp add: await_def)

text \<open>What a row says about its blob: verified against the NAR it claims, and hashed and measured as stored.\<close>

definition blob_of_object :: "('s, 'd, 'k) pusher \<Rightarrow> object \<Rightarrow> bytes \<Rightarrow> bool" where
  "blob_of_object P ob blob \<longleftrightarrow>
     (\<exists>cs. blob = concat cs \<and> nar_matches (pu_run P) (pu_sha256 P) (pu_decoder P) cs (obj_nar_hash ob) (obj_nar_size ob))
     \<and> obj_file_hash ob = sha256_nix32 (pu_sha256 P blob) \<and> obj_file_size ob = int (length blob)"

definition pusher_ok :: "('s, 'd, 'k) pusher \<Rightarrow> ('s \<Rightarrow> string \<rightharpoonup> bytes) \<Rightarrow> ('s \<Rightarrow> string \<Rightarrow> string \<Rightarrow> nat \<rightharpoonup> bytes) \<Rightarrow> bool" where
  "pusher_ok P get parts \<longleftrightarrow> s3_upload_law (pu_api P) get parts \<and> 0 < part_size (pu_limits P) \<and> zstd_progress (pu_run P)
     \<and> crypto_law (pu_crypto P) \<and> list_all (\<lambda>k. CHR '':'' \<notin> set (sk_name k)) (pu_keys P)"

lemma signed_object_Inr:
  assumes "signed_object P ob x = Inr ob'" "pusher_ok P get parts"
  shows "obj_store_path_hash ob' = obj_store_path_hash ob \<and> obj_nar_hash ob' = obj_nar_hash ob
    \<and> obj_nar_size ob' = obj_nar_size ob \<and> obj_references ob' = obj_references ob \<and> obj_pushed_by ob' = obj_pushed_by ob
    \<and> obj_file_hash ob' = sha256_nix32 (fst x) \<and> obj_file_size ob' = int (snd x)
    \<and> verify_sigs (pu_crypto P) ob' (pu_store_dir P) (pu_keys P)"
proof -
  define ob1 where "ob1 = ob\<lparr>obj_file_hash := sha256_nix32 (fst x), obj_file_size := int (snd x)\<rparr>"
  let ?fp = "fingerprint ob1 (pu_store_dir P)"
  obtain k ks where keys: "pu_keys P = k # ks" and ob': "ob' = ob1\<lparr>obj_sigs := map (\<lambda>k. key_sign (pu_crypto P) k ?fp) (k # ks)\<rparr>"
    using assms(1) by (cases "pu_keys P") (auto simp: signed_object_def sign_def Let_def ob1_def)
  have "verifies (pu_crypto P) k (key_sign (pu_crypto P) k ?fp) ?fp"
    using assms(2) keys by (intro verifies_key_sign) (auto simp: pusher_ok_def)
  then have "verify_sigs (pu_crypto P) ob' (pu_store_dir P) (pu_keys P)"
    by (simp add: ob' keys verify_sigs_def)
  then show ?thesis by (simp add: ob' ob1_def)
qed

lemma upload_verdict_Inr: "upload_verdict i out st = Inr x \<Longrightarrow> out = Some Accepted \<and> st = Inr x"
  by (cases st) (auto simp: upload_verdict_def split: option.splits outcome.splits)

lemma drop_upload_simps [simp]:
  "w_db (drop_upload h w) = w_db w" "w_s3 (drop_upload h w) = w_s3 w" "w_slots (drop_upload h w) = w_slots w"
  "claims (w_fl (drop_upload h w)) h = None"
  by (simp_all add: drop_upload_def drop_claim_def)

lemma find_row_insert:
  "insert_object enc d ob now = Inr d' \<Longrightarrow> find_row d' (obj_store_path_hash ob) = Some (row_of_object enc ob now)"
  by (auto simp: insert_object_def Let_def find_row_def find_upsert_row split: if_splits)

text \<open>A row in place whose signed claims hold of the blob in place.\<close>

definition row_and_blob :: "('s, 'd, 'k) pusher \<Rightarrow> ('s \<Rightarrow> string \<rightharpoonup> bytes) \<Rightarrow> hash \<Rightarrow> string \<Rightarrow> 's world \<Rightarrow> bool" where
  "row_and_blob P get h subject w \<longleftrightarrow>
     (\<exists>ob at blob. find_row (w_db w) h = Some (row_of_object (pu_enc_sigs P) ob at)
        \<and> obj_store_path_hash ob = h \<and> obj_pushed_by ob = Some subject
        \<and> get (w_s3 w) (key_for h) = Some blob \<and> blob_of_object P ob blob
        \<and> verify_sigs (pu_crypto P) ob (pu_store_dir P) (pu_keys P))"

lemma build_object_fields:
  "build_object cr h p dir subject = Inr ob \<Longrightarrow> obj_store_path_hash ob = h \<and> obj_pushed_by ob = Some subject"
  by (auto simp: build_object_def split: option.splits sum.splits if_splits)

lemma insert_upload_cases:
  assumes "insert_upload enc i ob at w = (r, w')"
  shows "claims (w_fl w') (obj_store_path_hash ob) = None \<and> w_s3 w' = w_s3 w
    \<and> (\<forall>n. r = Inr n \<longrightarrow> insert_object enc (w_db w) ob at = Inr (w_db w'))
    \<and> (\<forall>e. r = Inl e \<longrightarrow> w_db w' = w_db w)"
  using assms by (auto simp: insert_upload_def split: sum.splits)

lemma store_nar_verified:
  assumes "pusher_ok P get parts"
  obtains st rd s' where "store_nar P sc h ob leftover rest s = Some (st, rd, s')"
    and "\<And>x. st = Inr x \<Longrightarrow> \<exists>cs. Chunk leftover # rest = map Chunk cs
          \<and> nar_matches (pu_run P) (pu_sha256 P) (pu_decoder P) cs (obj_nar_hash ob) (obj_nar_size ob)
          \<and> get s' = (get s)(key_for h \<mapsto> concat cs) \<and> x = (pu_sha256 P (concat cs), length (concat cs))
          \<and> into_outcome (rd_body rd) = Some Accepted"
    and "\<nexists>cs. Chunk leftover # rest = map Chunk cs
          \<and> nar_matches (pu_run P) (pu_sha256 P) (pu_decoder P) cs (obj_nar_hash ob) (obj_nar_size ob) \<Longrightarrow> get s' = get s"
proof -
  have law: "s3_upload_law (pu_api P) get parts" "0 < part_size (pu_limits P)" "zstd_progress (pu_run P)"
    using assms by (simp_all add: pusher_ok_def)
  show thesis
    using put_verified [where ?sha256.0 = "pu_sha256 P" and pick = "sc_pick sc" and closed = "sc_closed sc"
        and crashed = "sc_crashed sc" and key = "key_for h" and s = s
        and cb = "pu_compress_bound P" and d = "pu_decoder P" and inner = "Chunk leftover # rest"
        and h = "obj_nar_hash ob" and n = "obj_nar_size ob"
        and hint = "max_compressed_len (pu_compress_bound P) (obj_nar_size ob)", OF law refl,
        folded store_nar_def]
    by (elim exE conjE) (rule that, assumption, erule allE, erule (1) mp, erule (1) mp)
qed

lemma store_nar_effect:
  assumes "pusher_ok P get parts" "store_nar P sc h ob leftover rest s = Some (st, rd, s')"
  shows "get s' = get s \<or> (\<exists>b. get s' = (get s)(key_for h \<mapsto> b))"
  using assms by (intro put_effect [OF _ _ _ refl]) (auto simp: pusher_ok_def store_nar_def)

lemma store_upload_returns:
  assumes P: "pusher_ok P get parts" and env: "env_respects get h n env" "n \<le> w_awaits w" and held: "claims (w_fl w) h = Some Upload"
  shows "\<exists>r w'. store_upload env clock P sc h subject body w = Some (r, w') \<and> claims (w_fl w') h = None
    \<and> (\<forall>n. r = Inr n \<longrightarrow> row_and_blob P get h subject w')"
proof (cases "read_preamble (pu_from_slice P) (sc_id sc) [] body")
  case (Inl e)
  then show ?thesis by (simp add: store_upload_def Let_def)
next
  case (Inr plr)
  let ?w2 = "await env (await env w)"
  obtain p leftover rest where plr: "plr = (p, leftover, rest)" by (metis prod_cases3)
  show ?thesis
  proof (cases "build_object (pu_crypto P) h p (pu_store_dir P) subject")
    case (Inl e)
    then show ?thesis using Inr plr by (simp add: store_upload_def Let_def)
  next
    case ob: (Inr ob)
    obtain st rd s where put: "store_nar P sc h ob leftover rest (w_s3 ?w2) = Some (st, rd, s)"
      and ok: "\<And>x. st = Inr x \<Longrightarrow> \<exists>cs. nar_matches (pu_run P) (pu_sha256 P) (pu_decoder P) cs (obj_nar_hash ob) (obj_nar_size ob)
          \<and> get s = (get (w_s3 ?w2))(key_for h \<mapsto> concat cs) \<and> x = (pu_sha256 P (concat cs), length (concat cs))"
      using store_nar_verified [OF P, of sc h ob leftover rest "w_s3 ?w2"] by metis
    let ?w3 = "?w2\<lparr>w_s3 := s\<rparr>"
    show ?thesis
    proof (cases "upload_verdict (sc_id sc) (into_outcome (rd_body rd)) st")
      case (Inl e)
      then show ?thesis using Inr plr ob put by (simp add: store_upload_def Let_def)
    next
      case v: (Inr x)
      show ?thesis
      proof (cases "signed_object P ob x")
        case (Inl e)
        then show ?thesis using Inr plr ob put v by (simp add: store_upload_def Let_def)
      next
        case so: (Inr sob)
        obtain r w' where ins: "insert_upload (pu_enc_sigs P) (sc_id sc) sob (clock (w_awaits ?w3)) (await env ?w3) = (r, w')"
          by fastforce
        have run: "store_upload env clock P sc h subject body w = Some (r, w')"
          using Inr plr ob put v so ins by (simp add: store_upload_def Let_def)
        note sob = signed_object_Inr [OF so P] and bo = build_object_fields [OF ob]
        obtain cs where cs: "nar_matches (pu_run P) (pu_sha256 P) (pu_decoder P) cs (obj_nar_hash ob) (obj_nar_size ob)"
          "get s = (get (w_s3 ?w2))(key_for h \<mapsto> concat cs)" "x = (pu_sha256 P (concat cs), length (concat cs))"
          using ok upload_verdict_Inr [OF v] by blast
        have "claims (w_fl ?w3) h = Some Upload"
          using respects_await [OF env(1)] env(2) held by simp
        then have blob: "get (w_s3 (await env ?w3)) (key_for h) = Some (concat cs)"
          using respects_await [OF env(1), of ?w3] env(2) cs(2) by simp
        note iu = insert_upload_cases [OF ins]
        have "row_and_blob P get h subject w'" if "r = Inr n" for n
        proof -
          have "find_row (w_db w') (obj_store_path_hash sob) = Some (row_of_object (pu_enc_sigs P) sob (clock (w_awaits ?w3)))"
            using iu that find_row_insert by blast
          moreover have "blob_of_object P sob (concat cs)"
            unfolding blob_of_object_def using cs sob by auto
          ultimately show ?thesis using iu sob bo blob unfolding row_and_blob_def by metis
        qed
        then show ?thesis using run iu sob bo by auto
      qed
    qed
  qed
qed

text \<open>
  C3. An upload always gets an answer, whatever the others do as long as, once it holds the claim,
  they leave alone the claim and the blob of the path. If the answer is \<^verbatim>\<open>created\<close>, there is a row for
  the path, attributed to the pusher and signed, and a blob that was verified to decompress to
  the NAR the row claims and whose digest and size are the row's; the claim is released. A path
  with a row, one being uploaded, one being deleted, or a quiescing server get their own
  answers, and the body is not read.
\<close>

theorem upload_created_is_stored:
  assumes "pusher_ok P get parts" and "env_respects get h (Suc (w_awaits w)) env"
  shows "\<exists>r w'. upload env clock P sc h subject body w = Some (r, w')
    \<and> (\<forall>ack. r = Inr (StatusCreated, ack) \<longrightarrow> ack = Created \<and> is_store_hash h \<and> claims (w_fl w') h = None \<and> row_and_blob P get h subject w')"
proof -
  let ?w1 = "await env w"
  let ?w2 = "?w1\<lparr>w_slots := w_slots ?w1 - 1\<rparr>"
  consider "is_quiescing (w_fl w) \<or> \<not> is_store_hash h \<or> already_stored h ?w1 \<or> w_slots ?w1 = 0"
    | (refused) e where "\<not> is_quiescing (w_fl w)" "is_store_hash h" "\<not> already_stored h ?w1" "w_slots ?w1 \<noteq> 0" "claim (w_fl ?w2) h = Inl e"
    | (granted) fl where "\<not> is_quiescing (w_fl w)" "is_store_hash h" "\<not> already_stored h ?w1" "w_slots ?w1 \<noteq> 0" "claim (w_fl ?w2) h = Inr fl"
    by (cases "claim (w_fl ?w2) h") blast+
  then show ?thesis
  proof cases
    case 1
    then show ?thesis by (auto simp: upload_def Let_def quiescing_error_def retry_after_error_def)
  next
    case refused
    then show ?thesis by (cases e) (auto simp: upload_def Let_def)
  next
    case granted
    let ?w3 = "await env (?w2\<lparr>w_fl := fl\<rparr>)"
    have "claims fl h = Some Upload" using granted(5) by (auto simp: claim_Inr take_claim_Inr)
    then have held: "claims (w_fl ?w3) h = Some Upload" using respects_await [OF assms(2)] by simp
    obtain r w' where run: "store_upload env clock P sc h subject body ?w3 = Some (r, w')" and "claims (w_fl w') h = None"
      and "\<forall>n. r = Inr n \<longrightarrow> row_and_blob P get h subject w'"
      using store_upload_returns [OF assms _ held] by fastforce
    then show ?thesis using granted
      by (cases r) (auto simp: upload_def claimed_upload_def Let_def release_slot_def row_and_blob_def)
  qed
qed

definition demo_preamble :: preamble where
  "demo_preamble = \<lparr>pre_store_path = ''/nix/store/'' @ rep_hash CHR ''a'' @ ''-x'', pre_nar_hash = sha256_nix32 (replicate 32 0),
     pre_nar_size = 1, pre_references = [], pre_deriver = None, pre_ca = None\<rparr>"

definition demo_pusher :: "(mem_s3, unit, bytes) pusher" where
  "demo_pusher = \<lparr>pu_from_slice = (\<lambda>_. Some demo_preamble), pu_enc_sigs = demo_enc, pu_crypto = demo_crypto,
     pu_keys = [\<lparr>sk_name = ''k'', sk_key = [1]\<rparr>], pu_store_dir = ''/nix/store'', pu_limits = demo_limits, pu_api = mem_api,
     pu_run = copy_run, pu_decoder = (), pu_compress_bound = id, pu_sha256 = (\<lambda>_. replicate 32 0)\<rparr>"

definition demo_schedule :: schedule where
  "demo_schedule = \<lparr>sc_pick = id, sc_closed = (\<lambda>_. False), sc_crashed = False, sc_id = 0\<rparr>"

definition empty_world :: "mem_s3 world" where
  "empty_world = \<lparr>w_db = empty_db, w_fl = new_in_flight, w_s3 = (Map.empty, Map.empty), w_slots = 1, w_awaits = 0\<rparr>"

lemma demo_pusher_ok: "pusher_ok demo_pusher fst (\<lambda>s k i n. snd s (k, i, n))"
  by (simp add: pusher_ok_def demo_pusher_def mem_api_law copy_run_progress crypto_law_demo demo_limits_def)

lemma demo_build_object:
  "\<exists>ob. build_object demo_crypto (rep_hash CHR ''a'') demo_preamble ''/nix/store'' s = Inr ob \<and> obj_nar_size ob = 1
     \<and> obj_nar_hash ob = sha256_nix32 (replicate 32 0) \<and> obj_references ob = []"
proof -
  have "normalize_hash demo_crypto (sha256_nix32 (replicate 32 0)) = Inr (sha256_nix32 (replicate 32 0))"
    by (simp add: normalize_hash_def sha256_nix32_def is_nix_base32_encode)
  then show ?thesis using fixture_basename [OF fixture_chars(1,3), simplified]
    by (simp add: build_object_def own_name_def deriver_of_def ca_ok_def demo_preamble_def)
qed

lemma demo_store_nar:
  assumes "obj_nar_size ob = 1" "obj_nar_hash ob = sha256_nix32 (replicate 32 0)"
  shows "\<exists>rd s. store_nar demo_pusher demo_schedule h ob [7] [] s0 = Some (Inr (replicate 32 0, 1), rd, s)
     \<and> into_outcome (rd_body rd) = Some Accepted"
  using assms
  by (simp add: store_nar_def demo_pusher_def demo_schedule_def put_streaming_def clamp_def demo_limits_def fill.simps reader_next_def
      next_chunk_def new_reader_def new_verified_def with_offload_def poll_next_def new_checker_def feed_def
      feed_loop.simps copy_run_def SCRATCH_def OFFLOAD_MIN_def max_compressed_len_def saturating_add_def
      COMPRESSED_SLACK_def USIZE_MAX_def reader_append_def finish_def store_first_def put_def mem_api_def
      reader_finish_def into_outcome_def Let_def split: prod.splits)

lemma demo_upload:
  "\<exists>w'. upload alone (\<lambda>_. 5) demo_pusher demo_schedule (rep_hash CHR ''a'') ''me'' [Chunk [0, 0], Chunk [0, 0, 7]] empty_world =
       Some (Inr (StatusCreated, Created), w') \<and> rep_hash CHR ''a'' \<in> db_keys (w_db w')"
proof -
  let ?h = "rep_hash CHR ''a''" and ?body = "[Chunk [0, 0], Chunk [0, 0, 7]]"
  have rp: "read_preamble (pu_from_slice demo_pusher) 0 [] ?body = Inr (demo_preamble, [7], [])"
    by (simp add: take_preamble_def preamble_end_def from_le_bytes_def demo_pusher_def Let_def)
  obtain ob where ob: "build_object demo_crypto ?h demo_preamble ''/nix/store'' ''me'' = Inr ob" "obj_nar_size ob = 1"
      "obj_nar_hash ob = sha256_nix32 (replicate 32 0)" "obj_references ob = []"
    using demo_build_object by blast
  obtain rd s where nar: "store_nar demo_pusher demo_schedule ?h ob [7] [] (Map.empty, Map.empty) = Some (Inr (replicate 32 0, 1), rd, s)"
      "into_outcome (rd_body rd) = Some Accepted"
    using demo_store_nar [OF ob(2,3)] by blast
  have "is_store_hash ?h" using fixture_chars(1) by (simp add: is_store_hash_def rep_hash_def is_nix_base32_def list_all_iff)
  moreover have P: "pu_crypto demo_pusher = demo_crypto" "pu_store_dir demo_pusher = ''/nix/store''" "sc_id demo_schedule = 0"
    by (simp_all add: demo_pusher_def demo_schedule_def)
  ultimately show ?thesis
    using rp ob nar build_object_fields [OF ob(1)]
    by (simp add: upload_def claimed_upload_def store_upload_def Let_def empty_world_def is_quiescing_def new_in_flight_def
        already_stored_def exists_object_def find_row_def empty_db_def claim_def take_claim_def upload_verdict_def
        signed_object_def sign_def insert_upload_def insert_object_def file_size_def demo_pusher_def db_keys_def row_of_object_def release_slot_def)
qed

theorem upload_created_is_stored_witness:
  "\<exists>w'. upload alone (\<lambda>_. 5) demo_pusher demo_schedule (rep_hash CHR ''a'') ''me'' [Chunk [0, 0], Chunk [0, 0, 7]] empty_world =
       Some (Inr (StatusCreated, Created), w') \<and> row_and_blob demo_pusher fst (rep_hash CHR ''a'') ''me'' w'"
proof -
  have "env_respects fst (rep_hash CHR ''a'') (Suc (w_awaits empty_world)) alone" by (simp add: env_respects_def alone_def)
  from upload_created_is_stored [OF demo_pusher_ok this, of "\<lambda>_. 5" demo_schedule "''me''" "[Chunk [0, 0], Chunk [0, 0, 7]]"] demo_upload
  show ?thesis by auto
qed

section \<open>An upload that fails\<close>

lemma drop_claim_claim: "claim fl h = Inr fl' \<Longrightarrow> drop_claim fl' h = fl"
  by (auto simp: claim_Inr drop_take)

lemma store_upload_alone:
  assumes P: "pusher_ok P get parts" and run: "store_upload alone clock P sc h subject body w = Some (r, w')"
  shows "w_fl w' = drop_claim (w_fl w) h \<and> w_slots w' = w_slots w \<and> (\<forall>e. r = Inl e \<longrightarrow> w_db w' = w_db w)
    \<and> (\<forall>k. k \<noteq> key_for h \<longrightarrow> get (w_s3 w') k = get (w_s3 w) k)
    \<and> ((\<nexists>p leftover rest cs nh n. read_preamble (pu_from_slice P) (sc_id sc) [] body = Inr (p, leftover, rest)
          \<and> Chunk leftover # rest = map Chunk cs \<and> normalize_hash (pu_crypto P) (pre_nar_hash p) = Inr nh \<and> n = pre_nar_size p
          \<and> nar_matches (pu_run P) (pu_sha256 P) (pu_decoder P) cs nh n) \<longrightarrow> get (w_s3 w') = get (w_s3 w))"
proof (cases "read_preamble (pu_from_slice P) (sc_id sc) [] body")
  case (Inl e)
  then show ?thesis using run by (auto simp: store_upload_def Let_def drop_upload_def)
next
  case (Inr plr)
  obtain p leftover rest where plr: "plr = (p, leftover, rest)" by (metis prod_cases3)
  show ?thesis
  proof (cases "build_object (pu_crypto P) h p (pu_store_dir P) subject")
    case (Inl e)
    then show ?thesis using Inr plr run by (auto simp: store_upload_def Let_def drop_upload_def)
  next
    case ob: (Inr ob)
    have nh: "normalize_hash (pu_crypto P) (pre_nar_hash p) = Inr (obj_nar_hash ob)" "obj_nar_size ob = pre_nar_size p"
      using ob by (auto simp: build_object_def split: option.splits sum.splits if_splits)
    obtain st rd s where put: "store_nar P sc h ob leftover rest (w_s3 w) = Some (st, rd, s)"
      and unmatched: "\<nexists>cs. Chunk leftover # rest = map Chunk cs
          \<and> nar_matches (pu_run P) (pu_sha256 P) (pu_decoder P) cs (obj_nar_hash ob) (obj_nar_size ob) \<Longrightarrow> get s = get (w_s3 w)"
      using store_nar_verified [OF P, of sc h ob leftover rest "w_s3 w"] by metis
    have frame: "\<forall>k. k \<noteq> key_for h \<longrightarrow> get s k = get (w_s3 w) k" using store_nar_effect [OF P put] by auto
    have s3: "w_s3 w' = s" and rest: "w_fl w' = drop_claim (w_fl w) h \<and> w_slots w' = w_slots w \<and> (\<forall>e. r = Inl e \<longrightarrow> w_db w' = w_db w)"
      using run Inr plr ob put
      by (auto simp: store_upload_def Let_def drop_upload_def insert_upload_def build_object_fields [OF ob]
          signed_object_Inr [OF _ P] split: sum.splits)
    show ?thesis using s3 rest frame unmatched nh Inr plr by auto
  qed
qed

text \<open>
  C30. With nobody else at work, an upload gives back its slot and its claim whatever happens;
  unless it answers \<^verbatim>\<open>created\<close> the database is as before; it never touches another key's blob; and
  it stores no blob at all unless the body carried a preamble and a NAR that matches its claim.
\<close>

theorem upload_failure_leaves_no_trace:
  assumes P: "pusher_ok P get parts" and run: "upload alone clock P sc h subject body w = Some (r, w')"
  shows "w_fl w' = w_fl w \<and> w_slots w' = w_slots w \<and> ((\<nexists>ack. r = Inr (StatusCreated, ack)) \<longrightarrow> w_db w' = w_db w)
    \<and> (\<forall>k. k \<noteq> key_for h \<longrightarrow> get (w_s3 w') k = get (w_s3 w) k)
    \<and> ((\<nexists>p leftover rest cs nh n. read_preamble (pu_from_slice P) (sc_id sc) [] body = Inr (p, leftover, rest)
          \<and> Chunk leftover # rest = map Chunk cs \<and> normalize_hash (pu_crypto P) (pre_nar_hash p) = Inr nh \<and> n = pre_nar_size p
          \<and> nar_matches (pu_run P) (pu_sha256 P) (pu_decoder P) cs nh n) \<longrightarrow> get (w_s3 w') = get (w_s3 w))"
proof -
  let ?w1 = "w\<lparr>w_awaits := Suc (w_awaits w)\<rparr>"
  let ?w2 = "?w1\<lparr>w_slots := w_slots w - 1\<rparr>"
  consider "is_quiescing (w_fl w) \<or> \<not> is_store_hash h \<or> already_stored h ?w1 \<or> w_slots w = 0"
    | (refused) e where "\<not> is_quiescing (w_fl w)" "is_store_hash h" "\<not> already_stored h ?w1" "w_slots w \<noteq> 0" "claim (w_fl w) h = Inl e"
    | (granted) fl where "\<not> is_quiescing (w_fl w)" "is_store_hash h" "\<not> already_stored h ?w1" "w_slots w \<noteq> 0" "claim (w_fl w) h = Inr fl"
    by (cases "claim (w_fl w) h") blast+
  then show ?thesis
  proof cases
    case 1
    then show ?thesis using run by (auto simp: upload_def Let_def split: if_splits)
  next
    case refused
    then show ?thesis using run by (cases e) (auto simp: upload_def Let_def release_slot_def)
  next
    case granted
    let ?w3 = "?w2\<lparr>w_fl := fl, w_awaits := Suc (Suc (w_awaits w))\<rparr>"
    have ns: "\<not> already_stored h ?w3" using granted(3) by (simp add: already_stored_def)
    obtain r0 w0 where su: "store_upload alone clock P sc h subject body ?w3 = Some (r0, w0)"
      and rw: "r = map_sum id (\<lambda>_. (StatusCreated, Created)) r0" "w' = release_slot w0"
      using run granted ns by (auto simp: upload_def claimed_upload_def Let_def)
    have "(\<nexists>ack. r = Inr (StatusCreated, ack)) \<longrightarrow> (\<exists>e. r0 = Inl e)" using rw(1) by (cases r0) auto
    then show ?thesis
      using store_upload_alone [OF P su] rw(2) drop_claim_claim [OF granted(5)] granted(4)
      by (auto simp: release_slot_def)
  qed
qed

theorem upload_failure_leaves_no_trace_witness:
  "\<exists>r w'. upload alone (\<lambda>_. 5) demo_pusher demo_schedule (rep_hash CHR ''a'') ''me'' [Chunk [0, 0], Broken] empty_world = Some (r, w')
     \<and> w_slots w' = w_slots empty_world \<and> fst (w_s3 w') = Map.empty"
proof -
  let ?up = "upload alone (\<lambda>_. 5) demo_pusher demo_schedule (rep_hash CHR ''a'') ''me'' [Chunk [0, 0], Broken] empty_world"
  have env: "env_respects fst (rep_hash CHR ''a'') n alone" for n by (simp add: env_respects_def alone_def)
  have rp: "read_preamble (pu_from_slice demo_pusher) (sc_id demo_schedule) [] [Chunk [0, 0], Broken] = Inl (refused_error BodyFailed)"
    by (simp add: take_preamble_def preamble_end_def)
  have "is_store_hash (rep_hash CHR ''a'')" using fixture_chars(1) by (simp add: is_store_hash_def rep_hash_def is_nix_base32_def list_all_iff)
  then have "\<exists>r w'. ?up = Some (r, w')"
    using rp by (simp add: upload_def claimed_upload_def store_upload_def Let_def empty_world_def is_quiescing_def new_in_flight_def
        already_stored_def exists_object_def find_row_def empty_db_def claim_def take_claim_def db_keys_def)
  then obtain r w' where run: "?up = Some (r, w')" by blast
  from upload_failure_leaves_no_trace [OF demo_pusher_ok run] rp show ?thesis
    using run by (simp add: empty_world_def)
qed

section \<open>What the caller is told\<close>

definition error_ok :: "nat \<Rightarrow> http_error \<Rightarrow> bool" where
  "error_ok i e \<longleftrightarrow>
     (case err_status e of
        StatusBadRequest \<Rightarrow> err_reason e = Some ''refused'' \<and> \<not> err_retry_after e \<and> (\<nexists>n. err_message e = InternalError n)
      | StatusTooManyRequests \<Rightarrow> err_reason e = None \<and> err_retry_after e \<and> err_message e = TooManyUploads
      | StatusServiceUnavailable \<Rightarrow> err_reason e = None \<and> err_retry_after e \<and> err_message e \<in> {BeingDeleted, IsQuiescing}
      | StatusInternal \<Rightarrow> err_reason e \<in> Some ` {''client_body'', ''storage'', ''internal''} \<and> \<not> err_retry_after e
          \<and> err_message e = InternalError i
      | _ \<Rightarrow> False)"

lemma error_ok_refused [simp]: "error_ok i (refused_error m) \<longleftrightarrow> (\<nexists>n. m = InternalError n)"
  by (simp add: error_ok_def refused_error_def)

lemma error_ok_failure [simp]: "error_ok i (error_of_failure i f)"
  by (simp add: error_of_failure_def refused_error_def error_ok_def)

lemma error_ok_policy [simp]: "error_ok i quiescing_error"
  "error_ok i (retry_after_error StatusTooManyRequests TooManyUploads)" "error_ok i (retry_after_error StatusServiceUnavailable BeingDeleted)"
  by (simp_all add: quiescing_error_def retry_after_error_def error_ok_def)

lemma take_preamble_error: "take_preamble f buf = Inl e \<Longrightarrow> error_ok i e"
  by (auto simp: take_preamble_def split: sum.splits option.splits)

lemma read_preamble_error: "read_preamble f i head body = Inl e \<Longrightarrow> error_ok i e"
  by (induction f i head body rule: read_preamble.induct)
    (auto split: sum.splits option.splits body_item.splits dest: take_preamble_error)

lemma basenames_of_error: "basenames_of dir rs = Inl e \<Longrightarrow> error_ok i e"
proof (induction rs)
  case (Cons r rs)
  then show ?case by (cases "basenames_of dir rs") (auto split: option.splits)
qed simp

lemma build_object_error: "build_object cr h p dir subject = Inl e \<Longrightarrow> error_ok i e"
  by (auto simp: build_object_def deriver_of_def dest: basenames_of_error split: option.splits sum.splits if_splits)

lemma upload_verdict_error: "upload_verdict i out st = Inl e \<Longrightarrow> error_ok i e"
  by (cases st) (auto simp: upload_verdict_def split: option.splits outcome.splits)

lemma store_upload_error: "store_upload env clock P sc h subject body w = Some (Inl e, w') \<Longrightarrow> error_ok (sc_id sc) e"
  by (auto simp: store_upload_def Let_def insert_upload_def
      split: option.splits sum.splits) (erule read_preamble_error build_object_error upload_verdict_error)+



text \<open>
  A preamble that names a reference twice passes validation, but its row breaks the primary key
  of \<^verbatim>\<open>object_refs\<close>: the upload fails with an internal error after the blob was stored.
\<close>

lemma duplicate_reference_orphans_blob:
  assumes "read_preamble (pu_from_slice P) (sc_id sc) [] body = Inr (p, leftover, rest)"
    and "build_object (pu_crypto P) h p (pu_store_dir P) subject = Inr ob" and "\<not> distinct (pre_references p)"
    and "store_nar P sc h ob leftover rest (w_s3 w) = Some (Inr x, rd, s)" "into_outcome (rd_body rd) = Some Accepted"
    and "signed_object P ob x = Inr sob"
  shows "\<exists>w'. store_upload alone clock P sc h subject body w = Some (Inl (error_of_failure (sc_id sc) (DbFailure UniqueViolation)), w')
    \<and> w_db w' = w_db w \<and> w_s3 w' = s"
proof -
  obtain refs where refs: "basenames_of (pu_store_dir P) (pre_references p) = Inr refs" "obj_references ob = sort refs"
    using assms(2) by (auto simp: build_object_def split: option.splits sum.splits if_splits)
  have "pre_references p = map (\<lambda>b. pu_store_dir P @ ''/'' @ b) refs"
    using refs(1) unfolding basenames_of_Inr by (induction rule: list_all2_induct) (auto simp: store_basename_Some)
  then have "\<not> distinct refs" using assms(3) by (simp add: distinct_map inj_on_def)
  then have "\<not> distinct (obj_references sob)"
    using refs(2) assms(6) by (auto simp: signed_object_def sign_def Let_def split: if_splits)
  then show ?thesis using assms by (simp add: store_upload_def Let_def upload_verdict_def insert_upload_def insert_object_def)
qed

end
