(* ===== verification/Admin_Laws.thy ===== *)
theory Admin_Laws
  imports Admin Pusher_Laws
begin

text \<open>
  What the operator's commands promise: a dry run predicts the real one, prune keeps closures
  down to the blobs, re-signing never launders an altered row, and no command breaks the
  database's invariant, whatever runs beside it.
\<close>

section \<open>Delete\<close>

lemma set_first_seen: "set (first_seen seen xs) = set xs - set seen"
  by (induction seen xs rule: first_seen.induct) auto

lemma distinct_first_seen: "distinct (first_seen seen xs)"
  by (induction seen xs rule: first_seen.induct) (auto simp: set_first_seen)

lemma file_size_remove_row: "k \<noteq> h \<Longrightarrow> file_size (remove_row d h n) k = file_size d k"
proof -
  assume "k \<noteq> h"
  have "find (\<lambda>r. row_hash r = k) (filter (\<lambda>r. row_hash r \<noteq> h) rs) = find (\<lambda>r. row_hash r = k) rs" for rs :: "object_row list"
    using \<open>k \<noteq> h\<close> by (induction rs) auto
  then show ?thesis by (simp add: file_size_def find_row_def objects_remove_row)
qed

lemma file_size_delete_object: "k \<noteq> h \<Longrightarrow> file_size (snd (delete_object d h)) k = file_size d k"
  by (auto simp: delete_object_def file_size_remove_row split: option.splits)

lemma delete_object_fst: "fst (delete_object d h) = file_size d h"
  by (cases "file_size d h") (simp_all add: delete_object_def del: file_size_None)

lemma total_delete_object:
  "db_inv d \<Longrightarrow> file_size d h = Some n \<Longrightarrow> db_total (snd (delete_object d h)) = db_total d - n"
proof -
  assume d: "db_inv d" and n: "file_size d h = Some n"
  then obtain r where r: "r \<in> set (db_objects d)" "row_hash r = h" "row_file_size r = n"
    by (auto simp: file_size_Some)
  have "0 \<le> sum_file_size (delete_row d h)"
    using d by (auto simp: db_inv_def sum_file_size_def delete_row_def intro!: sum_list_nonneg)
  then have "0 \<le> db_total d - n"
    using sum_file_size_delete_row [OF d r(1)] r(2,3) d by (simp add: db_inv_def)
  then show ?thesis using n by (simp add: delete_object_def remove_row_def debit_def delete_row_def)
qed

text \<open>What deleting a list of paths does and reports.\<close>

definition delete_tally :: "database \<Rightarrow> hash list \<Rightarrow> deleted \<Rightarrow> deleted" where
  "delete_tally d hs dl =
     \<lparr>dl_deleted = dl_deleted dl + length (filter (\<lambda>h. h \<in> db_keys d) hs),
      dl_bytes_freed = dl_bytes_freed dl + sum_list (map (\<lambda>h. the (file_size d h)) (filter (\<lambda>h. h \<in> db_keys d) hs)),
      dl_missing = dl_missing dl @ filter (\<lambda>h. h \<notin> db_keys d) hs\<rparr>"

lemma delete_tally_cong:
  assumes "\<And>h. h \<in> set hs \<Longrightarrow> file_size d h = file_size d' h"
  shows "delete_tally d hs dl = delete_tally d' hs dl"
proof -
  have keys: "h \<in> db_keys d \<longleftrightarrow> h \<in> db_keys d'" if "h \<in> set hs" for h
    using assms [OF that] by (metis file_size_None)
  have "filter (\<lambda>h. h \<in> db_keys d) hs = filter (\<lambda>h. h \<in> db_keys d') hs" "filter (\<lambda>h. h \<notin> db_keys d) hs = filter (\<lambda>h. h \<notin> db_keys d') hs"
    using keys by (auto intro: filter_cong)
  then show ?thesis using assms unfolding delete_tally_def
    by (auto intro!: arg_cong [where f = sum_list] map_cong)
qed

lemma delete_each_dry:
  "delete_each alone True hs x dl w = (x', dl', w') \<Longrightarrow>
     x' = x \<and> dl' = delete_tally (w_db w) hs dl \<and> w_db w' = w_db w \<and> w_fl w' = w_fl w \<and> w_s3 w' = w_s3 w"
proof (induction hs arbitrary: dl w)
  case Nil
  then show ?case by (simp add: delete_tally_def)
next
  case (Cons h hs)
  show ?case
  proof (cases "file_size (w_db w) h")
    case None
    then have "h \<notin> db_keys (w_db w)" by (simp add: file_size_None)
    then show ?thesis using Cons None by (fastforce simp: delete_tally_def Let_def)
  next
    case (Some n)
    then have "h \<in> db_keys (w_db w)" by (metis file_size_None option.distinct(1))
    then show ?thesis using Cons Some by (fastforce simp: delete_tally_def Let_def)
  qed
qed

lemma delete_each_real:
  assumes "delete_each alone False hs x dl w = (x', dl', w')" "distinct hs" "db_inv (w_db w)"
  shows "dl' = delete_tally (w_db w) hs dl \<and> db_inv (w_db w') \<and> db_keys (w_db w') = db_keys (w_db w) - set hs
    \<and> db_total (w_db w') + dl_bytes_freed dl' = db_total (w_db w) + dl_bytes_freed dl
    \<and> w_fl w' = w_fl w \<and> w_s3 w' = w_s3 w \<and> del_claims x' = del_claims x
    \<and> del_keys x' = del_keys x @ map key_for (filter (\<lambda>h. h \<in> db_keys (w_db w)) hs)"
  using assms
proof (induction hs arbitrary: x dl w)
  case Nil
  then show ?case by (simp add: delete_tally_def)
next
  case (Cons h hs)
  define d where "d = snd (delete_object (w_db w) h)"
  let ?w = "w\<lparr>w_awaits := Suc (w_awaits w), w_db := d\<rparr>"
  have eq: "delete_object (w_db w) h = (file_size (w_db w) h, d)" unfolding d_def by (metis delete_object_fst prod.collapse)
  have inv: "db_inv (w_db ?w)" using Cons.prems(3) by (simp add: d_def db_inv_delete_object)
  have tally: "delete_tally d hs t = delete_tally (w_db w) hs t" for t
    using Cons.prems(2) unfolding d_def by (intro delete_tally_cong file_size_delete_object) auto
  have keys: "db_keys d = db_keys (w_db w) - {h}" by (simp add: d_def)
  have filt: "filter (\<lambda>k. k \<in> db_keys d) hs = filter (\<lambda>k. k \<in> db_keys (w_db w)) hs"
    using Cons.prems(2) unfolding keys by (auto intro: filter_cong)
  show ?case
  proof (cases "file_size (w_db w) h")
    case None
    then have h: "h \<notin> db_keys (w_db w)" by (simp add: file_size_None)
    have d: "d = w_db w" unfolding d_def delete_object_def None by simp
    have "delete_each alone False hs x (dl\<lparr>dl_missing := dl_missing dl @ [h]\<rparr>) ?w = (x', dl', w')"
      using Cons.prems(1) eq [unfolded None] by (simp add: Let_def)
    from Cons.IH [OF this _ inv] Cons.prems(2) h show ?thesis
      by (auto simp: d delete_tally_def)
  next
    case (Some n)
    then have h: "h \<in> db_keys (w_db w)" by (metis file_size_None option.distinct(1))
    let ?dl = "dl\<lparr>dl_deleted := dl_deleted dl + 1, dl_bytes_freed := dl_bytes_freed dl + n\<rparr>"
    have run: "delete_each alone False hs (queue_blob x h) ?dl ?w = (x', dl', w')"
      using Cons.prems(1) eq [unfolded Some] by (simp add: Let_def)
    have tot: "db_total d = db_total (w_db w) - n" unfolding d_def by (rule total_delete_object [OF Cons.prems(3) Some])
    have "delete_tally (w_db w) (h # hs) dl = delete_tally (w_db w) hs ?dl"
      using h Some by (simp add: delete_tally_def)
    then show ?thesis
      using Cons.IH [OF run _ inv] Cons.prems(2) h tot filt tally keys by (auto simp: queue_blob_def)
  qed
qed

lemma claim_all_cases:
  obtains (busy) h b where "claim_all fl hs = (Inl (h, b), fl)" "h \<in> set hs"
  | (granted) x fl' where "claim_all fl hs = (Inr x, fl')" "del_claims x = hs" "del_keys x = []" "release_claims x fl' = fl"
      "distinct hs" "set hs \<inter> dom (claims fl) = {}"
proof -
  consider (grant) fl' where "acquire_all claim_delete drop_claim [] hs fl = (Inr hs, fl')"
      "dom (claims fl') = dom (claims fl) \<union> set hs" "distinct hs" "set hs \<inter> dom (claims fl) = {}"
      "fold (\<lambda>h fl. drop_claim fl h) hs fl' = fl"
    | (no) h b where "h \<in> set hs" "acquire_all claim_delete drop_claim [] hs fl = (Inl (h, b), fl)"
    using deletes.acquire_all_atomic [OF TrueI, of hs fl] by blast
  then show thesis
  proof cases
    case grant
    then show thesis by (intro granted) (auto simp: claim_all_def release_claims_def)
  next
    case no
    then show thesis by (intro busy) (auto simp: claim_all_def)
  qed
qed

lemma release_claims_cong: "del_claims x = del_claims y \<Longrightarrow> release_claims x fl = release_claims y fl"
  by (simp add: release_claims_def)

lemma finish_deletion_eq:
  "finish_deletion del x fl s = (r, fl', s') \<longleftrightarrow> fl' = release_claims x fl \<and> delete_objects del s (del_keys x) = (r, s')"
  by (auto simp: finish_deletion_def split: prod.splits)

lemma delete_objects_law:
  assumes "s3_delete_law del present" "delete_objects del s keys = (r, s')"
  shows "present s - set keys \<subseteq> present s' \<and> present s' \<subseteq> present s \<and> (r = Inr () \<longrightarrow> present s' = present s - set keys)"
  using delete_batches_law [OF assms(1), of 0 "chunks DELETE_BATCH keys" s r s'] assms(2)
  by (auto simp: delete_objects_def DELETE_BATCH_def)


lemma demo_delete_run:
  "\<exists>dl w'. delete_hashes alone set_del [rep_hash CHR ''d'', ''nope''] False demo_world = (Inr dl, w')"
proof -
  have k: "''locked'' \<noteq> key_for h" for h by (simp add: key_for_def)
  have ne: "rep_hash CHR ''d'' \<noteq> ''nope''" by (simp add: rep_hash_def eval_nat_numeral)
  show ?thesis
    using ne ne [symmetric] k
    by (simp add: delete_hashes_def Let_def claim_all_def claim_delete_def take_claim_def demo_world_def new_in_flight_def
        delete_object_def file_size_def find_row_def one_object_db_def remove_row_def debit_def delete_row_def queue_blob_def
        finish_deletion_def delete_objects_def chunks.simps DELETE_BATCH_def set_del_def real_errors_def)
qed


section \<open>Prune\<close>

lemma objects_prune_commits:
  "db_objects (last (d # prune_commits doomed d bs)) =
     filter (\<lambda>r. row_hash r \<notin> set (hashes_at doomed (concat bs))) (db_objects d)"
proof (induction bs arbitrary: d)
  case (Cons b bs)
  have "db_objects (prune_batch doomed d b) = filter (\<lambda>r. row_hash r \<notin> set (hashes_at doomed b)) (db_objects d)"
    using fold_delete_row [of "hashes_at doomed b" d]
    by (simp add: prune_batch_def debit_def hashes_at_def fold_map comp_def)
  then show ?case using Cons.IH [of "prune_batch doomed d b"]
    by (auto simp: Let_def hashes_at_def intro!: filter_cong)
qed (simp add: hashes_at_def)

lemma sum_list_filter_split:
  "sum_list (map f xs) = sum_list (map f (filter P xs)) + sum_list (map f (filter (\<lambda>x. \<not> P x) xs))" for f :: "'a \<Rightarrow> int"
  by (induction xs) auto

lemma prune_frees_what_it_lists:
  assumes d: "db_inv d" and p: "prunable d before now = Inr doomed" and run: "delete_pruned d doomed = Inr cs"
  shows "sum_list (map brief_file_size doomed) = total_bytes d - total_bytes (last (d # cs))"
proof -
  let ?keep = "set (keep d before now)" and ?l = "last (d # cs)"
  have c: "db_keys ?l = db_keys d \<inter> ?keep" using delete_pruned_commits [OF assms] by simp
  obtain order where "cs = prune_commits doomed d (chunks PRUNE_BATCH order)"
    using run by (auto simp: delete_pruned_def split: sum.splits)
  from objects_prune_commits [of d doomed "chunks PRUNE_BATCH order", folded this]
  obtain H where obs: "db_objects ?l = filter (\<lambda>r. row_hash r \<notin> H) (db_objects d)" by blast
  have "row_hash r \<notin> H \<longleftrightarrow> row_hash r \<in> ?keep" if "r \<in> set (db_objects d)" for r
  proof -
    have inj: "row_hash r \<in> db_keys ?l \<longleftrightarrow> row_hash r \<notin> H" using that unfolding db_keys_def obs by auto
    moreover have "row_hash r \<in> db_keys d" using that by (simp add: db_keys_def)
    ultimately show ?thesis using c by blast
  qed
  then have "db_objects ?l = filter (\<lambda>r. row_hash r \<in> ?keep) (db_objects d)" unfolding obs by (auto intro: filter_cong)
  then have l: "sum_file_size ?l = sum_list (map row_file_size (filter (\<lambda>r. row_hash r \<in> ?keep) (db_objects d)))"
    by (simp add: sum_file_size_def)
  have "mset (map brief_file_size doomed) = mset (map row_file_size (filter (\<lambda>r. row_hash r \<notin> ?keep) (db_objects d)))"
    using arg_cong [OF prunable_briefs [OF p], of "image_mset brief_file_size"] by (simp add: multiset.map_comp comp_def)
  then have "sum_list (map brief_file_size doomed) = sum_list (map row_file_size (filter (\<lambda>r. row_hash r \<notin> ?keep) (db_objects d)))"
    by (metis sum_mset_sum_list)
  then have "sum_list (map brief_file_size doomed) = sum_file_size d - sum_file_size ?l"
    using sum_list_filter_split [of row_file_size "db_objects d" "\<lambda>r. row_hash r \<in> ?keep"]
    unfolding l by (simp add: sum_file_size_def)
  moreover have "db_inv ?l"
  proof -
    have "\<forall>c \<in> set (d # cs). db_inv c" using delete_pruned_commits [OF assms] d by simp
    then show ?thesis using last_in_set [of "d # cs"] by blast
  qed
  ultimately show ?thesis using d by (simp add: db_inv_def total_bytes_def)
qed

lemma fold_queue_blob:
  "del_claims (fold (\<lambda>h x. queue_blob x h) hs x) = del_claims x"
  "del_keys (fold (\<lambda>h x. queue_blob x h) hs x) = del_keys x @ map key_for hs"
  by (induction hs arbitrary: x) (simp_all add: queue_blob_def)

text \<open>
  Prune, with nobody else at work. A dry run changes nothing and fails or names exactly as the
  real run does. The real run leaves exactly what a recent push or a live pin reaches, removes
  the blobs of what it removed and no other, reports the bytes the usage counter goes down by,
  keeps closures and the invariant, and gives its claims back; refused (cutoff too recent, a
  claimed path, a reference cycle) it has changed nothing, and when only the blob deletes fail
  the rows are gone all the same.
\<close>

theorem prune_dry_run_predicts:
  assumes inv: "db_inv (w_db w)" and law: "s3_delete_law del present"
    and run: "prune alone clock del before False w = (r, w')"
  shows "w_fl w' = w_fl w \<and> db_inv (w_db w') \<and> closure_kept (w_db w) (w_db w')
    \<and> (case prune alone clock del before True w of
         (Inl e, w1) \<Rightarrow> r = Inl e \<and> w_db w' = w_db w \<and> w_s3 w' = w_s3 w
       | (Inr a, w1) \<Rightarrow> w_db w1 = w_db w \<and> w_s3 w1 = w_s3 w \<and> w_fl w1 = w_fl w \<and>
           (case r of
              Inr a' \<Rightarrow> a' = a
                \<and> db_keys (w_db w') = db_keys (w_db w) \<inter> set (keep (w_db w) before (clock (w_awaits w)))
                \<and> present (w_s3 w') = present (w_s3 w) - key_for ` (db_keys (w_db w) - db_keys (w_db w'))
                \<and> (\<exists>names. a = APrune names (total_bytes (w_db w) - total_bytes (w_db w')))
            | Inl (AdminStorage e) \<Rightarrow>
                db_keys (w_db w') = db_keys (w_db w) \<inter> set (keep (w_db w) before (clock (w_awaits w)))
            | Inl _ \<Rightarrow> w_db w' = w_db w \<and> w_s3 w' = w_s3 w))"
proof -
  let ?d = "w_db w" and ?now = "clock (w_awaits w)"
  have refl: "closure_kept ?d ?d" by (auto simp: closure_kept_def)
  note defs = prune_def prune_rows_def Let_def
  show ?thesis
  proof (cases "prunable ?d before ?now")
    case (Inl e)
    then show ?thesis using run inv refl by (auto simp: defs)
  next
    case doomed: (Inr doomed)
    show ?thesis
    proof (cases rule: claim_all_cases [of "w_fl w" "map brief_hash doomed"])
      case (busy h b)
      then show ?thesis using run inv refl doomed by (auto simp: defs)
    next
      case (granted x fl)
      show ?thesis
      proof (cases "delete_pruned ?d doomed")
        case (Inl e)
        then show ?thesis using run inv refl doomed granted by (auto simp: defs)
      next
        case (Inr cs)
        let ?x = "fold (\<lambda>h x. queue_blob x h) (map brief_hash doomed) x" and ?l = "last (?d # cs)"
        obtain r0 s where del: "delete_objects del (w_s3 w) (del_keys ?x) = (r0, s)" by fastforce
        have w': "w_db w' = ?l" "w_s3 w' = s" "w_fl w' = release_claims ?x fl"
          "r = (case r0 of Inl e \<Rightarrow> Inl (AdminStorage e)
             | Inr _ \<Rightarrow> Inr (APrune (brief_basenames doomed) (sum_list (map brief_file_size doomed))))"
          using run doomed granted Inr del by (auto simp: defs finish_deletion_def simp del: last.simps split: sum.splits)
        have fl: "w_fl w' = w_fl w" using w'(3) granted(4) fold_queue_blob(1) release_claims_cong by metis
        note commits = delete_pruned_commits [OF inv doomed Inr] and bytes = prune_frees_what_it_lists [OF inv doomed Inr]
        have l: "db_inv ?l" "closure_kept ?d ?l"
        proof -
          have "\<forall>c \<in> set (?d # cs). db_inv c \<and> closure_kept ?d c" using commits inv refl by simp
          then show "db_inv ?l" "closure_kept ?d ?l" using last_in_set [of "?d # cs"] by blast+
        qed
        have "db_keys ?d - db_keys ?l = brief_hash ` set doomed"
          using prunable_hashes [OF doomed] commits by blast
        then have "set (del_keys ?x) = key_for ` (db_keys ?d - db_keys ?l)"
          using granted(3) fold_queue_blob(2) [of "map brief_hash doomed" x] by (simp add: image_image)
        then have "r0 = Inr () \<longrightarrow> present s = present (w_s3 w) - key_for ` (db_keys ?d - db_keys ?l)"
          using delete_objects_law [OF law del] by simp
        moreover have "prune alone clock del before True w =
            (Inr (APrune (brief_basenames doomed) (sum_list (map brief_file_size doomed))), w\<lparr>w_awaits := Suc (w_awaits w)\<rparr>)"
          using doomed by (simp add: defs)
        ultimately show ?thesis using w' fl l commits bytes by (cases r0) (auto simp del: last.simps)
      qed
    qed
  qed
qed

theorem prune_dry_run_predicts_witness:
  "\<exists>r w'. prune alone (\<lambda>_. 864000) set_del 200 False (demo_world\<lparr>w_db := prune_demo\<rparr>) = (r, w')
     \<and> w_fl w' = new_in_flight \<and> db_inv (w_db w') \<and> closure_kept prune_demo (w_db w')
     \<and> (\<exists>a w1. prune alone (\<lambda>_. 864000) set_del 200 True (demo_world\<lparr>w_db := prune_demo\<rparr>) = (Inr a, w1))"
proof -
  let ?w = "demo_world\<lparr>w_db := prune_demo\<rparr>"
  have "w_fl ?w = new_in_flight" "db_inv (w_db ?w)" by (simp_all add: demo_world_def db_inv_prune_demo)
  moreover obtain r w' where run: "prune alone (\<lambda>_. 864000) set_del 200 False ?w = (r, w')" by fastforce
  moreover have "s3_delete_law set_del id" by (auto simp: s3_delete_law_def set_del_def real_errors_def)
  moreover have "\<exists>a w1. prune alone (\<lambda>_. 864000) set_del 200 True ?w = (Inr a, w1)"
    using prunable_prune_demo by (simp add: prune_def prune_rows_def)
  ultimately show ?thesis using prune_dry_run_predicts [of ?w set_del id "\<lambda>_. 864000" 200 r w'] by simp
qed

section \<open>Resign\<close>

lemma find_row_update_row:
  assumes "\<And>r. row_hash (f r) = row_hash r"
  shows "find_row (update_row f h d) k = (if k = h then map_option f (find_row d k) else find_row d k)"
proof -
  have "find (\<lambda>r. row_hash r = k) (map (\<lambda>r. if row_hash r = h then f r else r) rs) =
      (if k = h then map_option f (find (\<lambda>r. row_hash r = k) rs) else find (\<lambda>r. row_hash r = k) rs)" for rs
    by (induction rs) (auto simp: assms)
  then show ?thesis by (simp add: find_row_def update_row_def)
qed

lemma refs_of_update_row [simp]: "refs_of (update_row f h d) k = refs_of d k"
  by (simp add: refs_of_def update_row_def)

lemma get_object_update_sigs_other: "k \<noteq> h \<Longrightarrow> get_object dec (update_sigs enc d h sigs) k = get_object dec d k"
  by (simp add: get_object_def get_object_and_last_accessed_def update_sigs_def find_row_update_row split: option.split)

lemma get_object_update_sigs:
  assumes "get_object dec d h = Inr (Some ob)" "dec (enc sigs) = Some sigs"
  shows "get_object dec (update_sigs enc d h sigs) h = Inr (Some (ob\<lparr>obj_sigs := sigs\<rparr>))"
  using assms
  by (auto simp: get_object_def get_object_and_last_accessed_def update_sigs_def find_row_update_row split: option.splits)

lemma get_object_hash: "get_object dec d h = Inr (Some ob) \<Longrightarrow> obj_store_path_hash ob = h"
  by (auto simp: get_object_def get_object_and_last_accessed_def split: option.splits)

definition resigned_object :: "'k crypto \<Rightarrow> string \<Rightarrow> 'k signing_key_file list \<Rightarrow> object \<Rightarrow> object" where
  "resigned_object cr dir keys ob =
     (if verify_sigs cr ob dir keys then ob\<lparr>obj_sigs := projr (sign cr ob dir keys)\<rparr> else ob)"

definition refused_hash :: "(string \<Rightarrow> string list option) \<Rightarrow> 'k crypto \<Rightarrow> string \<Rightarrow> 'k signing_key_file list \<Rightarrow> database \<Rightarrow> hash \<Rightarrow> bool" where
  "refused_hash dec cr dir keys d h \<longleftrightarrow> (\<exists>ob. get_object dec d h = Inr (Some ob) \<and> \<not> verify_sigs cr ob dir keys)"

lemma refused_hash_cong:
  "(\<And>h. h \<in> set hs \<Longrightarrow> get_object dec d h = get_object dec d' h) \<Longrightarrow>
   filter (refused_hash dec cr dir keys d) hs = filter (refused_hash dec cr dir keys d') hs"
  by (intro filter_cong) (simp_all add: refused_hash_def)

lemma read_objects_cong:
  "(\<And>h. h \<in> set hs \<Longrightarrow> get_object dec d h = get_object dec d' h) \<Longrightarrow> read_objects dec d hs = read_objects dec d' hs"
  by (induction hs) (auto split: sum.splits option.splits)

lemma resign_chunk:
  assumes codec: "\<And>ss. dec (enc ss) = Some ss" and "distinct hs"
    and "read_objects dec d hs = Inr obs" "resign_updates cr dir keys obs = Inr (n, us)"
  shows "(\<forall>k. k \<notin> set hs \<longrightarrow> get_object dec (apply_updates enc us d) k = get_object dec d k)
    \<and> (\<forall>h \<in> set hs. \<forall>ob. get_object dec d h = Inr (Some ob) \<longrightarrow>
         get_object dec (apply_updates enc us d) h = Inr (Some (resigned_object cr dir keys ob)))
    \<and> n = length (filter (refused_hash dec cr dir keys d) hs)"
  using assms(2-4)
proof (induction hs arbitrary: d obs n us)
  case Nil
  then show ?case by (simp add: apply_updates_def)
next
  case (Cons h hs)
  have h: "h \<notin> set hs" "distinct hs" using Cons.prems(1) by simp_all
  consider (gone) "get_object dec d h = Inr None" "read_objects dec d hs = Inr obs"
    | (row) ob obs' where "get_object dec d h = Inr (Some ob)" "read_objects dec d hs = Inr obs'" "obs = ob # obs'"
    using Cons.prems(2) by (auto split: sum.splits option.splits)
  then show ?case
  proof cases
    case gone
    have "\<not> refused_hash dec cr dir keys d h" using gone by (simp add: refused_hash_def)
    then show ?thesis using Cons.IH [OF h(2) gone(2) Cons.prems(3)] gone by auto
  next
    case row
    show ?thesis
    proof (cases "verify_sigs cr ob dir keys")
      case False
      then obtain m where m: "resign_updates cr dir keys obs' = Inr (m, us)" "n = Suc m"
        using Cons.prems(3) row(3) by auto
      have "refused_hash dec cr dir keys d h" using False row by (simp add: refused_hash_def)
      then show ?thesis using Cons.IH [OF h(2) row(2) m(1)] m(2) row(1) False h(1) by (auto simp: resigned_object_def)
    next
      case True
      obtain sigs us' where sg: "sign cr ob dir keys = Inr sigs" "resign_updates cr dir keys obs' = Inr (n, us')"
          "us = (if sigs \<noteq> obj_sigs ob then (h, sigs) # us' else us')"
        using Cons.prems(3) row(3) True get_object_hash [OF row(1)] by (auto split: sum.splits)
      have nr: "\<not> refused_hash dec cr dir keys d h" using True row(1) by (simp add: refused_hash_def)
      have ro: "resigned_object cr dir keys ob = ob\<lparr>obj_sigs := sigs\<rparr>" using True sg(1) by (simp add: resigned_object_def)
      show ?thesis
      proof (cases "sigs = obj_sigs ob")
        case same: True
        then show ?thesis using Cons.IH [OF h(2) row(2) sg(2)] sg(3) row(1) ro nr h(1) by auto
      next
        case False
        let ?d = "update_sigs enc d h sigs"
        have oth: "get_object dec ?d k = get_object dec d k" if "k \<noteq> h" for k
          using get_object_update_sigs_other that by metis
        have oth': "get_object dec ?d k = get_object dec d k" if "k \<in> set hs" for k
          using oth that h(1) by metis
        have "read_objects dec ?d hs = read_objects dec d hs"
          by (rule read_objects_cong) (use oth h(1) in metis)
        then have "read_objects dec ?d hs = Inr obs'" using row(2) by simp
        note ih = Cons.IH [OF h(2) this sg(2)]
        have upd: "apply_updates enc us d = apply_updates enc us' ?d" using False sg(3) by (simp add: apply_updates_def)
        have "filter (refused_hash dec cr dir keys ?d) hs = filter (refused_hash dec cr dir keys d) hs"
          by (rule refused_hash_cong) (use oth h(1) in metis)
        then show ?thesis
          using ih upd oth oth' h(1) nr ro row(1) get_object_update_sigs [where enc = enc and sigs = sigs, OF row(1) codec] by auto
      qed
    qed
  qed
qed

lemma resign_chunks_alone:
  assumes codec: "\<And>ss. cd_dec cd (cd_enc cd ss) = Some ss" and "distinct (concat cs)"
    and "resign_chunks alone cd cr dir keys cs a b w = (Inr (a', b'), w')"
  shows "(\<forall>k. k \<notin> set (concat cs) \<longrightarrow> get_object (cd_dec cd) (w_db w') k = get_object (cd_dec cd) (w_db w) k)
    \<and> (\<forall>h \<in> set (concat cs). \<forall>ob. get_object (cd_dec cd) (w_db w) h = Inr (Some ob) \<longrightarrow>
         get_object (cd_dec cd) (w_db w') h = Inr (Some (resigned_object cr dir keys ob)))
    \<and> b' = b + length (filter (refused_hash (cd_dec cd) cr dir keys (w_db w)) (concat cs))"
  using assms(2-3)
proof (induction cs arbitrary: a b w)
  case (Cons c cs)
  obtain obs n us where c: "read_objects (cd_dec cd) (w_db w) c = Inr obs" "resign_updates cr dir keys obs = Inr (n, us)"
    and run: "resign_chunks alone cd cr dir keys cs (a + length us) (b + n)
       (w\<lparr>w_awaits := Suc (Suc (w_awaits w)), w_db := apply_updates (cd_enc cd) us (w_db w)\<rparr>) = (Inr (a', b'), w')"
    using Cons.prems(2) by (auto simp: Let_def split: sum.splits prod.splits)
  have dist: "distinct c" "distinct (concat cs)" "set c \<inter> set (concat cs) = {}" using Cons.prems(1) by auto
  note chunk = resign_chunk [OF codec dist(1) c]
  note ih = Cons.IH [OF dist(2) run]
  let ?d1 = "apply_updates (cd_enc cd) us (w_db w)"
  have oth: "get_object (cd_dec cd) ?d1 k = get_object (cd_dec cd) (w_db w) k" if "k \<notin> set c" for k
    using chunk [THEN conjunct1] that by blast
  have "filter (refused_hash (cd_dec cd) cr dir keys ?d1) (concat cs) =
      filter (refused_hash (cd_dec cd) cr dir keys (w_db w)) (concat cs)"
    by (rule refused_hash_cong) (use oth dist(3) in blast)
  then have num: "b' = b + length (filter (refused_hash (cd_dec cd) cr dir keys (w_db w)) (concat (c # cs)))"
    using ih chunk by simp
  have frame: "get_object (cd_dec cd) (w_db w') k = get_object (cd_dec cd) ?d1 k" if "k \<notin> set (concat cs)" for k
    using ih [THEN conjunct1] that by simp
  have signed_later: "get_object (cd_dec cd) (w_db w') h = Inr (Some (resigned_object cr dir keys ob))"
    if "h \<in> set (concat cs)" "get_object (cd_dec cd) ?d1 h = Inr (Some ob)" for h ob
    using ih [THEN conjunct2, THEN conjunct1, rule_format, OF that(1)] that(2) by simp
  have signed_now: "get_object (cd_dec cd) ?d1 h = Inr (Some (resigned_object cr dir keys ob))"
    if "h \<in> set c" "get_object (cd_dec cd) (w_db w) h = Inr (Some ob)" for h ob
    using chunk [THEN conjunct2, THEN conjunct1] that by blast
  have "get_object (cd_dec cd) (w_db w') h = Inr (Some (resigned_object cr dir keys ob))"
    if "h \<in> set (concat (c # cs))" "get_object (cd_dec cd) (w_db w) h = Inr (Some ob)" for h ob
  proof (cases "h \<in> set c")
    case True
    then have "h \<notin> set (concat cs)" using dist(3) by blast
    then show ?thesis using signed_now [OF True that(2)] frame by simp
  next
    case False
    then show ?thesis using that oth signed_later by simp
  qed
  then show ?case using num frame oth by simp
qed simp

text \<open>
  C37. Re-signing after a key rotation, with nobody else at work: an object one of whose
  signatures verifies under a configured key gets the signatures of all configured keys; an
  object without one (whose row may have been altered) keeps its row as it is and is counted as
  refused. No other field of any object changes.
\<close>

theorem resign_only_verified:
  assumes "\<And>ss. cd_dec cd (cd_enc cd ss) = Some ss" and "db_inv (w_db w)"
    and "resign alone cd cr dir keys w = (Inr (AResign resigned refused), w')"
  shows "(\<forall>h ob. get_object (cd_dec cd) (w_db w) h = Inr (Some ob) \<longrightarrow>
       get_object (cd_dec cd) (w_db w') h =
         Inr (Some (if verify_sigs cr ob dir keys then ob\<lparr>obj_sigs := projr (sign cr ob dir keys)\<rparr> else ob)))
    \<and> refused = length (filter (\<lambda>h. \<exists>ob. get_object (cd_dec cd) (w_db w) h = Inr (Some ob) \<and> \<not> verify_sigs cr ob dir keys)
        (all_hashes (w_db w)))"
proof -
  let ?hs = "all_hashes (w_db w)"
  have cc: "concat (chunks RESIGN_CHUNK ?hs) = ?hs" by (simp add: RESIGN_CHUNK_def)
  have dist: "distinct (concat (chunks RESIGN_CHUNK ?hs))"
    unfolding cc using assms(2) by (simp add: all_hashes_def db_inv_def)
  obtain a where "resign_chunks alone cd cr dir keys (chunks RESIGN_CHUNK ?hs) 0 0 (w\<lparr>w_awaits := Suc (w_awaits w)\<rparr>) = (Inr (a, refused), w')"
    using assms(3) by (auto simp: resign_def Let_def split: sum.splits prod.splits)
  note res = resign_chunks_alone [OF assms(1) dist this, unfolded cc]
  have "h \<in> set ?hs" if "get_object (cd_dec cd) (w_db w) h = Inr (Some ob)" for h ob
    using that by (auto simp: get_object_def get_object_and_last_accessed_def set_all_hashes db_keys_def split: option.splits dest: find_row_SomeD)
  moreover have "refused_hash (cd_dec cd) cr dir keys (w_db w) = (\<lambda>h. \<exists>ob. get_object (cd_dec cd) (w_db w) h = Inr (Some ob) \<and> \<not> verify_sigs cr ob dir keys)"
    by (simp add: refused_hash_def fun_eq_iff)
  ultimately show ?thesis using res by (auto simp: resigned_object_def)
qed

text \<open>An object whose only signature no configured key made.\<close>

definition demo_codec :: codec where
  "demo_codec = \<lparr>cd_enc = demo_enc, cd_dec = demo_dec\<rparr>"

theorem resign_only_verified_witness:
  "\<exists>w'. resign alone demo_codec demo_crypto ''/nix/store'' [\<lparr>sk_name = ''k'', sk_key = [1]\<rparr>] demo_world = (Inr (AResign 0 1), w')
     \<and> get_object demo_dec (w_db w') (rep_hash CHR ''d'') = Inr (Some (fixture_object (rep_hash CHR ''d'')))"
proof -
  let ?h = "rep_hash CHR ''d''" and ?k = "\<lparr>sk_name = ''k'', sk_key = [1]\<rparr> :: bytes signing_key_file"
  have codec: "cd_dec demo_codec (cd_enc demo_codec ss) = Some ss" for ss by (simp add: demo_codec_def demo_dec_enc)
  have inv: "db_inv (w_db demo_world)" by (simp add: demo_world_def db_inv_one_object)
  have row: "get_object demo_dec (one_object_db ?h 100) ?h = Inr (Some (fixture_object ?h))"
    using demo_dec_enc [of "[]"]
    by (simp add: get_object_def get_object_and_last_accessed_def one_object_db_def find_row_def row_of_object_def
        refs_of_def fixture_object_def)
  have no: "\<not> verify_sigs demo_crypto (fixture_object ?h) ''/nix/store'' [?k]" by (simp add: verify_sigs_def)
  have "all_hashes (one_object_db ?h 100) = [?h]" by (simp add: all_hashes_def one_object_db_def)
  then obtain w' where run: "resign alone demo_codec demo_crypto ''/nix/store'' [?k] demo_world = (Inr (AResign 0 1), w')"
    using row no by (simp add: resign_def Let_def demo_world_def chunks.simps RESIGN_CHUNK_def demo_codec_def apply_updates_def)
  from resign_only_verified [OF codec inv run] row no run show ?thesis by (auto simp: demo_world_def demo_codec_def)
qed

text \<open>
  Between a chunk's reads and its writes the connection is free. A row deleted and pushed again
  with other contents in that window gets signatures over the old contents: the row's new,
  valid signatures are overwritten.
\<close>

lemma resign_overwrites_repushed_row:
  assumes codec: "\<And>ss. cd_dec cd (cd_enc cd ss) = Some ss"
    and old: "read_objects (cd_dec cd) (w_db (await env w)) [h] = Inr [ob]" "verify_sigs cr ob dir keys" "sign cr ob dir keys = Inr sigs" "sigs \<noteq> obj_sigs ob"
    and hash: "obj_store_path_hash ob = h"
    and new: "get_object (cd_dec cd) (w_db (await env (await env w))) h = Inr (Some ob')"
    and run: "resign_chunks env cd cr dir keys [[h]] 0 0 w = (r, w')"
  shows "r = Inr (1, 0) \<and> get_object (cd_dec cd) (w_db w') h = Inr (Some (ob'\<lparr>obj_sigs := sigs\<rparr>))"
proof -
  have "apply_updates (cd_enc cd) [(h, sigs)] d = update_sigs (cd_enc cd) d h sigs" for d by (simp add: apply_updates_def)
  then show ?thesis
    using run old hash get_object_update_sigs [where enc = "cd_enc cd" and sigs = sigs, OF new codec] by (auto simp: Let_def)
qed


section \<open>Whatever the others do\<close>

text \<open>
  What keeps a property of the database under any admin command, however the others interleave:
  that each transaction a command runs does.
\<close>

locale kept_by_admin = kept_by_gc +
  assumes delete_keeps: "Q d \<Longrightarrow> Q (snd (delete_object d h))"
    and pin_keeps: "Q d \<Longrightarrow> pin_object d name h e now = Inr d' \<Longrightarrow> Q d'"
    and unpin_keeps: "Q d \<Longrightarrow> Q (snd (unpin d name))"
    and sigs_keep: "Q d \<Longrightarrow> Q (update_sigs enc d h sigs)"
    and prune_keeps: "Q d \<Longrightarrow> prunable d before now = Inr doomed \<Longrightarrow> delete_pruned d doomed = Inr cs \<Longrightarrow> Q (last (d # cs))"
begin

lemma delete_each_keeps:
  assumes env: "env_keeps Q env"
  shows "Q (w_db w) \<Longrightarrow> delete_each env dry hs x dl w = (x', dl', w') \<Longrightarrow> Q (w_db w')"
proof (induction hs arbitrary: x dl w)
  case (Cons h hs)
  let ?w1 = "await env w"
  let ?d = "if dry then w_db ?w1 else snd (delete_object (w_db ?w1) h)"
  have q: "Q ?d" using delete_keeps env_keeps_await [OF env Cons.prems(1)] by simp
  obtain x1 dl1 where "delete_each env dry hs x1 dl1 (?w1\<lparr>w_db := ?d\<rparr>) = (x', dl', w')"
    using Cons.prems(2) by (cases dry) (auto simp: Let_def split: option.splits prod.splits)
  from Cons.IH [OF _ this] q show ?case by simp
qed simp

lemma delete_hashes_keeps:
  assumes "env_keeps Q env" "Q (w_db w)" "delete_hashes env del hs dry w = (r, w')"
  shows "Q (w_db w')"
proof (cases dry)
  case True
  then show ?thesis using assms(3) delete_each_keeps [OF assms(1,2)]
    by (auto simp: delete_hashes_def Let_def split: prod.splits)
next
  case False
  have "Q (w_db (await env w1))"
    if "delete_each env False (first_seen [] hs) x dl (w\<lparr>w_fl := fl\<rparr>) = (x1, dl1, w1)" for x dl fl x1 dl1 w1
    using delete_each_keeps [OF assms(1) _ that] assms(2) env_keeps_await [OF assms(1)] by simp
  then show ?thesis using assms(2,3) False
    by (auto simp: delete_hashes_def Let_def split: prod.splits sum.splits)
qed

lemma delete_pushed_by_keeps:
  assumes "env_keeps Q env" "Q (w_db w)" "delete_pushed_by env del subject since dry w = (r, w')"
  shows "Q (w_db w')"
  using assms(3) delete_hashes_keeps [OF assms(1)] env_keeps_await [OF assms(1,2)]
  by (auto simp: delete_pushed_by_def delete_listed_def Let_def split: if_splits prod.splits sum.splits)

lemma prune_rows_keeps: "Q (w_db w) \<Longrightarrow> prune_rows before now dry w = (r, w') \<Longrightarrow> Q (w_db w')"
  using prune_keeps
  by (auto simp: prune_rows_def Let_def simp del: last.simps split: sum.splits if_splits prod.splits)

lemma prune_command_keeps:
  assumes env: "env_keeps Q env" "Q (w_db w)" and run: "prune env clock del before dry w = (r, w')"
  shows "Q (w_db w')"
proof -
  obtain r1 w1 where rows: "prune_rows before (clock (w_awaits w)) dry (await env w) = (r1, w1)" by fastforce
  have w1: "Q (w_db w1)" using prune_rows_keeps [OF env_keeps_await [OF env] rows] .
  then show ?thesis using run rows env_keeps_await [OF env(1) w1]
    by (auto simp: prune_def Let_def split: sum.splits prod.splits option.splits)
qed

lemma apply_updates_keeps: "Q d \<Longrightarrow> Q (apply_updates enc us d)"
  unfolding apply_updates_def by (induction us arbitrary: d) (auto intro: sigs_keep)

lemma resign_chunks_keeps:
  assumes env: "env_keeps Q env"
  shows "Q (w_db w) \<Longrightarrow> resign_chunks env cd cr dir keys cs a b w = (r, w') \<Longrightarrow> Q (w_db w')"
proof (induction cs arbitrary: a b w)
  case (Cons c cs)
  have q: "Q (w_db (await env w))" "Q (w_db (await env (await env w)))"
    using env_keeps_await [OF env] Cons.prems(1) by blast+
  have "Q (w_db w')"
    if "resign_chunks env cd cr dir keys cs m k ((await env (await env w))\<lparr>w_db := apply_updates enc us (w_db (await env (await env w)))\<rparr>) = (r, w')"
    for m k enc us
    using Cons.IH [OF _ that] apply_updates_keeps [OF q(2)] by simp
  then show ?case using Cons.prems(2) q(1) by (auto simp: Let_def split: sum.splits prod.splits)
qed simp

lemma resign_keeps:
  assumes "env_keeps Q env" "Q (w_db w)" "resign env cd cr dir keys w = (r, w')"
  shows "Q (w_db w')"
  using assms(3) resign_chunks_keeps [OF assms(1) env_keeps_await [OF assms(1,2)]]
  by (auto simp: resign_def Let_def split: sum.splits prod.splits)

lemma repair_row_keeps: "Q d \<Longrightarrow> Q (snd (repair_row d f))"
  using delete_keeps [of d "fd_hash f"] by (auto simp: repair_row_def split: prod.splits)

lemma apply_repair_keeps:
  assumes env: "env_keeps Q env"
  shows "Q (w_db w) \<Longrightarrow> apply_repair env fs w = (n, w') \<Longrightarrow> Q (w_db w')"
proof (induction fs arbitrary: w n)
  case (Cons f fs)
  let ?w1 = "await env w"
  have "Q (snd (repair_row (w_db ?w1) f))" by (rule repair_row_keeps [OF env_keeps_await [OF env Cons.prems(1)]])
  moreover obtain m where "apply_repair env fs (?w1\<lparr>w_db := snd (repair_row (w_db ?w1) f)\<rparr>) = (m, w')"
    using Cons.prems(2) by (auto simp: Let_def split: prod.splits)
  ultimately show ?case using Cons.IH [of "?w1\<lparr>w_db := snd (repair_row (w_db ?w1) f)\<rparr>" m] by simp
qed simp

lemma drain_wait_keeps:
  assumes env: "env_keeps Q env"
  shows "Q (w_db w) \<Longrightarrow> drain_wait env n w = (b, w') \<Longrightarrow> Q (w_db w')"
proof (induction n arbitrary: w)
  case (Suc n)
  then show ?case using env_keeps_await [OF env]
    by (auto simp: drain_wait.simps [of _ "Suc n"] split: if_splits)
qed (auto simp: drain_wait.simps [of _ 0] split: if_splits)

lemma fsck_pass_keeps:
  assumes env: "env_keeps Q env" and w: "Q (w_db w)"
    and run: "fsck_pass env clock s3 grace vs repair drained w = Some (x, w')"
  shows "Q (w_db w')"
proof -
  note aw = env_keeps_await [OF env]
  have w3: "Q (w_db (await env w))" "Q (w_db (await env (await env (await env w))))" using w aw by blast+
  then show ?thesis using run apply_repair_keeps [OF env w3(2)]
    by (auto simp: fsck_pass_def Let_def split: option.splits sum.splits prod.splits if_splits)
qed

lemma fsck_run_keeps:
  assumes env: "env_keeps Q env" and w: "Q (w_db w)"
    and run: "fsck_run env clock s3 grace wakes vs repair w = Some (x, w')"
  shows "Q (w_db w')"
proof (cases "repair = RepairQuiesced")
  case True
  obtain b w1 where dw: "drain_wait env wakes (w\<lparr>w_fl := quiesce (w_fl w)\<rparr>) = (b, w1)" by fastforce
  have "Q (w_db w1)" using drain_wait_keeps [OF env _ dw] w by simp
  then show ?thesis using run True dw fsck_pass_keeps [OF env] by (auto simp: fsck_run_def)
next
  case False
  then show ?thesis using run fsck_pass_keeps [OF env w] by (simp add: fsck_run_def)
qed

lemma dispatch_keeps:
  assumes env: "env_keeps Q env" and w: "Q (w_db w)" and run: "dispatch env clock st rq w = Some (a, w')"
  shows "Q (w_db w')"
proof -
  note aw = env_keeps_await [OF env w]
  show ?thesis
  proof (cases rq)
    case RStatus
    then show ?thesis using run aw by (auto simp: dispatch_def status_of_def Let_def)
  next
    case RGcRun
    then show ?thesis using run w evict_keeps_env [OF env w]
      by (auto simp: dispatch_def answered_def split: option.splits)
  next
    case RResign
    then show ?thesis using run resign_keeps [OF env w surjective_pairing] by (auto simp: dispatch_def answered_def)
  next
    case (RDelete hs dry)
    then show ?thesis using run delete_hashes_keeps [OF env w]
      by (auto simp: dispatch_def answered_def split: prod.splits)
  next
    case (RPin name h e)
    then show ?thesis using run aw pin_keeps [OF aw]
      by (auto simp: dispatch_def Let_def split: sum.splits)
  next
    case (RUnpin name)
    then show ?thesis using run unpin_keeps [OF aw, of name]
      by (auto simp: dispatch_def Let_def split: prod.splits)
  next
    case (RFsck vs rep)
    then show ?thesis using run w fsck_run_keeps [OF env w]
      by (auto simp: dispatch_def answered_def split: option.splits)
  next
    case (RPrune before dry)
    then show ?thesis using run prune_command_keeps [OF env w surjective_pairing] by (auto simp: dispatch_def answered_def)
  next
    case (RDeletePushedBy subject since dry)
    then show ?thesis using run delete_pushed_by_keeps [OF env w surjective_pairing] by (auto simp: dispatch_def answered_def)
  next
    case (RBackup path)
    then show ?thesis using run aw by (auto simp: dispatch_def answered_def)
  qed
qed

end

interpretation admin_inv: kept_by_admin db_inv
proof unfold_locales
  fix d before now doomed cs
  assume d: "db_inv d" and "prunable d before now = Inr doomed" "delete_pruned d doomed = Inr cs"
  then have "\<forall>c \<in> set (d # cs). db_inv c" using delete_pruned_commits by auto
  then show "db_inv (last (d # cs))" by (meson last_in_set list.discI)
qed (auto intro: inv_rules)

lemma db_keys_prune_batch: "db_keys (prune_batch doomed d batch) \<subseteq> db_keys d"
proof -
  have "db_keys (fold (\<lambda>i d. delete_row d (brief_hash (doomed ! i))) batch d) \<subseteq> db_keys d"
    by (induction batch arbitrary: d) force+
  then show ?thesis by (simp add: prune_batch_def debit_def db_keys_def)
qed

lemma db_keys_prune_commits: "db_keys (last (d # prune_commits doomed d bs)) \<subseteq> db_keys d"
proof (induction bs arbitrary: d)
  case (Cons b bs)
  then show ?case using db_keys_prune_batch [of doomed d b] by (fastforce simp: Let_def)
qed simp

interpretation admin_keys: kept_by_admin "\<lambda>d. db_keys d \<subseteq> K" for K
proof unfold_locales
  fix d before now doomed cs
  assume "db_keys d \<subseteq> K" "delete_pruned d doomed = Inr cs"
  then show "db_keys (last (d # cs)) \<subseteq> K"
    using db_keys_prune_commits [of d doomed] by (auto simp: delete_pruned_def simp del: last.simps split: sum.splits)
next
  fix d name h e now d'
  assume "db_keys d \<subseteq> K" "pin_object d name h e now = Inr d'"
  then show "db_keys d' \<subseteq> K" by (auto simp: pin_object_def db_keys_def split: if_splits)
next
  fix d h assume "db_keys d \<subseteq> K"
  then show "db_keys (snd (delete_object d h)) \<subseteq> K" by auto
qed (auto simp: unpin_def db_keys_def update_sigs_def update_row_def split: if_splits)

text \<open>
  C26. However other tasks interleave with an admin command (GC pass, delete, prune, re-sign, pin,
  fsck with or without repair), as long as each of them keeps the database's invariant the
  command keeps it, and no command ever creates a row: if the others add rows only among \<open>K\<close>, all
  rows at the end are among \<open>K\<close>.
\<close>

theorem dispatch_keeps_invariant:
  assumes "env_keeps db_inv env" and "env_keeps (\<lambda>d. db_keys d \<subseteq> K) env"
    and "db_inv (w_db w)" and "db_keys (w_db w) \<subseteq> K" and "dispatch env clock st rq w = Some (a, w')"
  shows "db_inv (w_db w') \<and> total_bytes (w_db w') = sum_file_size (w_db w') \<and> db_keys (w_db w') \<subseteq> K"
  using admin_inv.dispatch_keeps [OF assms(1,3,5)] admin_keys.dispatch_keeps [OF assms(2,4,5)]
  by (simp add: db_inv_def total_bytes_def)


theorem dispatch_keeps_invariant_witness:
  "\<exists>a w'. dispatch (\<lambda>k w. w\<lparr>w_db := snd (delete_object (w_db w) (rep_hash CHR ''z''))\<rparr>) (\<lambda>_. 0)
       \<lparr>ad_codec = demo_codec, ad_crypto = demo_crypto, ad_keys = [], ad_store_dir = ''/nix/store'', ad_s3 = demo_admin,
        ad_gc = None, ad_backup = (\<lambda>_. None), ad_wakes = 0\<rparr>
       (RUnpin ''p'') demo_world = Some (a, w') \<and> db_inv (w_db w') \<and> db_keys (w_db w') \<subseteq> {rep_hash CHR ''d''}"
proof -
  let ?env = "\<lambda>(k :: nat) (w :: string set world). w\<lparr>w_db := snd (delete_object (w_db w) (rep_hash CHR ''z''))\<rparr>"
  have env: "env_keeps db_inv ?env" "env_keeps (\<lambda>d. db_keys d \<subseteq> {rep_hash CHR ''d''}) ?env"
    by (auto simp: env_keeps_def intro: inv_rules)
  have w: "db_inv (w_db demo_world)" "db_keys (w_db demo_world) \<subseteq> {rep_hash CHR ''d''}"
    by (simp_all add: demo_world_def db_inv_one_object) (simp add: one_object_db_def db_keys_def)
  show ?thesis
    using dispatch_keeps_invariant [OF env w, where rq = "RUnpin ''p''"]
    by (fastforce simp: dispatch_def Let_def split: prod.splits)
qed

end
