(* ===== verification/Protocol_Tasks.thy ===== *)
theory Protocol_Tasks
  imports Protocol Admin_Laws
begin

text \<open>
  The Pusher's tasks follow the protocol: an upload, a negotiation, an eviction pass, the orphan
  sweep and every admin command, each run among others that follow it too.
\<close>

section \<open>Deletions\<close>

text \<open>The phases a task holds through a deletion: the queued paths have lost their rows.\<close>

definition owned :: "(hash \<rightharpoonup> phase) \<Rightarrow> deletion \<Rightarrow> hash \<rightharpoonup> phase" where
  "owned M x = (\<lambda>h. if key_for h \<in> set (del_keys x) then Some DelRowGone
                    else if h \<in> set (del_claims x) then Some DelClaimed else M h)"

definition fresh :: "(hash \<rightharpoonup> phase) \<Rightarrow> deletion \<Rightarrow> bool" where
  "fresh M x \<longleftrightarrow> (\<forall>h \<in> set (del_claims x). M h = None) \<and> set (del_keys x) \<subseteq> key_for ` set (del_claims x)"

lemma owned_none [simp]: "owned M no_deletion = M" "fresh M no_deletion"
  by (simp_all add: owned_def fresh_def no_deletion_def)

lemma owned_hold: "owned M (hold x h) = (owned M x)(h \<mapsto> DelRowGone)"
  by (auto simp: owned_def hold_def queue_blob_def fun_eq_iff)

lemma fresh_hold: "fresh M x \<Longrightarrow> owned M x h = None \<Longrightarrow> fresh M (hold x h)"
  by (auto simp: owned_def fresh_def hold_def queue_blob_def split: if_splits)

lemma owned_queue: "owned M (queue_blob x h) = (owned M x)(h \<mapsto> DelRowGone)"
  by (auto simp: owned_def queue_blob_def fun_eq_iff)

lemma fresh_queue: "fresh M x \<Longrightarrow> h \<in> set (del_claims x) \<Longrightarrow> fresh M (queue_blob x h)"
  by (auto simp: fresh_def queue_blob_def)

lemma owned_claimed: "fresh M x \<Longrightarrow> h \<in> set (del_claims x) \<Longrightarrow> \<exists>ph. owned M x h = Some ph \<and> kind_of ph = Delete"
  by (auto simp: owned_def)

lemma follows_finish:
  assumes law: "s3_delete_law del present" and "fresh M x"
    and fin: "finish_deletion del x (w_fl w) (w_s3 w) = (r, fl, s)"
  shows "follows present (owned M x) w M (w\<lparr>w_fl := fl, w_s3 := s\<rparr>)"
proof -
  have fl: "fl = release_claims x (w_fl w)" and del: "delete_objects del (w_s3 w) (del_keys x) = (r, s)"
    using fin by (simp_all add: finish_deletion_eq)
  have "follows present (owned M x) w (owned M x) (w\<lparr>w_s3 := s\<rparr>)"
  proof (rule follows_blobs_gone [where keys = "del_keys x"])
    show "owned M x h = Some DelRowGone" if "key_for h \<in> set (del_keys x)" for h using that by (simp add: owned_def)
  qed (use delete_objects_law [OF law del] in auto)
  also have "follows present (owned M x) (w\<lparr>w_s3 := s\<rparr>)
      (\<lambda>h. if h \<in> set (del_claims x) then None else owned M x h) (w\<lparr>w_s3 := s, w_fl := fl\<rparr>)"
  proof (rule follows_release)
    show "set (del_claims x) \<subseteq> dom (owned M x)" by (auto simp: owned_def)
    show "claims fl = (\<lambda>h. if h \<in> set (del_claims x) then None else claims (w_fl (w\<lparr>w_s3 := s\<rparr>)) h)"
      by (auto simp: fl release_claims_def drop_claims_claims fun_eq_iff)
  qed
  also have "(\<lambda>h. if h \<in> set (del_claims x) then None else owned M x h) = M"
    using assms(2) by (auto simp: owned_def fresh_def fun_eq_iff)
  also have "w\<lparr>w_s3 := s, w_fl := fl\<rparr> = w\<lparr>w_fl := fl, w_s3 := s\<rparr>" by simp
  finally show ?thesis .
qed

lemma claims_drop_claim: "claims (drop_claim fl h) = (\<lambda>k. if k \<in> set [h] then None else claims fl k)"
  by (auto simp: drop_claim_def)

text \<open>A claim taken and given back, and one under which the row goes.\<close>

lemma follows_drop:
  assumes "M h = None" "N = M(h \<mapsto> ph)"
  shows "follows present N w M (w\<lparr>w_fl := drop_claim (w_fl w) h\<rparr>)"
proof -
  have "follows present N w (\<lambda>k. if k \<in> set [h] then None else N k) (w\<lparr>w_fl := drop_claim (w_fl w) h\<rparr>)"
    by (rule follows_release) (use assms in \<open>auto simp: claims_drop_claim\<close>)
  moreover have "(\<lambda>k. if k \<in> set [h] then None else N k) = M" using assms by (auto simp: fun_eq_iff)
  ultimately show ?thesis by simp
qed

lemma follows_row_gone:
  assumes "M h = Some ph" "kind_of ph = Delete" and "db_inv (w_db w) \<Longrightarrow> db_inv d \<and> db_keys d = db_keys (w_db w) - {h}"
  shows "follows present M w (M(h \<mapsto> DelRowGone)) (w\<lparr>w_db := d\<rparr>)"
proof -
  have "follows present M w (\<lambda>k. if k \<in> set [h] then Some DelRowGone else M k) (w\<lparr>w_db := d\<rparr>)"
    by (rule follows_rows_gone) (use assms in auto)
  moreover have "(\<lambda>k. if k \<in> set [h] then Some DelRowGone else M k) = M(h \<mapsto> DelRowGone)" by (auto simp: fun_eq_iff)
  ultimately show ?thesis by simp
qed

lemma follows_claim_delete:
  "claim_delete (w_fl w) h = Inr fl \<Longrightarrow> follows present M w (M(h \<mapsto> DelClaimed)) (w\<lparr>w_fl := fl\<rparr>)"
  by (rule follows_take) (auto simp: claim_delete_Inr)

section \<open>The eviction pass\<close>

lemma evict_batch_follows:
  assumes env: "participant present env"
  shows "live (owned M (bs_deletion b)) w \<Longrightarrow> fresh M (bs_deletion b) \<Longrightarrow> evict_batch env at low hs b w = (b', w') \<Longrightarrow>
    follows present (owned M (bs_deletion b)) w (owned M (bs_deletion b')) w' \<and> fresh M (bs_deletion b')"
proof (induction hs arbitrary: b w)
  case (Cons h hs)
  let ?x = "bs_deletion b"
  show ?case
  proof (cases "claim_delete (w_fl w) h")
    case (Inl e)
    then show ?thesis using Cons by simp
  next
    case (Inr fl)
    let ?w1 = "await env (w\<lparr>w_fl := fl\<rparr>)" and ?N = "(owned M ?x)(h \<mapsto> DelClaimed)"
    have none: "owned M ?x h = None" using liveD(2) [OF Cons.prems(1)] Inr by (simp add: claim_delete_Inr)
    have to1: "follows present (owned M ?x) w ?N ?w1"
      using follows_trans [OF follows_claim_delete [OF Inr] follows_await [OF env]] .
    obtain e d where ev: "evict_object (w_db ?w1) h at = (e, d)" by fastforce
    show ?thesis
    proof (cases e)
      case None
      let ?w2 = "?w1\<lparr>w_db := d, w_fl := drop_claim (w_fl ?w1) h\<rparr>"
      have "d = w_db ?w1" using ev None by (auto simp: evict_object_def split: option.splits)
      then have "follows present ?N ?w1 (owned M ?x) ?w2" using follows_drop [where h = h and N = ?N and M = "owned M ?x" and w = ?w1, OF none refl] by simp
      then have to2: "follows present (owned M ?x) w (owned M ?x) ?w2" using to1 follows_trans by blast
      have "evict_batch env at low hs (b\<lparr>bs_settled := True\<rparr>) ?w2 = (b', w')" using Cons.prems(3) Inr ev None by (simp add: Let_def)
      from Cons.IH [OF _ _ this] Cons.prems(2) follows_live [OF to2 Cons.prems(1)] follows_trans [OF to2]
      show ?thesis by simp
    next
      case (Some freed)
      let ?w2 = "?w1\<lparr>w_db := d\<rparr>" and ?b = "count_freed h freed b"
      have "follows present ?N ?w1 (?N(h \<mapsto> DelRowGone)) ?w2"
        by (rule follows_row_gone) (use ev Some db_inv_evict_object [of "w_db ?w1" h at] in
          \<open>auto simp: evict_object_def split: option.splits\<close>)
      then have to2: "follows present (owned M ?x) w (owned M (bs_deletion ?b)) ?w2"
        using follows_trans [OF to1] by (simp add: count_freed_def owned_hold)
      have fr: "fresh M (bs_deletion ?b)" using fresh_hold [OF Cons.prems(2) none] by (simp add: count_freed_def)
      show ?thesis
      proof (cases "bs_usage ?b \<le> low")
        case True
        then show ?thesis using Cons.prems(3) Inr ev Some to2 fr by (simp add: Let_def)
      next
        case False
        then have "evict_batch env at low hs ?b ?w2 = (b', w')" using Cons.prems(3) Inr ev Some by (simp add: Let_def)
        from Cons.IH [OF _ fr this] follows_live [OF to2 Cons.prems(1)] follows_trans [OF to2] show ?thesis by blast
      qed
    qed
  qed
qed auto


lemma evict_loop_follows:
  fixes present :: "'s \<Rightarrow> string set"
  assumes "evict_loop env clock del low usage result w = Some y"
  shows "participant present env \<longrightarrow> s3_delete_law del present \<longrightarrow> follows present M w M (snd y)"
  using assms
proof (rule evict_loop.raw_induct [rotated])
  fix rec_loop env clock and del :: "'s \<Rightarrow> string list \<Rightarrow> s3_error list option \<times> 's" and low usage result w y
  assume ih: "\<And>env clock del low usage result w y. rec_loop env clock del low usage result w = Some y \<Longrightarrow>
      participant present env \<longrightarrow> s3_delete_law del present \<longrightarrow> follows present M w M (snd y)"
    and eq: "(if \<not> usage > low then Some (Inr result, w)
      else
        (let w1 = await env w;
             at = clock (w_awaits w);
             candidates = map fst (evictable (w_db w1) BATCH at)
         in if candidates = [] then Some (Inr (result\<lparr>pr_candidates_exhausted := True\<rparr>), w1)
            else
              (case evict_batch env at low candidates
                      \<lparr>bs_usage = usage, bs_result = result, bs_deletion = no_deletion, bs_settled = False\<rparr> w1 of
                 (b, w2) \<Rightarrow>
                   (let w3 = await env w2 in
                    case finish_deletion del (bs_deletion b) (w_fl w3) (w_s3 w3) of
                      (r, fl, s) \<Rightarrow>
                        (let w4 = w3\<lparr>w_fl := fl, w_s3 := s\<rparr> in
                         case r of
                           Inl e \<Rightarrow> Some (Inl e, w4)
                         | Inr _ \<Rightarrow>
                             if \<not> bs_settled b then Some (Inr (bs_result b), w4)
                             else rec_loop env clock del low (bs_usage b) (bs_result b) w4))))) = Some y"
  show "participant present env \<longrightarrow> s3_delete_law del present \<longrightarrow> follows present M w M (snd y)"
  proof (intro impI)
    assume env: "participant present env" and law: "s3_delete_law del present"
    let ?w1 = "await env w" and ?at = "clock (w_awaits w)"
    let ?b0 = "\<lparr>bs_usage = usage, bs_result = result, bs_deletion = no_deletion, bs_settled = False\<rparr>"
    obtain b w2 where run: "evict_batch env ?at low (map fst (evictable (w_db ?w1) BATCH ?at)) ?b0 ?w1 = (b, w2)" by fastforce
    obtain r fl s where fin: "finish_deletion del (bs_deletion b) (w_fl (await env w2)) (w_s3 (await env w2)) = (r, fl, s)"
      by (metis prod_cases3)
    let ?w4 = "(await env w2)\<lparr>w_fl := fl, w_s3 := s\<rparr>"
    note to1 = follows_await [OF env, of M w]
    have to4: "follows present M w M ?w4"
    proof (rule follows_if_live)
      assume "live M w"
      then have "live (owned M (bs_deletion ?b0)) ?w1" using follows_live [OF to1] by simp
      from evict_batch_follows [OF env this _ run] have b: "follows present M ?w1 (owned M (bs_deletion b)) w2" "fresh M (bs_deletion b)"
        by simp_all
      show ?thesis
        using follows_trans [OF follows_trans [OF to1 b(1)] follows_trans [OF follows_await [OF env] follows_finish [OF law b(2) fin]]] .
    qed
    show "follows present M w M (snd y)"
      using eq run fin ih [of env clock del low "bs_usage b" "bs_result b" ?w4] env law to1 to4 follows_trans [OF to4]
      by (auto simp: Let_def split: if_splits sum.splits)
  qed
qed

lemma evict_follows:
  assumes "s3_delete_law del present" "participant present env" "evict env clock del cfg w = Some (r, w')"
  shows "follows present M w M w'"
proof -
  let ?w1 = "await env w"
  obtain usage d where rec: "reconcile_total_bytes (w_db ?w1) = (usage, d)" by fastforce
  have run: "evict_loop env clock del (gc_low cfg) usage no_result (?w1\<lparr>w_db := d\<rparr>) = Some (r, w')"
    using assms(3) rec by (simp add: evict_def Let_def)
  have "follows present M ?w1 M (?w1\<lparr>w_db := d\<rparr>)"
    by (rule follows_fewer_rows) (use rec db_inv_reconcile [of "w_db ?w1"] in \<open>auto simp: reconcile_total_bytes_def Let_def db_keys_def\<close>)
  then show ?thesis
    using follows_trans [OF follows_await [OF assms(2)]] follows_trans evict_loop_follows [OF run] assms(1,2) by fastforce
qed

section \<open>The orphan sweep\<close>

lemma claim_orphans_follows:
  "live (owned M x) (w\<lparr>w_fl := fl\<rparr>) \<Longrightarrow> fresh M x \<Longrightarrow> claim_orphans (w_db w) hs x fl = (x', fl') \<Longrightarrow>
   follows present (owned M x) (w\<lparr>w_fl := fl\<rparr>) (owned M x') (w\<lparr>w_fl := fl'\<rparr>) \<and> fresh M x'"
proof (induction hs arbitrary: x fl)
  case (Cons h hs)
  show ?case
  proof (cases "claim_delete fl h")
    case (Inl e)
    then show ?thesis using Cons by simp
  next
    case (Inr fl1)
    let ?N = "(owned M x)(h \<mapsto> DelClaimed)"
    have none: "owned M x h = None" using liveD(2) [OF Cons.prems(1)] Inr by (simp add: claim_delete_Inr)
    have to1: "follows present (owned M x) (w\<lparr>w_fl := fl\<rparr>) ?N (w\<lparr>w_fl := fl1\<rparr>)"
      using follows_claim_delete [of "w\<lparr>w_fl := fl\<rparr>"] Inr by simp
    show ?thesis
    proof (cases "exists_object (w_db w) h")
      case True
      have "drop_claim fl1 h = fl" using drop_claim_delete [OF Inr] .
      then show ?thesis using Cons.IH [OF Cons.prems(1,2)] Cons.prems(3) Inr True by simp
    next
      case False
      then have "h \<notin> db_keys (w_db w)" by simp
      then have "follows present ?N (w\<lparr>w_fl := fl1\<rparr>) (?N(h \<mapsto> DelRowGone)) (w\<lparr>w_fl := fl1, w_db := w_db w\<rparr>)"
        by (intro follows_row_gone) auto
      then have to2: "follows present (owned M x) (w\<lparr>w_fl := fl\<rparr>) (owned M (hold x h)) (w\<lparr>w_fl := fl1\<rparr>)"
        using follows_trans [OF to1] by (simp add: owned_hold)
      have "claim_orphans (w_db w) hs (hold x h) fl1 = (x', fl')" using Cons.prems(3) Inr False by simp
      from Cons.IH [OF _ fresh_hold [OF Cons.prems(2) none] this] follows_live [OF to2 Cons.prems(1)] follows_trans [OF to2]
      show ?thesis by blast
    qed
  qed
qed simp

lemma sweep_follows:
  assumes law: "s3_delete_law (sa_delete s3) present" and aborts: "\<And>s xs. present (sa_aborted s3 s xs) = present s"
    and env: "participant present env" and run: "sweep env clock s3 cfg w = Some (r, w')"
  shows "follows present M w M w'"
proof -
  let ?w2 = "await env (await env w)"
  let ?w3 = "await env ?w2"
  note aw = follows_await [OF env]
  have to2: "follows present M w M ?w2" using follows_trans [OF aw aw] .
  have abort: "follows present M w M (?w3\<lparr>w_s3 := sa_aborted s3 (w_s3 ?w3) ab\<rparr>)" for ab
    by (rule follows_trans [OF follows_trans [OF to2 aw] follows_same_blobs]) (rule aborts)
  show ?thesis
  proof (cases "list_blobs (sa_list s3 (w_s3 ?w2)) (clock (w_awaits (await env w)))")
    case None
    then show ?thesis using run by (simp add: sweep_def Let_def)
  next
    case (Some lb)
    show ?thesis
    proof (cases lb)
      case (Inl e)
      then show ?thesis using run Some to2 by (simp add: sweep_def Let_def)
    next
      case (Inr blobs)
      define w4 where "w4 ab = await env (?w3\<lparr>w_s3 := sa_aborted s3 (w_s3 ?w3) ab\<rparr>)" for ab
      define hs where "hs ab = orphan_hashes blobs (set (all_hashes (w_db (await env w)))) (w_fl (w4 ab)) (gc_orphan_grace cfg)" for ab
      show ?thesis
      proof (cases "abort_stale_multiparts (sa_mpus s3 (w_s3 ?w3)) (sa_abort s3 (w_s3 ?w3)) (gc_orphan_grace cfg) (w_fl ?w3) (clock (w_awaits ?w2))")
        case None
        then show ?thesis using run Some Inr by (simp add: sweep_def Let_def)
      next
        case (Some res)
        obtain r1 ab where res: "res = (r1, ab)" by fastforce
        obtain x fl where co: "claim_orphans (w_db (w4 ab)) (hs ab) no_deletion (w_fl (w4 ab)) = (x, fl)" by fastforce
        let ?w5 = "await env (w4 ab\<lparr>w_fl := fl\<rparr>)"
        obtain r0 fl' s' where fd: "finish_deletion (sa_delete s3) x (w_fl ?w5) (w_s3 ?w5) = (r0, fl', s')" by (metis prod_cases3)
        have "follows present M w M (?w5\<lparr>w_fl := fl', w_s3 := s'\<rparr>)"
        proof (rule follows_if_live)
          have to4: "follows present M w M (w4 ab)" using follows_trans [OF abort aw] by (simp add: w4_def)
          assume "live M w"
          then have lv: "live M (w4 ab)" using follows_live [OF to4] by blast
          have o: "follows present M (w4 ab) (owned M x) (w4 ab\<lparr>w_fl := fl\<rparr>)" "fresh M x"
            using claim_orphans_follows [where M = M and x = no_deletion and w = "w4 ab" and fl = "w_fl (w4 ab)"
                and hs = "hs ab" and x' = x and fl' = fl and present = present] lv co by simp_all
          show ?thesis
            using follows_trans [OF follows_trans [OF to4 o(1)] follows_trans [OF aw follows_finish [OF law o(2) fd]]] .
        qed
        then show ?thesis
          using run \<open>list_blobs _ _ = Some lb\<close> Inr Some res co fd abort [of ab] unfolding hs_def w4_def
          by (cases r1) (simp_all add: sweep_def Let_def)
      qed
    qed
  qed
qed


section \<open>The admin commands\<close>

lemma acquire_delete_claims:
  "acquire_all claim_delete drop_claim taken hs fl = (Inr cs, fl') \<Longrightarrow>
   claims fl' = (\<lambda>h. if h \<in> set hs then Some Delete else claims fl h) \<and> distinct hs \<and> (\<forall>h \<in> set hs. claims fl h = None)"
proof (induction hs arbitrary: taken fl)
  case (Cons h hs)
  then obtain fl1 where fl1: "claim_delete fl h = Inr fl1" "acquire_all claim_delete drop_claim (taken @ [h]) hs fl1 = (Inr cs, fl')"
    by (auto split: sum.splits)
  note ih = Cons.IH [OF fl1(2)]
  have c: "claims fl h = None" "claims fl1 = (claims fl)(h \<mapsto> Delete)" using fl1(1) by (auto simp: claim_delete_Inr)
  have "h \<notin> set hs" using ih c(2) by auto
  then show ?case using ih c by (auto simp: fun_eq_iff split: if_splits)
qed auto

lemma claim_all_follows:
  assumes "claim_all (w_fl w) hs = (Inr x, fl)"
  shows "follows present M w (owned M x) (w\<lparr>w_fl := fl\<rparr>) \<and> (live M w \<longrightarrow> fresh M x) \<and> del_claims x = hs \<and> del_keys x = []"
proof (cases rule: claim_all_cases [of "w_fl w" hs])
  case (busy h b)
  then show ?thesis using assms by simp
next
  case (granted x' fl')
  then have x: "del_claims x = hs" "del_keys x = []" using assms by simp_all
  obtain cs where "acquire_all claim_delete drop_claim [] hs (w_fl w) = (Inr cs, fl)"
    using assms by (auto simp: claim_all_def split: prod.splits sum.splits)
  note c = acquire_delete_claims [OF this]
  have "owned M x = (\<lambda>h. if h \<in> set hs then Some DelClaimed else M h)" by (simp add: owned_def x)
  moreover have "fresh M x" if "live M w" using liveD(2) [OF that] c by (simp add: fresh_def x)
  ultimately show ?thesis using follows_take_all [of hs w fl present M] c x by simp
qed

lemma follows_busy: "claim_all (w_fl w) hs = (Inl e, fl) \<Longrightarrow> follows present M w M (w\<lparr>w_fl := fl\<rparr>)"
  by (rule claim_all_cases [of "w_fl w" hs]) auto

lemma delete_each_follows:
  assumes env: "participant present env"
  shows "fresh M x \<Longrightarrow> \<not> dry \<longrightarrow> set hs \<subseteq> set (del_claims x) \<Longrightarrow> delete_each env dry hs x dl w = (x', dl', w') \<Longrightarrow>
    follows present (owned M x) w (owned M x') w' \<and> fresh M x'"
proof (induction hs arbitrary: x dl w)
  case (Cons h hs)
  let ?w1 = "await env w"
  note to1 = follows_await [OF env, of "owned M x" w]
  show ?case
  proof (cases "dry \<or> file_size (w_db ?w1) h = None")
    case True
    then have "\<exists>dl1. delete_each env dry hs x dl1 ?w1 = (x', dl', w')"
      using Cons.prems(3) by (auto simp: Let_def delete_object_def simp del: file_size_None split: option.splits if_splits)
    then show ?thesis using Cons.IH [of x _ ?w1] Cons.prems(1,2) follows_trans [OF to1] by auto
  next
    case False
    then obtain n where n: "file_size (w_db ?w1) h = Some n" by (metis option.exhaust)
    then obtain d where del: "delete_object (w_db ?w1) h = (Some n, d)" by (simp add: delete_object_def)
    have dk: "db_inv (w_db ?w1) \<Longrightarrow> db_inv d \<and> db_keys d = db_keys (w_db ?w1) - {h}"
      using db_inv_delete_object [of "w_db ?w1" h] db_keys_delete_object [of "w_db ?w1" h] del by simp
    obtain dl1 where run: "delete_each env dry hs (queue_blob x h) dl1 (?w1\<lparr>w_db := d\<rparr>) = (x', dl', w')"
      using Cons.prems(3) False by (simp add: Let_def del split: if_splits)
    have h: "h \<in> set (del_claims x)" using Cons.prems(2) False by auto
    obtain ph where "owned M x h = Some ph" "kind_of ph = Delete" using owned_claimed [OF Cons.prems(1) h] by blast
    then have "follows present (owned M x) ?w1 ((owned M x)(h \<mapsto> DelRowGone)) (?w1\<lparr>w_db := d\<rparr>)"
      by (rule follows_row_gone) (rule dk)
    then have to2: "follows present (owned M x) w (owned M (queue_blob x h)) (?w1\<lparr>w_db := d\<rparr>)"
      using follows_trans [OF to1] by (simp add: owned_queue)
    have "\<not> dry \<longrightarrow> set hs \<subseteq> set (del_claims (queue_blob x h))" using Cons.prems(2) by (auto simp: queue_blob_def)
    from Cons.IH [OF fresh_queue [OF Cons.prems(1) h] this run] follows_trans [OF to2] show ?thesis by blast
  qed
qed simp

lemma delete_hashes_follows:
  assumes law: "s3_delete_law del present" and env: "participant present env"
    and run: "delete_hashes env del hashes dry w = (r, w')"
  shows "follows present M w M w'"
proof -
  let ?hs = "first_seen [] hashes" and ?none = "\<lparr>dl_deleted = 0, dl_bytes_freed = 0, dl_missing = []\<rparr>"
  show ?thesis
  proof (cases dry)
    case True
    obtain x dl w1 where each: "delete_each env True ?hs no_deletion ?none w = (x, dl, w1)" by (metis prod_cases3)
    have "x = no_deletion" if "delete_each env True hs x0 d0 w0 = (x, dl, w1)" "x0 = no_deletion" for hs x0 d0 w0
      using that by (induction hs arbitrary: d0 w0) (auto simp: Let_def split: option.splits prod.splits)
    then have "x = no_deletion" using each by blast
    then show ?thesis using delete_each_follows [OF env _ _ each, of M] run each True
      by (simp add: delete_hashes_def Let_def)
  next
    case False
    show ?thesis
    proof (cases "claim_all (w_fl w) ?hs")
      case (Pair c fl)
      show ?thesis
      proof (cases c)
        case (Inl e)
        then show ?thesis using run False Pair follows_busy [of w ?hs e fl]
          by (auto simp: delete_hashes_def Let_def split: prod.splits)
      next
        case (Inr x)
        note ca = claim_all_follows [OF Pair [unfolded Inr], of present M]
        obtain x1 dl w1 where each: "delete_each env False ?hs x ?none (w\<lparr>w_fl := fl\<rparr>) = (x1, dl, w1)" by (metis prod_cases3)
        let ?w2 = "await env w1"
        obtain r0 fl2 s where fin: "finish_deletion del x1 (w_fl ?w2) (w_s3 ?w2) = (r0, fl2, s)" by (metis prod_cases3)
        have w': "w' = ?w2\<lparr>w_fl := fl2, w_s3 := s\<rparr>"
          using run False Pair Inr each fin by (auto simp: delete_hashes_def Let_def split: sum.splits)
        show ?thesis
        proof (rule follows_if_live)
          assume "live M w"
          then have fr: "fresh M x" using ca by blast
          have e: "follows present (owned M x) (w\<lparr>w_fl := fl\<rparr>) (owned M x1) w1" "fresh M x1"
            using delete_each_follows [OF env fr _ each] ca by auto
          show ?thesis unfolding w'
            using follows_trans [OF follows_trans [OF ca [THEN conjunct1] e(1)]
                follows_trans [OF follows_await [OF env] follows_finish [OF law e(2) fin]]] .
        qed
      qed
    qed
  qed
qed


lemma delete_pushed_by_follows:
  assumes "s3_delete_law del present" "participant present env" "delete_pushed_by env del subject since dry w = (r, w')"
  shows "follows present M w M w'"
  using assms(3) follows_await [OF assms(2), of M w] follows_trans [OF follows_await [OF assms(2)]]
    delete_hashes_follows [OF assms(1,2)]
  by (auto simp: delete_pushed_by_def delete_listed_def Let_def split: if_splits prod.splits sum.splits)

text \<open>Prune claims, deletes rows in batches and queues, all in one hold of the connection.\<close>

lemma prune_rows_follows:
  assumes run: "prune_rows before now dry w = (r, w')"
  shows "(\<forall>doomed x. r = Inr (doomed, Some x) \<longrightarrow> follows present M w (owned M x) w' \<and> (live M w \<longrightarrow> fresh M x))
    \<and> ((\<forall>doomed x. r \<noteq> Inr (doomed, Some x)) \<longrightarrow> follows present M w M w')"
proof (cases "prunable (w_db w) before now")
  case (Inl e)
  then show ?thesis using run by (auto simp: prune_rows_def)
next
  case doomed: (Inr doomed)
  let ?hs = "map brief_hash doomed"
  show ?thesis
  proof (cases dry)
    case True
    then show ?thesis using run doomed by (auto simp: prune_rows_def)
  next
    case False
    obtain c fl where ca: "claim_all (w_fl w) ?hs = (c, fl)" by fastforce
    show ?thesis
    proof (cases c)
      case (Inl e)
      then show ?thesis using run doomed False ca follows_busy [of w ?hs e fl present M]
        by (auto simp: prune_rows_def Let_def split: prod.splits)
    next
      case (Inr x)
      note cf = claim_all_follows [OF ca [unfolded Inr], of present M]
      show ?thesis
      proof (cases "delete_pruned (w_db w) doomed")
        case (Inl e)
        have "release_claims x fl = w_fl w" using ca Inr by (cases rule: claim_all_cases [of "w_fl w" ?hs]) auto
        then show ?thesis using run doomed False ca Inr Inl by (auto simp: prune_rows_def Let_def)
      next
        case dp: (Inr cs)
        let ?x = "fold (\<lambda>h x. queue_blob x h) ?hs x" and ?l = "last (w_db w # cs)"
        have own: "owned M ?x = (\<lambda>h. if h \<in> set ?hs then Some DelRowGone else owned M x h)"
          by (auto simp: owned_def fold_queue_blob cf fun_eq_iff)
        have "follows present (owned M x) (w\<lparr>w_fl := fl\<rparr>) (owned M ?x) (w\<lparr>w_fl := fl, w_db := ?l\<rparr>)"
          unfolding own
        proof (rule follows_rows_gone)
          show "\<forall>h \<in> set ?hs. \<exists>ph. owned M x h = Some ph \<and> kind_of ph = Delete" using cf by (auto simp: owned_def)
          assume "db_inv (w_db (w\<lparr>w_fl := fl\<rparr>))"
          then have inv: "db_inv (w_db w)" by simp
          show "db_inv ?l \<and> db_keys ?l = db_keys (w_db (w\<lparr>w_fl := fl\<rparr>)) - set ?hs"
            using admin_inv.prune_keeps [OF inv doomed dp] delete_pruned_commits [OF inv doomed dp] prunable_hashes [OF doomed]
            by (auto simp del: last.simps)
        qed
        from follows_trans [OF cf [THEN conjunct1] this]
        have "follows present M w (owned M ?x) (w\<lparr>w_fl := fl, w_db := ?l\<rparr>)" .
        moreover have "fresh M ?x" if "live M w"
          using cf that by (auto simp: fresh_def fold_queue_blob)
        ultimately show ?thesis using run doomed False ca Inr dp
          by (auto simp: prune_rows_def Let_def simp del: last.simps)
      qed
    qed
  qed
qed

lemma prune_follows:
  assumes law: "s3_delete_law del present" and env: "participant present env"
    and run: "prune env clock del before dry w = (r, w')"
  shows "follows present M w M w'"
proof -
  obtain r1 w1 where rows: "prune_rows before (clock (w_awaits w)) dry (await env w) = (r1, w1)" by fastforce
  note pr = prune_rows_follows [OF rows, of present M] and to1 = follows_await [OF env, of M w]
  show ?thesis
  proof (cases "\<exists>doomed x. r1 = Inr (doomed, Some x)")
    case False
    then have "w' = w1" using run rows by (auto simp: prune_def Let_def split: sum.splits prod.splits option.splits)
    then show ?thesis using pr False follows_trans [OF to1] by blast
  next
    case True
    then obtain doomed x where r1: "r1 = Inr (doomed, Some x)" by blast
    let ?w2 = "await env w1"
    obtain r0 fl s where fin: "finish_deletion del x (w_fl ?w2) (w_s3 ?w2) = (r0, fl, s)" by (metis prod_cases3)
    have w': "w' = ?w2\<lparr>w_fl := fl, w_s3 := s\<rparr>"
      using run rows r1 fin by (auto simp: prune_def Let_def split: sum.splits)
    show ?thesis
    proof (rule follows_if_live)
      assume "live M w"
      then have "fresh M x" using pr r1 follows_live [OF to1] by blast
      from follows_finish [OF law this fin] show ?thesis
        unfolding w' using pr r1 follows_trans [OF follows_trans [OF to1] follows_trans [OF follows_await [OF env]]] by blast
    qed
  qed
qed

lemma update_sigs_keys [simp]: "db_keys (update_sigs enc d h sigs) = db_keys d"
  by (simp add: update_sigs_def db_keys_update_row)

lemma apply_updates_keys: "db_keys (apply_updates enc us d) = db_keys d"
  unfolding apply_updates_def by (induction us arbitrary: d) auto

lemma resign_chunks_follows:
  assumes env: "participant present env"
  shows "resign_chunks env cd cr dir keys cs a b w = (r, w') \<Longrightarrow> follows present M w M w'"
proof (induction cs arbitrary: a b w)
  case (Cons c cs)
  let ?w2 = "await env (await env w)"
  note aw = follows_await [OF env, of M]
  have upd: "follows present M w M (?w2\<lparr>w_db := apply_updates enc us (w_db ?w2)\<rparr>)" for enc us
    by (rule follows_trans [OF follows_trans [OF aw aw] follows_fewer_rows])
       (simp add: apply_updates_keys admin_inv.apply_updates_keeps)
  have "follows present M w M w'"
    if "resign_chunks env cd cr dir keys cs m k (?w2\<lparr>w_db := apply_updates enc us (w_db ?w2)\<rparr>) = (r, w')" for m k enc us
    using follows_trans [OF upd Cons.IH [OF that]] .
  then show ?case using Cons.prems aw [of w] by (auto simp: Let_def split: sum.splits prod.splits)
qed simp

lemma resign_follows:
  assumes "participant present env" "resign env cd cr dir keys w = (r, w')"
  shows "follows present M w M w'"
proof -
  obtain r1 where "resign_chunks env cd cr dir keys (chunks RESIGN_CHUNK (all_hashes (w_db (await env w)))) 0 0 (await env w) = (r1, w')"
    using assms(2) by (auto simp: resign_def Let_def split: sum.splits prod.splits)
  then show ?thesis using resign_chunks_follows [OF assms(1)] follows_trans [OF follows_await [OF assms(1)]] by blast
qed

lemma apply_repair_follows:
  assumes env: "participant present env"
  shows "apply_repair env fs w = (n, w') \<Longrightarrow> follows present M w M w'"
proof (induction fs arbitrary: w n)
  case (Cons f fs)
  let ?w1 = "await env w"
  let ?w2 = "?w1\<lparr>w_db := snd (repair_row (w_db ?w1) f)\<rparr>"
  have "follows present M ?w1 M ?w2"
    by (rule follows_fewer_rows) (use admin_keys.repair_row_keeps [of "w_db ?w1" "db_keys (w_db ?w1)" f] in
      \<open>auto intro: db_inv_repair_row\<close>)
  then have to2: "follows present M w M ?w2" using follows_trans [OF follows_await [OF env]] by blast
  obtain m where "apply_repair env fs ?w2 = (m, w')"
    using Cons.prems by (auto simp: Let_def split: prod.splits)
  from follows_trans [OF to2 Cons.IH [OF this]] show ?case .
qed simp

lemma drain_wait_follows:
  assumes env: "participant present env"
  shows "drain_wait env n w = (b, w') \<Longrightarrow> follows present M w M w'"
proof (induction n arbitrary: w)
  case (Suc n)
  then show ?case using follows_trans [OF follows_await [OF env]]
    by (auto simp: drain_wait.simps [of _ "Suc n"] split: if_splits)
qed (auto simp: drain_wait.simps [of _ 0] split: if_splits)

lemma fsck_pass_follows:
  assumes env: "participant present env" and run: "fsck_pass env clock s3 grace vs repair drained w = Some (x, w')"
  shows "follows present M w M w'"
proof -
  note aw = follows_await [OF env, of M]
  have to1: "follows present M w M (await env w)" and to3: "follows present M w M (await env (await env (await env w)))"
    using aw follows_trans [OF aw follows_trans [OF aw aw]] by blast+
  then show ?thesis using run apply_repair_follows [OF env] follows_trans [OF to3]
    by (auto simp: fsck_pass_def Let_def split: option.splits sum.splits prod.splits if_splits)
qed

lemma fsck_run_follows:
  assumes env: "participant present env" and run: "fsck_run env clock s3 grace wakes vs repair w = Some (x, w')"
  shows "follows present M w M w'"
proof (cases "repair = RepairQuiesced")
  case True
  let ?w0 = "w\<lparr>w_fl := quiesce (w_fl w)\<rparr>"
  obtain b w1 where dw: "drain_wait env wakes ?w0 = (b, w1)" by fastforce
  obtain w2 where p: "fsck_pass env clock s3 grace vs repair (Some b) w1 = Some (x, w2)" "w' = w2\<lparr>w_fl := drop_guard (w_fl w2)\<rparr>"
    using run True dw by (auto simp: fsck_run_def)
  have "follows present M w M ?w0" by (rule follows_gate) (simp add: quiesce_def)
  also note drain_wait_follows [OF env dw]
  also note fsck_pass_follows [OF env p(1)]
  also have "follows present M w2 M w'" unfolding p(2) by (rule follows_gate) (simp add: drop_guard_def)
  finally show ?thesis .
next
  case False
  then show ?thesis using run fsck_pass_follows [OF env] by (simp add: fsck_run_def)
qed

lemma follows_transaction:
  assumes "participant present env" "db_inv (w_db (await env w)) \<Longrightarrow> db_inv d \<and> db_keys d \<subseteq> db_keys (w_db (await env w))"
  shows "follows present M w M ((await env w)\<lparr>w_db := d\<rparr>)"
  by (rule follows_trans [OF follows_await [OF assms(1)] follows_fewer_rows [OF assms(2)]])

lemma dispatch_follows:
  assumes law: "s3_delete_law (sa_delete (ad_s3 st)) present" and env: "participant present env"
    and run: "dispatch env clock st rq w = Some (a, w')"
  shows "follows present M w M w'"
proof -
  note aw = follows_await [OF env, of M w] and tx = follows_transaction [OF env, of w _ M]
  show ?thesis
  proof (cases rq)
    case RStatus
    then show ?thesis using run aw by (auto simp: dispatch_def status_of_def Let_def)
  next
    case RGcRun
    then show ?thesis using run evict_follows [OF law env]
      by (auto simp: dispatch_def answered_def split: option.splits)
  next
    case RResign
    then show ?thesis using run resign_follows [OF env surjective_pairing] by (auto simp: dispatch_def answered_def)
  next
    case (RDelete hs dry)
    then show ?thesis using run delete_hashes_follows [OF law env]
      by (auto simp: dispatch_def answered_def split: prod.splits)
  next
    case (RPin name h e)
    have "db_keys d' = db_keys d" if "pin_object d name h e now = Inr d'" for d d' now
      using that by (auto simp: pin_object_def db_keys_def split: if_splits)
    then show ?thesis using run aw tx RPin db_inv_pin
      by (fastforce simp: dispatch_def Let_def split: sum.splits)
  next
    case (RUnpin name)
    have "db_keys (snd (unpin d name)) = db_keys d" for d by (auto simp: unpin_def db_keys_def)
    then show ?thesis using run tx [of "snd (unpin (w_db (await env w)) name)"] RUnpin db_inv_unpin
      by (auto simp: dispatch_def Let_def split: prod.splits)
  next
    case (RFsck vs rep)
    then show ?thesis using run fsck_run_follows [OF env]
      by (auto simp: dispatch_def answered_def split: option.splits)
  next
    case (RPrune before dry)
    then show ?thesis using run prune_follows [OF law env surjective_pairing] by (auto simp: dispatch_def answered_def)
  next
    case (RDeletePushedBy subject since dry)
    then show ?thesis using run delete_pushed_by_follows [OF law env surjective_pairing] by (auto simp: dispatch_def answered_def)
  next
    case (RBackup path)
    then show ?thesis using run aw by (auto simp: dispatch_def answered_def)
  qed
qed


section \<open>An upload\<close>

lemma store_nar_follows:
  assumes P: "pusher_ok P get parts" and run: "store_nar P sc h ob leftover rest (w_s3 w) = Some (st, rd, s')"
    and M: "M h = Some UpClaimed"
  shows "\<exists>ph. kind_of ph = Upload \<and> (\<forall>x. st = Inr x \<longrightarrow> ph = UpStored)
    \<and> follows (\<lambda>s. dom (get s)) M w (M(h \<mapsto> ph)) (w\<lparr>w_s3 := s'\<rparr>)"
proof -
  have stored: "\<exists>b. get s' = (get (w_s3 w))(key_for h \<mapsto> b)" if "st = Inr x" for x
    using store_nar_verified [OF P, of sc h ob leftover rest "w_s3 w"] run that by (metis option.inject prod.inject)
  consider (new) b where "get s' = (get (w_s3 w))(key_for h \<mapsto> b)" | (same) "get s' = get (w_s3 w)" "\<nexists>x. st = Inr x"
    using store_nar_effect [OF P run] stored by blast
  then show ?thesis
  proof cases
    case new
    then have "follows (\<lambda>s. dom (get s)) M w (M(h \<mapsto> UpStored)) (w\<lparr>w_s3 := s'\<rparr>)"
      by (intro follows_store [of M h, OF M]) auto
    then show ?thesis by (intro exI [of _ UpStored]) simp
  next
    case same
    have "M(h \<mapsto> UpClaimed) = M" using M by auto
    then show ?thesis using same follows_same_blobs [of "\<lambda>s. dom (get s)" s' w M]
      by (intro exI [of _ UpClaimed]) simp
  qed
qed

lemma drop_upload_follows:
  assumes "M h = None"
  shows "follows present (M(h \<mapsto> ph)) w M (drop_upload h w)"
  unfolding drop_upload_def by (rule follows_drop [of M h, OF assms refl])

lemma insert_upload_follows:
  assumes M: "M h = None" and run: "insert_upload enc i ob at w = (r, w')" and ob: "obj_store_path_hash ob = h" "0 \<le> obj_file_size ob"
  shows "follows present (M(h \<mapsto> UpStored)) w M w'"
proof (cases "insert_object enc (w_db w) ob at")
  case (Inl e)
  then show ?thesis using run ob drop_upload_follows [of M h, OF M] by (auto simp: insert_upload_def)
next
  case (Inr d)
  have "follows present (M(h \<mapsto> UpStored)) w (M(h \<mapsto> UpStored)) (w\<lparr>w_db := d\<rparr>)"
    by (rule follows_insert [where h = h]) (use ob db_inv_insert [OF _ Inr] db_keys_insert [OF Inr] in auto)
  then show ?thesis using run Inr ob follows_trans drop_upload_follows [of M h, OF M] by (fastforce simp: insert_upload_def)
qed

lemma store_upload_follows:
  assumes P: "pusher_ok P get parts" and env: "participant (\<lambda>s. dom (get s)) env" and M: "M h = None"
    and run: "store_upload env clock P sc h subject body w = Some (r, w')"
  shows "follows (\<lambda>s. dom (get s)) (M(h \<mapsto> UpClaimed)) w M w'"
proof -
  let ?pr = "\<lambda>s. dom (get s)" and ?N = "M(h \<mapsto> UpClaimed)"
  note aw = follows_await [OF env]
  note fail = follows_trans [OF aw drop_upload_follows [of M h, OF M]]
  show ?thesis
  proof (cases "read_preamble (pu_from_slice P) (sc_id sc) [] body")
    case (Inl e)
    then show ?thesis using run fail by (auto simp: store_upload_def Let_def)
  next
    case (Inr plr)
    obtain p leftover rest where plr: "plr = (p, leftover, rest)" by (metis prod_cases3)
    show ?thesis
    proof (cases "build_object (pu_crypto P) h p (pu_store_dir P) subject")
      case (Inl e)
      then show ?thesis using run Inr plr fail by (auto simp: store_upload_def Let_def)
    next
      case ob: (Inr ob)
      let ?w2 = "await env (await env w)"
      obtain st rd s where put: "store_nar P sc h ob leftover rest (w_s3 ?w2) = Some (st, rd, s)"
        using run Inr plr ob by (cases "store_nar P sc h ob leftover rest (w_s3 ?w2)") (auto simp: store_upload_def Let_def)
      let ?w3 = "?w2\<lparr>w_s3 := s\<rparr>"
      obtain ph where ph: "\<forall>x. st = Inr x \<longrightarrow> ph = UpStored" "follows ?pr ?N ?w2 (?N(h \<mapsto> ph)) ?w3"
        using store_nar_follows [OF P put, of ?N] by auto
      have to3: "follows ?pr ?N w (M(h \<mapsto> ph)) ?w3"
        using follows_trans [OF follows_trans [OF aw aw] ph(2)] by simp
      note fail3 = follows_trans [OF to3 drop_upload_follows [of M h, OF M]]
      show ?thesis
      proof (cases "upload_verdict (sc_id sc) (into_outcome (rd_body rd)) st")
        case (Inl e)
        then show ?thesis using run Inr plr ob put fail3 by (auto simp: store_upload_def Let_def)
      next
        case v: (Inr x)
        show ?thesis
        proof (cases "signed_object P ob x")
          case (Inl e)
          then show ?thesis using run Inr plr ob put v fail3 by (auto simp: store_upload_def Let_def)
        next
          case so: (Inr sob)
          have ins: "insert_upload (pu_enc_sigs P) (sc_id sc) sob (clock (w_awaits ?w3)) (await env ?w3) = (r, w')"
            using run Inr plr ob put v so by (simp add: store_upload_def Let_def)
          have "obj_store_path_hash sob = h" "0 \<le> obj_file_size sob"
            using signed_object_Inr [OF so P] build_object_fields [OF ob] by auto
          from insert_upload_follows [of M h, OF M ins this] show ?thesis
            using follows_trans [OF to3 aw] follows_trans ph(1) upload_verdict_Inr [OF v] by blast
        qed
      qed
    qed
  qed
qed

lemma upload_follows:
  assumes P: "pusher_ok P get parts" and env: "participant (\<lambda>s. dom (get s)) env"
    and run: "upload env clock P sc h subject body w = Some (r, w')"
  shows "follows (\<lambda>s. dom (get s)) M w M w'"
proof -
  let ?pr = "\<lambda>s. dom (get s)" and ?w1 = "await env w"
  let ?w2 = "?w1\<lparr>w_slots := w_slots ?w1 - 1\<rparr>"
  note aw = follows_await [OF env]
  have slot: "follows ?pr N v N (release_slot v)" for N v unfolding release_slot_def by simp
  have to2: "follows ?pr M w M ?w2" using follows_trans [OF aw follows_slots(1)] .
  show ?thesis
  proof (cases "is_quiescing (w_fl w) \<or> \<not> is_store_hash h \<or> already_stored h ?w1 \<or> w_slots ?w1 = 0")
    case True
    then show ?thesis using run aw [of M w] by (auto simp: upload_def Let_def split: if_splits)
  next
    case False
    show ?thesis
    proof (cases "claim (w_fl ?w2) h")
      case (Inl e)
      then show ?thesis using run False follows_trans [OF to2 slot] by (cases e) (auto simp: upload_def Let_def)
    next
      case (Inr fl)
      let ?w3 = "await env (?w2\<lparr>w_fl := fl\<rparr>)"
      have fl: "claims (w_fl ?w2) h = None" "claims fl = (claims (w_fl ?w2))(h \<mapsto> Upload)"
        using Inr by (auto simp: claim_Inr take_claim_Inr)
      have "follows ?pr M ?w2 (M(h \<mapsto> UpClaimed)) (?w2\<lparr>w_fl := fl\<rparr>)"
        by (rule follows_take) (use fl in auto)
      then have to3: "follows ?pr M w (M(h \<mapsto> UpClaimed)) ?w3" using follows_trans [OF to2] follows_trans [OF _ aw] by blast
      obtain v where v: "w' = release_slot v" "claimed_upload env clock P sc h subject body (?w2\<lparr>w_fl := fl\<rparr>) = Some (r, v)"
        using run False Inr by (auto simp: upload_def Let_def)
      show ?thesis
      proof (rule follows_if_live)
        assume "live M w"
        then have M: "M h = None" using follows_live [OF to2] liveD(2) fl(1) by blast
        have "follows ?pr (M(h \<mapsto> UpClaimed)) ?w3 M v"
        proof (cases "already_stored h ?w3")
          case True
          then show ?thesis using v(2) drop_upload_follows [of M h, OF M] by (auto simp: claimed_upload_def Let_def)
        next
          case False
          then show ?thesis using v(2) store_upload_follows [of P get parts env M h, OF P env M] by (auto simp: claimed_upload_def Let_def)
        qed
        then show ?thesis unfolding v(1) using follows_trans [OF to3] follows_trans [OF _ slot] by blast
      qed
    qed
  qed
qed

lemma missing_paths_follows:
  assumes "participant present env" "missing_paths env clock hashes w = (ms, w')"
  shows "follows present M w M w'"
proof -
  have "w' = (await env w)\<lparr>w_db := snd (missing (w_db (await env w)) hashes (clock (w_awaits w)))\<rparr>"
    using assms(2) by (auto simp: missing_paths_def Let_def split: prod.splits)
  then show ?thesis using follows_transaction [OF assms(1)] db_inv_missing by simp
qed

section \<open>The tasks are participants\<close>

interpretation upload_task: task "\<lambda>s. dom (get s)" "pusher_ok P get parts"
    "\<lambda>env w. map_option snd (upload env clock P sc h subject body w)" for get P parts clock sc h subject body
  by unfold_locales (auto intro: upload_follows)

interpretation missing_task: task present True "\<lambda>env w. Some (snd (missing_paths env clock hashes w))" for present clock hashes
  by unfold_locales (auto intro: missing_paths_follows [OF _ surjective_pairing])

interpretation gc_task: task present "s3_delete_law del present"
    "\<lambda>env w. map_option snd (evict env clock del cfg w)" for present del clock cfg
  by unfold_locales (auto intro: evict_follows)

interpretation sweep_task: task present "s3_delete_law (sa_delete s3) present \<and> (\<forall>s xs. present (sa_aborted s3 s xs) = present s)"
    "\<lambda>env w. map_option snd (sweep env clock s3 cfg w)" for present s3 clock cfg
  by unfold_locales (auto intro: sweep_follows)

interpretation admin_task: task present "s3_delete_law (sa_delete (ad_s3 st)) present"
    "\<lambda>env w. map_option snd (dispatch env clock st rq w)" for present st clock rq
  by unfold_locales (auto intro: dispatch_follows)

end
