(* ===== verification/Browse.thy ===== *)
theory Browse
  imports Database_Laws Narinfo
begin

text \<open>
  \<^verbatim>\<open>crates/garret-server/src/browse.rs\<close>: the read-only queries of the browse API.

  A query is a function of the database it reads. SQLite's \<^verbatim>\<open>LIKE\<close> (which ignores the case of
  ASCII letters) and Rust's \<^verbatim>\<open>i64\<close> parser are written out, since the listing depends on both.
\<close>

section \<open>Search patterns\<close>

definition lower :: "char \<Rightarrow> char" where
  "lower c = (let n = (of_char c :: nat) in if 65 \<le> n \<and> n \<le> 90 then char_of (n + 32) else c)"

definition is_continuation :: "char \<Rightarrow> bool" where
  "is_continuation c = (let n = (of_char c :: nat) in 128 \<le> n \<and> n < 192)"

fun tails :: "'a list \<Rightarrow> 'a list list" where
  "tails [] = [[]]"
| "tails (x # xs) = (x # xs) # tails xs"

text \<open>\<^verbatim>\<open>s LIKE p ESCAPE '\'\<close>.\<close>

abbreviation backslash :: char where "backslash \<equiv> CHR 0x5C"

function like :: "string \<Rightarrow> string \<Rightarrow> bool" where
  "like [] s = (s = [])"
| "like (p # ps) s =
     (if p = backslash then
        (case ps of
           [] \<Rightarrow> False
         | q # qs \<Rightarrow> (case s of [] \<Rightarrow> False | x # xs \<Rightarrow> lower q = lower x \<and> like qs xs))
      else if p = CHR ''%'' then list_ex (\<lambda>t. like ps t) (tails s)
      else (case s of
              [] \<Rightarrow> False
            | x # xs \<Rightarrow>
                if p = CHR ''_'' then like ps (dropWhile is_continuation xs)
                else lower p = lower x \<and> like ps xs))"
  by pat_completeness auto
termination
  by (relation "measure (\<lambda>(p, s). length p)") auto

declare like.simps(2) [simp del]

fun escape_like :: "string \<Rightarrow> string" where
  "escape_like [] = []"
| "escape_like (c # cs) =
     (if c = backslash \<or> c = CHR ''%'' \<or> c = CHR ''_'' then [backslash, c] else [c]) @ escape_like cs"

section \<open>Cursors\<close>

definition parse_digits :: "string \<Rightarrow> nat option" where
  "parse_digits s =
     (if s = [] \<or> \<not> list_all is_digit s then None else Some (foldl (\<lambda>n c. 10 * n + ((of_char c :: nat) - 48)) 0 s))"

definition parse_i64 :: "string \<Rightarrow> int option" where
  "parse_i64 s =
     (let (neg, ds) = (case s of
                         [] \<Rightarrow> (False, [])
                       | c # cs \<Rightarrow> if c = CHR ''-'' then (True, cs) else if c = CHR ''+'' then (False, cs) else (False, s))
      in case parse_digits ds of
           None \<Rightarrow> None
         | Some n \<Rightarrow>
             (let i = (if neg then - int n else int n) in if - (2 ^ 63) \<le> i \<and> i < 2 ^ 63 then Some i else None))"

definition parse_usize :: "string \<Rightarrow> nat option" where
  "parse_usize s =
     (case parse_digits (case s of c # cs \<Rightarrow> if c = CHR ''+'' then cs else s | [] \<Rightarrow> []) of
        None \<Rightarrow> None
      | Some n \<Rightarrow> if n < 2 ^ 64 then Some n else None)"

record cursor =
  cu_created_at :: int
  cu_hash :: hash

definition cursor_from_str :: "string \<Rightarrow> cursor option" where
  "cursor_from_str s =
     (case split_once CHR '':'' s of
        None \<Rightarrow> None
      | Some (time, h) \<Rightarrow>
          (case parse_i64 time of
             None \<Rightarrow> None
           | Some t \<Rightarrow> Some \<lparr>cu_created_at = t, cu_hash = h\<rparr>))"

definition cursor_to_string :: "cursor \<Rightarrow> string" where
  "cursor_to_string c = show_int (cu_created_at c) @ '':'' @ cu_hash c"

section \<open>Listing\<close>

definition summary_from_row :: "object_row \<Rightarrow> summary" where
  "summary_from_row r =
     \<lparr>sum_hash = row_hash r, sum_name = row_name r, sum_store_path = row_store_path r,
      sum_nar_size = row_nar_size r, sum_file_size = row_file_size r, sum_created_at = row_created_at r\<rparr>"

definition list_where :: "string option \<Rightarrow> int \<Rightarrow> hash \<Rightarrow> object_row \<Rightarrow> bool" where
  "list_where pattern after_time after_hash r =
     ((case pattern of None \<Rightarrow> True | Some p \<Rightarrow> like p (row_name r))
      \<and> (row_created_at r < after_time \<or> row_created_at r = after_time \<and> row_hash r > after_hash))"

definition list_objects :: "database \<Rightarrow> string option \<Rightarrow> nat \<Rightarrow> cursor option \<Rightarrow> page" where
  "list_objects d query limit cursor =
     (let limit = max 1 (min MAX_LIMIT limit);
          (after_time, after_hash) = (case cursor of Some c \<Rightarrow> (cu_created_at c, cu_hash c) | None \<Rightarrow> (2 ^ 63 - 1, []));
          pattern = map_option (\<lambda>q. ''%'' @ escape_like q @ ''%'') query;
          objects = map summary_from_row
            (take (limit + 1)
              (sort_key (\<lambda>r. (- row_created_at r, row_hash r)) (filter (list_where pattern after_time after_hash) (db_objects d))))
      in if length objects > limit then
           (let objects = take limit objects; l = last objects in
            \<lparr>page_objects = objects,
             page_next_cursor = Some (cursor_to_string \<lparr>cu_created_at = sum_created_at l, cu_hash = sum_hash l\<rparr>)\<rparr>)
         else \<lparr>page_objects = objects, page_next_cursor = None\<rparr>)"

section \<open>One object, referrers, pins\<close>

definition detail_of :: "object \<Rightarrow> object_detail" where
  "detail_of ob =
     \<lparr>det_store_path_hash = obj_store_path_hash ob, det_store_path = obj_store_path ob, det_name = obj_name ob,
      det_nar_hash = obj_nar_hash ob, det_nar_size = obj_nar_size ob, det_file_hash = obj_file_hash ob,
      det_file_size = obj_file_size ob, det_deriver = obj_deriver ob, det_ca = obj_ca ob,
      det_references = obj_references ob, det_sigs = obj_sigs ob, det_pushed_by = obj_pushed_by ob\<rparr>"

definition browse_object :: "(string \<Rightarrow> string list option) \<Rightarrow> database \<Rightarrow> hash \<Rightarrow> db_error + object_detail option" where
  "browse_object dec d h = map_sum id (map_option detail_of) (get_object dec d h)"

definition browse_referrers :: "database \<Rightarrow> hash \<Rightarrow> summary list" where
  "browse_referrers d h =
     map summary_from_row
       (sort_key row_name
         (concat (map (\<lambda>e. filter (\<lambda>r. row_hash r = fst e) (db_objects d))
                      (filter (\<lambda>e. reference_hash e = h \<and> fst e \<noteq> h) (db_refs d)))))"

definition browse_pins :: "database \<Rightarrow> pin list" where
  "browse_pins d =
     sort_key pin_name
       (concat (map (\<lambda>p. map (\<lambda>r. \<lparr>pin_name = pr_name p, pin_store_path_hash = pr_hash p, pin_store_path = row_store_path r,
                                     pin_expires_at = pr_expires_at p, pin_created_at = pr_created_at p\<rparr>)
                              (filter (\<lambda>r. row_hash r = pr_hash p) (db_objects d)))
                    (db_pins d)))"

section \<open>The dependency tree\<close>

definition TREE_DEPTH :: nat where "TREE_DEPTH = 64"

definition name_of :: "database \<Rightarrow> hash \<Rightarrow> string option" where
  "name_of d h = map_option row_name (find_row d h)"

text \<open>The child edges of a node: basename, hash, and whether the child is missing from the cache.\<close>

definition child_edges :: "database \<Rightarrow> hash \<Rightarrow> (string \<times> hash \<times> bool) list" where
  "child_edges d h =
     map (\<lambda>e. (snd e, reference_hash e, \<not> exists_object d (reference_hash e)))
       (sort_key snd (filter (\<lambda>e. fst e = h \<and> reference_hash e \<noteq> h) (db_refs d)))"

text \<open>The recursion over nodes and the loop over the edges of one node; both return the paths seen.\<close>

function (sequential) children_of :: "database \<Rightarrow> hash \<Rightarrow> hash set \<Rightarrow> nat \<Rightarrow> tree_node list \<times> hash set"
  and expand :: "database \<Rightarrow> nat \<Rightarrow> (string \<times> hash \<times> bool) list \<Rightarrow> hash set \<Rightarrow> tree_node list \<times> hash set" where
  "children_of d h seen 0 = ([], seen)"
| "children_of d h seen (Suc n) = expand d n (child_edges d h) seen"
| "expand d n [] seen = ([], seen)"
| "expand d n ((reference, child, absent) # es) seen =
     (let truncated = (child \<in> seen);
          (kids, seen2) = (if truncated \<or> absent then ([], insert child seen) else children_of d child (insert child seen) n);
          (rest, seen3) = expand d n es seen2
      in (TreeNode child reference absent truncated kids # rest, seen3))"
  by pat_completeness auto
termination
  by (relation "inv_image ({(a, b). a < b} <*lex*> {(a, b). a < b}) (case_sum (\<lambda>(d, h, seen, n). (n, 0 :: nat)) (\<lambda>(d, n, es, seen). (n, Suc (length es))))")
     (auto simp: wf_less)

definition tree :: "database \<Rightarrow> hash \<Rightarrow> nat \<Rightarrow> tree_node option" where
  "tree d h depth_limit =
     (case name_of d h of
        None \<Rightarrow> None
      | Some name \<Rightarrow> Some (TreeNode h name False False (fst (children_of d h {h} depth_limit))))"

section \<open>A search finds names that contain the text\<close>

lemma tails_iff: "t \<in> set (tails s) \<longleftrightarrow> (\<exists>a. s = a @ t)"
proof (induction s)
  case (Cons x s)
  then show ?case by (auto simp: Cons_eq_append_conv)
qed simp

lemma like_escape:
  "like (escape_like q @ ps) s \<longleftrightarrow> (\<exists>b c. s = b @ c \<and> map lower b = map lower q \<and> like ps c)"
proof (induction q arbitrary: s)
  case (Cons x q)
  have step: "like (escape_like (x # q) @ ps) s \<longleftrightarrow> (\<exists>y ys. s = y # ys \<and> lower y = lower x \<and> like (escape_like q @ ps) ys)"
    by (cases s) (auto simp: like.simps(2))
  also have "\<dots> \<longleftrightarrow> (\<exists>y b c. s = y # b @ c \<and> lower y = lower x \<and> map lower b = map lower q \<and> like ps c)"
    unfolding Cons.IH by blast
  also have "\<dots> \<longleftrightarrow> (\<exists>b c. s = b @ c \<and> map lower b = map lower (x # q) \<and> like ps c)"
  proof (intro iffI)
    assume "\<exists>y b c. s = y # b @ c \<and> lower y = lower x \<and> map lower b = map lower q \<and> like ps c"
    then obtain y b c where "s = (y # b) @ c" "map lower (y # b) = map lower (x # q)" "like ps c" by auto
    then show "\<exists>b c. s = b @ c \<and> map lower b = map lower (x # q) \<and> like ps c" by blast
  qed (auto simp: map_eq_Cons_conv; blast)
  finally show ?case .
qed simp

lemma like_contains:
  "like (''%'' @ escape_like q @ ''%'') s \<longleftrightarrow> (\<exists>a b c. s = a @ b @ c \<and> map lower b = map lower q)"
proof -
  have all: "like ''%'' c" for c by (auto simp: like.simps(2) list_ex_iff tails_iff)
  have "like (''%'' @ escape_like q @ ''%'') s \<longleftrightarrow> (\<exists>t. (\<exists>a. s = a @ t) \<and> like (escape_like q @ ''%'') t)"
    by (simp add: like.simps(2) list_ex_iff tails_iff Bex_def)
  then show ?thesis by (auto simp: like_escape all)
qed

section \<open>Cursors survive printing\<close>

lemma parse_digits_show_nat: "parse_digits (show_nat n) = Some n"
proof -
  have "foldl (\<lambda>n c. 10 * n + ((of_char c :: nat) - 48)) 0 (show_nat n) = n"
  proof (induction n rule: show_nat.induct)
    case (1 n)
    then show ?case by (subst show_nat.simps) (auto simp: of_digit_char)
  qed
  then show ?thesis by (simp add: parse_digits_def show_nat_digits)
qed

lemma show_nat_hd: "show_nat n = c # cs \<Longrightarrow> c \<noteq> CHR ''-'' \<and> c \<noteq> CHR ''+''"
  using show_nat_digits [of n] by (auto simp: is_digit_def Let_def)

lemma parse_i64_show_int:
  assumes "- (2 ^ 63) \<le> i" "i < 2 ^ 63"
  shows "parse_i64 (show_int i) = Some i"
proof (cases "i < 0")
  case True
  then show ?thesis using assms by (simp add: parse_i64_def show_int_def parse_digits_show_nat)
next
  case False
  obtain c cs where c: "show_nat (nat i) = c # cs" using show_nat_not_Nil by (meson neq_Nil_conv)
  show ?thesis using False assms parse_digits_show_nat [of "nat i"] show_nat_hd [OF c]
    by (simp add: parse_i64_def show_int_def c)
qed

lemma cursor_roundtrip:
  assumes "- (2 ^ 63) \<le> cu_created_at c" "cu_created_at c < 2 ^ 63"
  shows "cursor_from_str (cursor_to_string c) = Some c"
proof -
  have "CHR '':'' \<notin> set (show_int (cu_created_at c))"
    using show_int_chars [of "CHR '':''"] by (auto simp: is_digit_def Let_def)
  then have "split_once CHR '':'' (cursor_to_string c) = Some (show_int (cu_created_at c), cu_hash c)"
    by (simp add: split_once_Some cursor_to_string_def)
  then show ?thesis using parse_i64_show_int [OF assms] by (simp add: cursor_from_str_def)
qed

section \<open>Pagination\<close>

text \<open>The order of the listing, newest first, on rows, summaries and cursors.\<close>

definition row_key :: "object_row \<Rightarrow> int \<times> hash" where
  "row_key r = (- row_created_at r, row_hash r)"

definition sum_key :: "summary \<Rightarrow> int \<times> hash" where
  "sum_key x = (- sum_created_at x, sum_hash x)"

definition cursor_key :: "cursor option \<Rightarrow> int \<times> hash" where
  "cursor_key c = (case c of Some c \<Rightarrow> (- cu_created_at c, cu_hash c) | None \<Rightarrow> (- (2 ^ 63 - 1), []))"

definition matching :: "string option \<Rightarrow> object_row \<Rightarrow> bool" where
  "matching query r \<longleftrightarrow> (\<forall>q. query = Some q \<longrightarrow> (\<exists>a b c. row_name r = a @ b @ c \<and> map lower b = map lower q))"

definition eligible :: "database \<Rightarrow> string option \<Rightarrow> cursor option \<Rightarrow> object_row list" where
  "eligible d query c = sort_key row_key (filter (\<lambda>r. matching query r \<and> cursor_key c < row_key r) (db_objects d))"

definition page_size :: "nat \<Rightarrow> nat" where
  "page_size limit = max 1 (min MAX_LIMIT limit)"

lemma page_size_pos: "0 < page_size limit" by (simp add: page_size_def)

lemma sum_key_summary [simp]: "sum_key (summary_from_row r) = row_key r"
  by (simp add: sum_key_def summary_from_row_def row_key_def)

lemma list_objects_eligible:
  "list_objects d query limit c =
     (let rows = eligible d query c; n = page_size limit in
      if length rows > n then
        \<lparr>page_objects = map summary_from_row (take n rows),
         page_next_cursor = Some (cursor_to_string \<lparr>cu_created_at = row_created_at (rows ! (n - 1)), cu_hash = row_hash (rows ! (n - 1))\<rparr>)\<rparr>
      else \<lparr>page_objects = map summary_from_row rows, page_next_cursor = None\<rparr>)"
proof -
  have w: "list_where (map_option (\<lambda>q. ''%'' @ escape_like q @ ''%'') query) t h r
     \<longleftrightarrow> matching query r \<and> (- t, h) < row_key r" for t h r
    by (cases query) (auto simp: list_where_def matching_def row_key_def like_contains simp del: append.simps)
  have lst: "last (take n (map summary_from_row rows)) = summary_from_row (rows ! (n - 1))" if "length rows > n" "0 < n" for rows n
    using that by (subst last_conv_nth) (auto simp: min_def)
  obtain t h where th: "(case c of Some c \<Rightarrow> (cu_created_at c, cu_hash c) | None \<Rightarrow> (2 ^ 63 - 1, [])) = (t, h)" by fastforce
  then have key: "cursor_key c = (- t, h)" by (auto simp: cursor_key_def split: option.splits)
  have rows: "sort_key (\<lambda>r. (- row_created_at r, row_hash r))
      (filter (list_where (map_option (\<lambda>q. ''%'' @ escape_like q @ ''%'') query) t h) (db_objects d)) = eligible d query c"
  proof -
    have "list_where (map_option (\<lambda>q. ''%'' @ escape_like q @ ''%'') query) t h = (\<lambda>r. matching query r \<and> cursor_key c < row_key r)"
      using w unfolding key by (intro ext)
    moreover have "row_key = (\<lambda>r. (- row_created_at r, row_hash r))" by (intro ext) (rule row_key_def)
    ultimately show ?thesis by (simp only: eligible_def)
  qed
  show ?thesis
    unfolding list_objects_def th Let_def prod.case rows page_size_def [symmetric]
    using lst [of "page_size limit" "eligible d query c"] page_size_pos [of limit]
    by (simp add: take_map summary_from_row_def)
qed

text \<open>
  A client that follows the cursors; the listing is read from whatever the database is at each
  request. The flag says whether the last page was reached.
\<close>

fun walk :: "database list \<Rightarrow> string option \<Rightarrow> nat \<Rightarrow> cursor option \<Rightarrow> summary list \<times> bool" where
  "walk [] query limit c = ([], False)"
| "walk (d # ds) query limit c =
     (let p = list_objects d query limit c in
      case page_next_cursor p of
        None \<Rightarrow> (page_objects p, True)
      | Some s \<Rightarrow>
          (case cursor_from_str s of
             None \<Rightarrow> (page_objects p, False)
           | Some c' \<Rightarrow> (case walk ds query limit (Some c') of (xs, finished) \<Rightarrow> (page_objects p @ xs, finished))))"

text \<open>Timestamps are Unix seconds, inside \<^verbatim>\<open>i64\<close>.\<close>

definition times_ok :: "database \<Rightarrow> bool" where
  "times_ok d \<longleftrightarrow> distinct (map row_hash (db_objects d))
     \<and> (\<forall>r \<in> set (db_objects d). - (2 ^ 63) \<le> row_created_at r \<and> row_created_at r < 2 ^ 63 - 1)"

lemma eligible_set: "set (eligible d query c) = {r \<in> set (db_objects d). matching query r \<and> cursor_key c < row_key r}"
  by (simp add: eligible_def)

lemma eligible_sorted:
  assumes "times_ok d"
  shows "sorted_wrt (<) (map row_key (eligible d query c))"
proof -
  let ?rs = "filter (\<lambda>r. matching query r \<and> cursor_key c < row_key r) (db_objects d)"
  have "distinct (map row_hash (eligible d query c))"
  proof -
    have "distinct (map row_hash ?rs)" using assms distinct_map_filterI by (auto simp: times_ok_def)
    moreover have "mset (map row_hash (eligible d query c)) = mset (map row_hash ?rs)" by (simp add: eligible_def)
    ultimately show ?thesis by (metis mset_eq_imp_distinct_iff)
  qed
  then have "distinct (map snd (map row_key (eligible d query c)))"
    by (simp add: row_key_def comp_def)
  then have "distinct (map row_key (eligible d query c))" using distinct_map [of snd "map row_key (eligible d query c)"] by blast
  moreover have "sorted (map row_key (eligible d query c))" by (simp add: eligible_def)
  ultimately show ?thesis by (simp add: strict_sorted_iff)
qed

text \<open>What one page and the cursor it gives leave to the pages after it.\<close>

lemma page_split:
  assumes ok: "times_ok d" and more_pages: "page_next_cursor (list_objects d query limit c) = Some s"
  obtains c' where "cursor_from_str s = Some c'"
    and "page_objects (list_objects d query limit c) = map summary_from_row (take (page_size limit) (eligible d query c))"
    and "cursor_key c < cursor_key (Some c')"
    and "\<And>r. r \<in> set (take (page_size limit) (eligible d query c)) \<Longrightarrow> row_key r \<le> cursor_key (Some c')"
    and "\<And>r. r \<in> set (eligible d query c) \<Longrightarrow> row_key r \<le> cursor_key (Some c') \<Longrightarrow> r \<in> set (take (page_size limit) (eligible d query c))"
    and "page_size limit < length (eligible d query c)"
proof -
  let ?rows = "eligible d query c" and ?n = "page_size limit"
  let ?l = "?rows ! (?n - 1)"
  define c' where "c' = \<lparr>cu_created_at = row_created_at ?l, cu_hash = row_hash ?l\<rparr>"
  have len: "?n < length ?rows" and s: "s = cursor_to_string c'"
    and objs: "page_objects (list_objects d query limit c) = map summary_from_row (take ?n ?rows)"
    using more_pages by (auto simp: list_objects_eligible Let_def c'_def split: if_splits)
  have mem: "?l \<in> set ?rows" using len by (intro nth_mem) linarith
  then have "cursor_from_str s = Some c'"
    unfolding s using ok by (intro cursor_roundtrip) (auto simp: eligible_set times_ok_def c'_def)
  moreover have key: "cursor_key (Some c') = row_key ?l" by (simp add: cursor_key_def c'_def row_key_def)
  have sorted: "sorted_wrt (<) (map row_key ?rows)" by (rule eligible_sorted [OF ok])
  have mono: "row_key (?rows ! i) < row_key (?rows ! j)" if "i < j" "j < length ?rows" for i j
    using sorted that by (simp add: sorted_wrt_iff_nth_less)
  have "row_key r \<le> row_key ?l" if r: "r \<in> set (take ?n ?rows)" for r
  proof -
    obtain i where i: "i < ?n" "r = ?rows ! i" using r len by (auto simp: in_set_conv_nth)
    then show ?thesis using mono [of i "?n - 1"] len by (cases "i = ?n - 1") (auto intro: less_imp_le)
  qed
  moreover have "r \<in> set (take ?n ?rows)" if r: "r \<in> set ?rows" "row_key r \<le> row_key ?l" for r
  proof -
    obtain i where i: "i < length ?rows" "r = ?rows ! i" using r by (auto simp: in_set_conv_nth)
    have "i < ?n"
    proof (rule ccontr)
      assume "\<not> i < ?n"
      then have "row_key ?l < row_key r" using mono [of "?n - 1" i] i page_size_pos [of limit] by simp
      then show False using r(2) by simp
    qed
    then show ?thesis using i len by (auto simp: in_set_conv_nth intro!: exI [of _ i])
  qed
  moreover have "cursor_key c < row_key ?l" using mem by (simp add: eligible_set)
  ultimately show ?thesis using that [of c'] objs len unfolding key by blast
qed

lemma last_page:
  "page_next_cursor (list_objects d query limit c) = None \<Longrightarrow>
   page_objects (list_objects d query limit c) = map summary_from_row (eligible d query c)"
  by (auto simp: list_objects_eligible Let_def split: if_splits)

lemma walk_sorted:
  assumes "\<forall>d \<in> set ds. times_ok d" "walk ds query limit c = (xs, finished)"
  shows "sorted_wrt (<) (map sum_key xs) \<and> (\<forall>x \<in> set xs. cursor_key c < sum_key x)"
  using assms
proof (induction ds arbitrary: c xs finished)
  case (Cons d ds)
  have ok: "times_ok d" using Cons.prems(1) by simp
  have sorted: "sorted_wrt (<) (map (sum_key \<circ> summary_from_row) (eligible d query c))"
    using eligible_sorted [OF ok, of query c] by (simp add: comp_def)
  show ?case
  proof (cases "page_next_cursor (list_objects d query limit c)")
    case None
    then show ?thesis using Cons.prems(2) sorted by (auto simp: last_page eligible_set comp_def)
  next
    case (Some s)
    obtain c' where c': "cursor_from_str s = Some c'" "cursor_key c < cursor_key (Some c')"
      "page_objects (list_objects d query limit c) = map summary_from_row (take (page_size limit) (eligible d query c))"
      "\<And>r. r \<in> set (take (page_size limit) (eligible d query c)) \<Longrightarrow> row_key r \<le> cursor_key (Some c')"
      using page_split [OF ok Some] by metis
    obtain ys fin where ys: "walk ds query limit (Some c') = (ys, fin)" by fastforce
    have IH: "sorted_wrt (<) (map sum_key ys)" "\<forall>x \<in> set ys. cursor_key (Some c') < sum_key x"
      using Cons.IH [OF _ ys] Cons.prems(1) by simp_all
    have "sorted_wrt (<) (map row_key (take (page_size limit) (eligible d query c)))"
      using eligible_sorted [OF ok] by (metis sorted_wrt_take take_map)
    moreover have "cursor_key c < row_key r" if "r \<in> set (take (page_size limit) (eligible d query c))" for r
    proof -
      have "r \<in> set (eligible d query c)" using that by (rule in_set_takeD)
      then show ?thesis by (simp add: eligible_set)
    qed
    moreover have "row_key r < sum_key y" if "r \<in> set (take (page_size limit) (eligible d query c))" "y \<in> set ys" for r y
      using c'(4) [OF that(1)] IH(2) that(2) by (meson order_le_less_trans)
    moreover have "cursor_key c < sum_key y" if "y \<in> set ys" for y using c'(2) IH(2) that by (meson less_trans)
    moreover have "xs = map summary_from_row (take (page_size limit) (eligible d query c)) @ ys"
      using Cons.prems(2) Some c'(1,3) ys by simp
    ultimately show ?thesis using IH(1) by (auto simp: sorted_wrt_append comp_def)
  qed
qed simp

lemma walk_complete:
  assumes "\<forall>d \<in> set ds. times_ok d \<and> (\<exists>r \<in> set (db_objects d). matching query r \<and> row_key r = k)"
    "walk ds query limit c = (xs, True)" "cursor_key c < k"
  shows "\<exists>x \<in> set xs. sum_key x = k"
  using assms
proof (induction ds arbitrary: c xs)
  case (Cons d ds)
  have ok: "times_ok d" using Cons.prems(1) by simp
  obtain r where r: "r \<in> set (eligible d query c)" "row_key r = k"
    using Cons.prems(1,3) by (auto simp: eligible_set)
  show ?case
  proof (cases "page_next_cursor (list_objects d query limit c)")
    case None
    then show ?thesis using Cons.prems(2) r by (auto simp: last_page intro!: bexI [of _ r])
  next
    case (Some s)
    obtain c' where c': "cursor_from_str s = Some c'"
      "page_objects (list_objects d query limit c) = map summary_from_row (take (page_size limit) (eligible d query c))"
      "\<And>r. r \<in> set (eligible d query c) \<Longrightarrow> row_key r \<le> cursor_key (Some c') \<Longrightarrow> r \<in> set (take (page_size limit) (eligible d query c))"
      using page_split [OF ok Some] by metis
    obtain ys where ys: "walk ds query limit (Some c') = (ys, True)" "xs = map summary_from_row (take (page_size limit) (eligible d query c)) @ ys"
      using Cons.prems(2) Some c' by (auto split: prod.splits)
    show ?thesis
    proof (cases "k \<le> cursor_key (Some c')")
      case True
      then have "r \<in> set (take (page_size limit) (eligible d query c))" using c'(3) r by simp
      then show ?thesis unfolding ys(2) using r(2) by force
    next
      case False
      then have "\<exists>x \<in> set ys. sum_key x = k" using Cons.IH [OF _ ys(1)] Cons.prems(1) by (simp add: not_le)
      then show ?thesis unfolding ys(2) by auto
    qed
  qed
qed simp

lemma walk_sound:
  "walk ds query limit c = (xs, finished) \<Longrightarrow> x \<in> set xs \<Longrightarrow>
   \<exists>d \<in> set ds. \<exists>r \<in> set (db_objects d). matching query r \<and> x = summary_from_row r"
proof (induction ds arbitrary: c xs finished)
  case (Cons d ds)
  have page: "\<exists>r \<in> set (db_objects d). matching query r \<and> y = summary_from_row r" if y: "y \<in> set (page_objects (list_objects d query limit c))" for y
  proof -
    have "\<exists>r \<in> set (eligible d query c). y = summary_from_row r"
    proof (cases "length (eligible d query c) > page_size limit")
      case True
      then obtain r where "r \<in> set (take (page_size limit) (eligible d query c))" "y = summary_from_row r"
        using y by (auto simp: list_objects_eligible Let_def)
      then show ?thesis using in_set_takeD [of r "page_size limit" "eligible d query c"] by blast
    next
      case False
      then show ?thesis using y by (auto simp: list_objects_eligible Let_def)
    qed
    then show ?thesis by (auto simp: eligible_set)
  qed
  show ?case
  proof (cases "Option.bind (page_next_cursor (list_objects d query limit c)) cursor_from_str")
    case None
    then have "xs = page_objects (list_objects d query limit c)"
      using Cons.prems(1) by (auto simp: Let_def split: option.splits)
    then show ?thesis using Cons.prems(2) page by auto
  next
    case (Some c')
    obtain ys fin where "walk ds query limit (Some c') = (ys, fin)" by fastforce
    then show ?thesis using Cons.prems Cons.IH [of "Some c'" ys fin] page Some by (fastforce simp: bind_eq_Some_conv)
  qed
qed simp

lemma eligible_next:
  assumes "times_ok d" "page_next_cursor (list_objects d query limit c) = Some s" "cursor_from_str s = Some c'"
  shows "eligible d query (Some c') = drop (page_size limit) (eligible d query c)"
proof -
  let ?e = "eligible d query c" and ?n = "page_size limit"
  have c': "cursor_key c < cursor_key (Some c')"
    "\<And>r. r \<in> set (take ?n ?e) \<Longrightarrow> row_key r \<le> cursor_key (Some c')"
    "\<And>r. r \<in> set ?e \<Longrightarrow> row_key r \<le> cursor_key (Some c') \<Longrightarrow> r \<in> set (take ?n ?e)"
    using page_split [OF assms(1,2)] assms(3) by (metis option.inject)+
  have "distinct (map row_key ?e)" using eligible_sorted [OF assms(1)] by (simp add: strict_sorted_iff)
  then have "distinct ?e" using distinct_map by blast
  then have disj: "set (take ?n ?e) \<inter> set (drop ?n ?e) = {}" by (simp add: set_take_disj_set_drop_if_distinct)
  have "eligible d query (Some c') = filter (\<lambda>r. cursor_key (Some c') < row_key r) ?e"
    unfolding eligible_def filter_sort [symmetric] filter_filter
    using c'(1) by (intro filter_cong) (auto intro: less_trans)
  also have "\<dots> = filter (\<lambda>r. cursor_key (Some c') < row_key r) (take ?n ?e) @ filter (\<lambda>r. cursor_key (Some c') < row_key r) (drop ?n ?e)"
    by (metis append_take_drop_id filter_append)
  also have "filter (\<lambda>r. cursor_key (Some c') < row_key r) (take ?n ?e) = []"
    using c'(2) by (fastforce simp: filter_empty_conv)
  also have "filter (\<lambda>r. cursor_key (Some c') < row_key r) (drop ?n ?e) = drop ?n ?e"
    using c'(3) disj in_set_dropD [of _ ?n ?e] by (fastforce simp: filter_id_conv not_le [symmetric])
  finally show ?thesis by simp
qed

lemma walk_ends:
  assumes "times_ok d" "length (eligible d query c) \<le> n * page_size limit" "0 < n"
  shows "walk (replicate n d) query limit c = (map summary_from_row (eligible d query c), True)"
  using assms(2,3)
proof (induction n arbitrary: c)
  case (Suc n)
  show ?case
  proof (cases "page_next_cursor (list_objects d query limit c)")
    case None
    then show ?thesis by (simp add: last_page)
  next
    case (Some s)
    obtain c' where c': "cursor_from_str s = Some c'"
      "page_objects (list_objects d query limit c) = map summary_from_row (take (page_size limit) (eligible d query c))"
      "page_size limit < length (eligible d query c)"
      using page_split [OF assms(1) Some] by metis
    note rest = eligible_next [OF assms(1) Some c'(1)]
    have "0 < n" using Suc.prems(1) c'(3) by (cases n) simp_all
    then have "walk (replicate n d) query limit (Some c') = (map summary_from_row (eligible d query (Some c')), True)"
      using Suc.prems(1) rest by (intro Suc.IH) simp_all
    then show ?thesis using Some c' rest by (simp add: map_append [symmetric])
  qed
qed simp

text \<open>
  C19. A client that follows the listing's cursors sees every object once, newest first, however
  the database changes between its requests: what it collects is strictly ordered by age and hash,
  so nothing repeats; every entry is a row that was there and whose name contains the search text
  (ignoring the case of ASCII letters); an object that is there throughout is not skipped when the
  last page is reached. On a database that stays as it is, the last page is reached after as many
  requests as the page size needs, and the pages together are the whole sorted list.
\<close>

theorem pages_list_each_object_once:
  assumes "\<forall>d \<in> set ds. times_ok d" "walk ds query limit None = (xs, finished)"
  shows "sorted_wrt (<) (map sum_key xs)
    \<and> (\<forall>x \<in> set xs. \<exists>d \<in> set ds. \<exists>r \<in> set (db_objects d). x = summary_from_row r
         \<and> (\<forall>q. query = Some q \<longrightarrow> (\<exists>a b c. row_name r = a @ b @ c \<and> map lower b = map lower q)))
    \<and> (\<forall>h t. finished \<longrightarrow>
         (\<forall>d \<in> set ds. \<exists>r \<in> set (db_objects d). row_hash r = h \<and> row_created_at r = t \<and> matching query r) \<longrightarrow>
         (\<exists>x \<in> set xs. sum_hash x = h \<and> sum_created_at x = t))
    \<and> (\<forall>n d. ds = replicate n d \<longrightarrow> 0 < n \<longrightarrow> length (filter (matching query) (db_objects d)) \<le> n * max 1 (min MAX_LIMIT limit) \<longrightarrow>
         finished \<and> xs = map summary_from_row (sort_key row_key (filter (matching query) (db_objects d))))"
proof (intro conjI allI impI)
  show "sorted_wrt (<) (map sum_key xs)" using walk_sorted [OF assms] by simp
  show "\<forall>x \<in> set xs. \<exists>d \<in> set ds. \<exists>r \<in> set (db_objects d). x = summary_from_row r
      \<and> (\<forall>q. query = Some q \<longrightarrow> (\<exists>a b c. row_name r = a @ b @ c \<and> map lower b = map lower q))"
    using walk_sound [OF assms(2)] unfolding matching_def by blast
next
  fix h t
  assume fin: "finished" and there: "\<forall>d \<in> set ds. \<exists>r \<in> set (db_objects d). row_hash r = h \<and> row_created_at r = t \<and> matching query r"
  have "ds \<noteq> []" using assms(2) fin by (cases ds) simp_all
  then obtain d where d: "d \<in> set ds" by (meson last_in_set)
  then have "t < 2 ^ 63 - 1" using there assms(1) by (fastforce simp: times_ok_def)
  then have "cursor_key None < (- t, h)" by (simp add: cursor_key_def)
  moreover have "\<forall>d \<in> set ds. times_ok d \<and> (\<exists>r \<in> set (db_objects d). matching query r \<and> row_key r = (- t, h))"
    using assms(1) there by (fastforce simp: row_key_def)
  ultimately have "\<exists>x \<in> set xs. sum_key x = (- t, h)"
    using walk_complete [of ds query "(- t, h)" limit None xs] assms(2) fin by simp
  then show "\<exists>x \<in> set xs. sum_hash x = h \<and> sum_created_at x = t" by (auto simp: sum_key_def)
next
  fix n d
  assume d: "ds = replicate n d" "0 < n" "length (filter (matching query) (db_objects d)) \<le> n * max 1 (min MAX_LIMIT limit)"
  then have ok: "times_ok d" using assms(1) by simp
  have "filter (\<lambda>r. matching query r \<and> cursor_key None < row_key r) (db_objects d) = filter (matching query) (db_objects d)"
    using ok by (intro filter_cong) (auto simp: times_ok_def cursor_key_def row_key_def)
  then have e: "eligible d query None = sort_key row_key (filter (matching query) (db_objects d))" by (simp add: eligible_def)
  have "walk (replicate n d) query limit None = (map summary_from_row (eligible d query None), True)"
    using d ok by (intro walk_ends) (simp_all add: e page_size_def)
  then show "finished" "xs = map summary_from_row (sort_key row_key (filter (matching query) (db_objects d)))"
    using assms(2) d(1) e by simp_all
qed

theorem pages_list_each_object_once_witness:
  "fst (walk (replicate 1 (one_object_db (rep_hash CHR ''a'') 7)) (Some ''HIN'') 1 None)
     = map summary_from_row (db_objects (one_object_db (rep_hash CHR ''a'') 7))"
proof -
  let ?d = "one_object_db (rep_hash CHR ''a'') 7"
  obtain xs fin where w: "walk (replicate 1 ?d) (Some ''HIN'') 1 None = (xs, fin)" by fastforce
  have "matching (Some ''HIN'') r" if "row_name r = ''thing''" for r
    unfolding matching_def that option.inject
    by (intro allI impI, rule exI [of _ "''t''"], rule exI [of _ "''hin''"], rule exI [of _ "''g''"]) (simp, code_simp)
  then have m: "filter (matching (Some ''HIN'')) (db_objects ?d) = db_objects ?d"
    by (simp add: one_object_db_def row_of_object_def fixture_object_def)
  have "\<forall>d \<in> set (replicate 1 ?d). times_ok d"
    by (simp add: times_ok_def one_object_db_def row_of_object_def)
  note once = pages_list_each_object_once [OF this w, THEN conjunct2, THEN conjunct2, THEN conjunct2, rule_format, of 1 ?d]
  have "length (db_objects ?d) \<le> 1 * max 1 (min MAX_LIMIT 1)" by (simp add: one_object_db_def)
  then have "xs = map summary_from_row (sort_key row_key (db_objects ?d))"
    using once unfolding m by simp
  then show ?thesis unfolding w by (simp add: one_object_db_def)
qed

section \<open>The tree is bounded\<close>

fun tree_nodes :: "tree_node \<Rightarrow> tree_node list" where
  "tree_nodes (TreeNode h n m t kids) = TreeNode h n m t kids # concat (map tree_nodes kids)"

text \<open>The hashes of the nodes that are not repeats.\<close>

definition first_seen_hashes :: "tree_node list \<Rightarrow> hash list" where
  "first_seen_hashes ts = map tree_hash (filter (\<lambda>t. \<not> tree_truncated t) (concat (map tree_nodes ts)))"

definition edges_from :: "database \<Rightarrow> hash set \<Rightarrow> nat" where
  "edges_from d S = length (filter (\<lambda>e. fst e \<in> S \<and> reference_hash e \<noteq> fst e) (db_refs d))"

definition grows :: "database \<Rightarrow> hash set \<Rightarrow> tree_node list \<times> hash set \<Rightarrow> nat \<Rightarrow> bool" where
  "grows d seen r own \<longleftrightarrow> seen \<subseteq> snd r \<and> distinct (first_seen_hashes (fst r)) \<and> set (first_seen_hashes (fst r)) = snd r - seen
     \<and> length (concat (map tree_nodes (fst r))) \<le> own + edges_from d (snd r - seen)"

text \<open>A node shows exactly the references of its object, unless it is a repeat, missing or at the depth limit.\<close>

fun shows_refs :: "database \<Rightarrow> nat \<Rightarrow> tree_node \<Rightarrow> bool" where
  "shows_refs d n (TreeNode h name absent truncated kids) \<longleftrightarrow>
     (absent \<longleftrightarrow> \<not> exists_object d h)
   \<and> (if truncated \<or> absent \<or> n = 0 then kids = []
      else map (\<lambda>k. (tree_name k, tree_hash k, tree_missing k)) kids = child_edges d h \<and> (\<forall>k \<in> set kids. shows_refs d (n - 1) k))"

lemma edges_from_Un: "A \<inter> B = {} \<Longrightarrow> edges_from d (A \<union> B) = edges_from d A + edges_from d B"
proof -
  assume disj: "A \<inter> B = {}"
  have "length (filter (\<lambda>e. fst e \<in> A \<union> B \<and> P e) xs) = length (filter (\<lambda>e. fst e \<in> A \<and> P e) xs) + length (filter (\<lambda>e. fst e \<in> B \<and> P e) xs)"
    for P and xs :: "ref_row list"
    using disj by (induction xs) auto
  then show ?thesis unfolding edges_from_def .
qed

lemma edges_from_mono: "A \<subseteq> B \<Longrightarrow> edges_from d A \<le> edges_from d B"
  using edges_from_Un [of A "B - A" d] by (simp add: Un_absorb1)

lemma edges_from_le: "edges_from d S \<le> length (db_refs d)"
  by (simp add: edges_from_def)

lemma length_child_edges: "length (child_edges d h) = edges_from d {h}"
  unfolding child_edges_def edges_from_def by (auto intro!: arg_cong [of _ _ length] filter_cong)

lemma first_seen_hashes_simps [simp]:
  "first_seen_hashes [] = []"
  "first_seen_hashes (TreeNode h n m t kids # ts) = (if t then [] else [h]) @ first_seen_hashes kids @ first_seen_hashes ts"
  by (simp_all add: first_seen_hashes_def)

lemma expand_grows:
  assumes "\<And>h seen. h \<in> seen \<Longrightarrow> grows d seen (children_of d h seen n) (edges_from d {h})"
  shows "grows d seen (expand d n es seen) (length es)"
proof (induction es arbitrary: seen)
  case (Cons e es)
  obtain r c a where e: "e = (r, c, a)" by (cases e)
  let ?leaf = "c \<in> seen \<or> a"
  define kids where "kids = (if ?leaf then ([], insert c seen) else children_of d c (insert c seen) n)"
  define rest where "rest = expand d n es (snd kids)"
  have res: "expand d n (e # es) seen = (TreeNode c r a (c \<in> seen) (fst kids) # fst rest, snd rest)"
    by (simp add: e kids_def rest_def Let_def split: prod.splits)
  have g: "grows d (snd kids) rest (length es)" unfolding rest_def by (rule Cons.IH)
  show ?case
  proof (cases ?leaf)
    case True
    then have k: "kids = ([], insert c seen)" by (simp add: kids_def)
    have "edges_from d (snd rest - insert c seen) \<le> edges_from d (snd rest - seen)"
      by (rule edges_from_mono) auto
    then show ?thesis using g unfolding res grows_def k by (cases "c \<in> seen") (auto simp: insert_absorb)
  next
    case False
    then have k: "kids = children_of d c (insert c seen) n" by (simp add: kids_def)
    have g1: "grows d (insert c seen) kids (edges_from d {c})" unfolding k by (rule assms) simp
    have sets: "snd rest - seen = {c} \<union> (snd kids - insert c seen) \<union> (snd rest - snd kids)"
      using g g1 False by (auto simp: grows_def)
    have "edges_from d (snd rest - seen) = edges_from d {c} + edges_from d (snd kids - insert c seen) + edges_from d (snd rest - snd kids)"
    proof -
      have "({c} \<union> (snd kids - insert c seen)) \<inter> (snd rest - snd kids) = {}" "{c} \<inter> (snd kids - insert c seen) = {}"
        using g1 by (auto simp: grows_def)
      then show ?thesis unfolding sets by (simp only: edges_from_Un)
    qed
    moreover have "set (first_seen_hashes (fst kids)) = snd kids - insert c seen" "set (first_seen_hashes (fst rest)) = snd rest - snd kids"
      "insert c seen \<subseteq> snd kids" "snd kids \<subseteq> snd rest"
      using g g1 by (simp_all add: grows_def)
    ultimately show ?thesis using g g1 False unfolding res grows_def by simp blast
  qed
qed (simp add: grows_def)

lemma children_of_grows: "h \<in> seen \<Longrightarrow> grows d seen (children_of d h seen n) (edges_from d {h})"
proof (induction n arbitrary: h seen)
  case (Suc n)
  then show ?case using expand_grows [of d n seen "child_edges d h"] by (simp add: length_child_edges)
qed (simp add: grows_def)

lemma expand_shows:
  assumes "\<And>h seen name. exists_object d h \<Longrightarrow> shows_refs d n (TreeNode h name False False (fst (children_of d h seen n)))"
    and "\<forall>(r, c, a) \<in> set es. a \<longleftrightarrow> \<not> exists_object d c"
  shows "map (\<lambda>k. (tree_name k, tree_hash k, tree_missing k)) (fst (expand d n es seen)) = es
    \<and> (\<forall>k \<in> set (fst (expand d n es seen)). shows_refs d n k)"
  using assms(2)
proof (induction es arbitrary: seen)
  case (Cons e es)
  obtain r c a where e: "e = (r, c, a)" by (cases e)
  have "shows_refs d n (TreeNode c r False False (fst (children_of d c (insert c seen) n)))" if "exists_object d c"
    by (rule assms(1) [OF that])
  then have "shows_refs d n (TreeNode c r a (c \<in> seen) (fst (if c \<in> seen \<or> a then ([], insert c seen) else children_of d c (insert c seen) n)))"
    using Cons.prems e by auto
  moreover obtain kids seen2 where k: "(if c \<in> seen \<or> a then ([], insert c seen) else children_of d c (insert c seen) n) = (kids, seen2)" by fastforce
  moreover have "fst (expand d n (e # es) seen) = TreeNode c r a (c \<in> seen) kids # fst (expand d n es seen2)"
    unfolding e expand.simps Let_def k by (simp add: case_prod_beta)
  moreover have "\<forall>(r, c, a) \<in> set es. a \<longleftrightarrow> \<not> exists_object d c" using Cons.prems by simp
  ultimately show ?case using Cons.IH [of seen2] unfolding e k by (simp del: shows_refs.simps)
qed simp

lemma children_of_shows:
  "exists_object d h \<Longrightarrow> shows_refs d n (TreeNode h name False False (fst (children_of d h seen n)))"
proof (induction n arbitrary: h seen name)
  case (Suc n)
  have "\<forall>(r, c, a) \<in> set (child_edges d h). a \<longleftrightarrow> \<not> exists_object d c" by (auto simp: child_edges_def)
  then show ?case using expand_shows [OF Suc.IH] Suc.prems by simp
qed simp



end
