(* ===== verification/Config.thy ===== *)
theory Config
  imports Complex_Main Storage
begin

text \<open>
  \<^verbatim>\<open>crates/garret-server/src/config.rs\<close>: the services' settings and what is refused at start-up. Parsing
  TOML, reading the file and parsing a URL are parameters. A watermark is an IEEE double, which
  TOML can give as an infinity or as not-a-number; a comparison with the latter is false.
\<close>

section \<open>Settings\<close>

datatype f64 = NaN | Infinity bool | Finite rat

fun f64_less :: "f64 \<Rightarrow> f64 \<Rightarrow> bool" where
  "f64_less NaN _ = False"
| "f64_less _ NaN = False"
| "f64_less (Infinity pos) y = (\<not> pos \<and> y \<noteq> Infinity False)"
| "f64_less (Finite x) (Infinity pos) = pos"
| "f64_less (Finite x) (Finite y) = (x < y)"

definition f64_le :: "f64 \<Rightarrow> f64 \<Rightarrow> bool" where
  "f64_le x y = (x \<noteq> NaN \<and> (f64_less x y \<or> x = y))"

record s3_config =
  s3c_bucket :: string
  s3c_endpoint_url :: "string option"
  s3c_region :: "string option"
  s3c_path_style :: bool
  s3c_access_key_id :: "string option"
  s3c_secret_access_key :: "string option"
  s3c_operation_timeout_secs :: nat
  s3c_operation_attempt_timeout_secs :: "nat option"
  s3c_sign_payload :: bool

record issuer_config =
  ic_issuer :: string
  ic_audience :: string
  ic_extra_audiences :: "string list"
  ic_client_id :: "string option"
  ic_jwks_url :: "string option"
  ic_github_owner_id :: "string option"
  ic_ref_patterns :: "string list"
  ic_ref_protected :: "bool option"
  ic_repository_ids :: "string list"
  ic_event_names :: "string list"
  ic_job_workflow_refs :: "string list"
  ic_allowed_groups :: "string list"

record limits =
  lim_max_concurrent_uploads :: nat
  lim_max_in_flight_bytes :: nat
  lim_part_size :: nat
  lim_max_parts_in_flight :: nat
  lim_body_idle_timeout_secs :: nat

record quota_config =
  qc_quota_bytes :: nat
  qc_high_watermark :: f64
  qc_low_watermark :: f64
  qc_interval_secs :: nat
  qc_orphan_grace_secs :: nat

record pusher_config =
  pc_listen :: string
  pc_db_path :: string
  pc_s3 :: s3_config
  pc_store_dir :: string
  pc_signing_key_files :: "string list"
  pc_puller_endpoint :: "string option"
  pc_oidc :: "issuer_config list"
  pc_limits :: limits
  pc_gc :: "quota_config option"
  pc_admin_socket :: "string option"
  pc_metrics_listen :: string

record puller_config =
  uc_listen :: string
  uc_db_path :: string
  uc_s3 :: s3_config
  uc_store_dir :: string
  uc_presign_ttl_secs :: nat
  uc_metrics_listen :: string
  uc_browse_oidc :: "issuer_config option"
  uc_bump_debounce_secs :: int
  uc_db_wait_timeout_secs :: nat
  uc_db_read_budget_ms :: nat
  uc_presign_budget_ms :: nat

text \<open>The defaults.\<close>

definition s3_operation_timeout :: nat where "s3_operation_timeout = 60"
definition store_dir :: string where "store_dir = ''/nix/store''"
definition pusher_listen :: string where "pusher_listen = ''127.0.0.1:8080''"
definition puller_listen :: string where "puller_listen = ''127.0.0.1:8081''"
definition pusher_metrics_listen :: string where "pusher_metrics_listen = ''127.0.0.1:9091''"
definition puller_metrics_listen :: string where "puller_metrics_listen = ''127.0.0.1:9092''"
definition high_watermark :: f64 where "high_watermark = Finite (95 / 100)"
definition low_watermark :: f64 where "low_watermark = Finite (85 / 100)"
definition gc_interval :: nat where "gc_interval = 300"
definition orphan_grace :: nat where "orphan_grace = 24 * 60 * 60"
definition db_wait_timeout :: nat where "db_wait_timeout = 300"
definition db_read_budget :: nat where "db_read_budget = 250"
definition presign_budget :: nat where "presign_budget = 250"
definition bump_debounce :: int where "bump_debounce = 24 * 60 * 60"
definition presign_ttl :: nat where "presign_ttl = 3600"

definition default_limits :: limits where
  "default_limits = \<lparr>lim_max_concurrent_uploads = 16, lim_max_in_flight_bytes = 256 * 1024 * 1024,
     lim_part_size = 16 * 1024 * 1024, lim_max_parts_in_flight = 4, lim_body_idle_timeout_secs = 60\<rparr>"

text \<open>A settings file that gives only what has no default.\<close>

definition default_s3 :: "string \<Rightarrow> s3_config" where
  "default_s3 bucket = \<lparr>s3c_bucket = bucket, s3c_endpoint_url = None, s3c_region = None, s3c_path_style = True,
     s3c_access_key_id = None, s3c_secret_access_key = None, s3c_operation_timeout_secs = s3_operation_timeout,
     s3c_operation_attempt_timeout_secs = None, s3c_sign_payload = False\<rparr>"

definition default_quota :: "nat \<Rightarrow> quota_config" where
  "default_quota bytes = \<lparr>qc_quota_bytes = bytes, qc_high_watermark = high_watermark, qc_low_watermark = low_watermark,
     qc_interval_secs = gc_interval, qc_orphan_grace_secs = orphan_grace\<rparr>"

definition default_pusher :: "string \<Rightarrow> s3_config \<Rightarrow> string list \<Rightarrow> issuer_config list \<Rightarrow> pusher_config" where
  "default_pusher db s3 keys issuers = \<lparr>pc_listen = pusher_listen, pc_db_path = db, pc_s3 = s3, pc_store_dir = store_dir,
     pc_signing_key_files = keys, pc_puller_endpoint = None, pc_oidc = issuers, pc_limits = default_limits,
     pc_gc = None, pc_admin_socket = None, pc_metrics_listen = pusher_metrics_listen\<rparr>"

definition default_puller :: "string \<Rightarrow> s3_config \<Rightarrow> puller_config" where
  "default_puller db s3 = \<lparr>uc_listen = puller_listen, uc_db_path = db, uc_s3 = s3, uc_store_dir = store_dir,
     uc_presign_ttl_secs = presign_ttl, uc_metrics_listen = puller_metrics_listen, uc_browse_oidc = None,
     uc_bump_debounce_secs = bump_debounce, uc_db_wait_timeout_secs = db_wait_timeout,
     uc_db_read_budget_ms = db_read_budget, uc_presign_budget_ms = presign_budget\<rparr>"

section \<open>Checks\<close>

text \<open>A refusal names the key.\<close>

datatype config_key =
    KeyCredentials
  | KeyOperationTimeout
  | KeyAttemptTimeout
  | KeyAudience string
  | KeyGithubScope
  | KeyUrl string string
  | KeyPartSize
  | KeyMaxInFlight
  | KeyMaxUploads
  | KeyMaxParts
  | KeyBodyIdle
  | KeyQuota
  | KeyInterval
  | KeyHighWatermark
  | KeyLowWatermark
  | KeyWatermarkOrder
  | KeyOidc
  | KeyPresignTtl
  | KeyReadBudget
  | KeyPresignBudget
  | KeyDebounce
  | KeyDbWait

datatype config_error = Unreadable string | Unparsable string | BadKey config_key

text \<open>\<^verbatim>\<open>if cond { bail!(key) }\<close>, in sequence.\<close>

fun refuse_first :: "(bool \<times> config_key) list \<Rightarrow> config_error + unit" where
  "refuse_first [] = Inr ()"
| "refuse_first ((bad, k) # cs) = (if bad then Inl (BadKey k) else refuse_first cs)"

definition s3_checks :: "s3_config \<Rightarrow> (bool \<times> config_key) list" where
  "s3_checks c =
     [((s3c_access_key_id c \<noteq> None) \<noteq> (s3c_secret_access_key c \<noteq> None), KeyCredentials),
      (s3c_operation_timeout_secs c = 0, KeyOperationTimeout),
      ((case s3c_operation_attempt_timeout_secs c of
          None \<Rightarrow> False
        | Some a \<Rightarrow> a = 0 \<or> a \<ge> s3c_operation_timeout_secs c), KeyAttemptTimeout)]"

definition s3_validate :: "s3_config \<Rightarrow> config_error + unit" where
  "s3_validate c = refuse_first (s3_checks c)"

definition GITHUB_ISSUER :: string where "GITHUB_ISSUER = ''https://token.actions.githubusercontent.com''"

definition is_remote_url :: "string \<Rightarrow> bool" where
  "is_remote_url url = (strip_prefix ''http://'' url \<noteq> None \<or> strip_prefix ''https://'' url \<noteq> None)"

text \<open>\<^verbatim>\<open>reqwest::Url::parse\<close> gives the scheme and the host.\<close>

type_synonym url_parser = "string \<Rightarrow> (string \<times> string option) option"

definition check_remote_url :: "url_parser \<Rightarrow> string \<Rightarrow> bool" where
  "check_remote_url parse url =
     (case parse url of
        None \<Rightarrow> False
      | Some (scheme, host) \<Rightarrow>
          scheme = ''https'' \<and> host \<noteq> None
          \<or> scheme = ''http'' \<and> host \<in> Some ` {''localhost'', ''127.0.0.1'', ''[::1]''})"

definition issuer_checks :: "url_parser \<Rightarrow> issuer_config \<Rightarrow> (bool \<times> config_key) list" where
  "issuer_checks parse c =
     [(ic_audience c = [], KeyAudience (ic_issuer c)),
      (ic_issuer c = GITHUB_ISSUER \<and> ic_github_owner_id c = None \<and> ic_repository_ids c = [], KeyGithubScope),
      (case ic_jwks_url c of
         Some url \<Rightarrow> (is_remote_url url \<and> \<not> check_remote_url parse url, KeyUrl (ic_issuer c) url)
       | None \<Rightarrow> (\<not> check_remote_url parse (ic_issuer c), KeyUrl (ic_issuer c) (ic_issuer c)))]"

definition issuer_validate :: "url_parser \<Rightarrow> issuer_config \<Rightarrow> config_error + unit" where
  "issuer_validate parse c = refuse_first (issuer_checks parse c)"

definition MIN_PART_SIZE :: nat where "MIN_PART_SIZE = 5 * 1024 * 1024"
definition MAX_PART_SIZE :: nat where "MAX_PART_SIZE = 5 * 1024 * 1024 * 1024"

definition in_range :: "f64 \<Rightarrow> bool" where
  "in_range w = (f64_less (Finite 0) w \<and> f64_le w (Finite 1))"

definition quota_checks :: "quota_config \<Rightarrow> (bool \<times> config_key) list" where
  "quota_checks g =
     [(qc_quota_bytes g = 0, KeyQuota),
      (qc_interval_secs g = 0, KeyInterval),
      (\<not> in_range (qc_high_watermark g), KeyHighWatermark),
      (\<not> in_range (qc_low_watermark g), KeyLowWatermark),
      (f64_le (qc_high_watermark g) (qc_low_watermark g), KeyWatermarkOrder)]"

definition pusher_validate :: "url_parser \<Rightarrow> pusher_config \<Rightarrow> config_error + unit" where
  "pusher_validate parse c =
     (let l = pc_limits c in
      refuse_first
        ([(\<not> (MIN_PART_SIZE \<le> lim_part_size l \<and> lim_part_size l \<le> MAX_PART_SIZE), KeyPartSize),
          (lim_max_in_flight_bytes l < lim_part_size l, KeyMaxInFlight),
          (lim_max_concurrent_uploads l = 0, KeyMaxUploads),
          (lim_max_parts_in_flight l = 0, KeyMaxParts)]
         @ s3_checks (pc_s3 c)
         @ [(lim_body_idle_timeout_secs l = 0, KeyBodyIdle)]
         @ (case pc_gc c of None \<Rightarrow> [] | Some g \<Rightarrow> quota_checks g)
         @ [(pc_oidc c = [], KeyOidc)]
         @ concat (map (issuer_checks parse) (pc_oidc c))))"

definition puller_validate :: "url_parser \<Rightarrow> puller_config \<Rightarrow> config_error + unit" where
  "puller_validate parse c =
     refuse_first
       (s3_checks (uc_s3 c)
        @ [(\<not> (1 \<le> uc_presign_ttl_secs c \<and> uc_presign_ttl_secs c \<le> 604800), KeyPresignTtl),
           (uc_db_read_budget_ms c = 0, KeyReadBudget),
           (uc_presign_budget_ms c = 0, KeyPresignBudget),
           (uc_bump_debounce_secs c < 0, KeyDebounce),
           (uc_db_wait_timeout_secs c = 0, KeyDbWait)]
        @ (case uc_browse_oidc c of None \<Rightarrow> [] | Some i \<Rightarrow> issuer_checks parse i))"

text \<open>Reading, parsing and checking, for any service.\<close>

definition load :: "(string \<Rightarrow> string option) \<Rightarrow> (string \<Rightarrow> 'c option) \<Rightarrow> ('c \<Rightarrow> config_error + unit) \<Rightarrow> string \<Rightarrow> config_error + 'c" where
  "load read_file from_str validate path =
     (case read_file path of
        None \<Rightarrow> Inl (Unreadable path)
      | Some text \<Rightarrow>
          (case from_str text of
             None \<Rightarrow> Inl (Unparsable path)
           | Some c \<Rightarrow> (case validate c of Inl e \<Rightarrow> Inl e | Inr _ \<Rightarrow> Inr c)))"

text \<open>
  The two thresholds: the quota as a double times the watermark, truncated to a 64-bit integer.
  Rounding to a double is a parameter.
\<close>

definition I64_MAX :: int where "I64_MAX = 2 ^ 63 - 1"

definition threshold :: "(rat \<Rightarrow> rat) \<Rightarrow> nat \<Rightarrow> f64 \<Rightarrow> int" where
  "threshold rnd quota w =
     (case w of
        Finite x \<Rightarrow> max (- I64_MAX - 1) (min I64_MAX (let p = rnd (rnd (of_nat quota) * x) in if p < 0 then - \<lfloor>- p\<rfloor> else \<lfloor>p\<rfloor>))
      | Infinity pos \<Rightarrow> if quota = 0 then 0 else if pos then I64_MAX else - I64_MAX - 1
      | NaN \<Rightarrow> 0)"

definition high :: "(rat \<Rightarrow> rat) \<Rightarrow> quota_config \<Rightarrow> int" where
  "high rnd g = threshold rnd (qc_quota_bytes g) (qc_high_watermark g)"

definition low :: "(rat \<Rightarrow> rat) \<Rightarrow> quota_config \<Rightarrow> int" where
  "low rnd g = threshold rnd (qc_quota_bytes g) (qc_low_watermark g)"


section \<open>What is accepted\<close>

definition passes :: "(bool \<times> config_key) list \<Rightarrow> bool" where
  "passes cs = list_all (\<lambda>(bad, k). \<not> bad) cs"

lemma refuse_first_Inr: "refuse_first cs = Inr () \<longleftrightarrow> passes cs"
  unfolding passes_def by (induction cs rule: refuse_first.induct) auto

lemma passes_simps [simp]:
  "passes []" "passes ((bad, k) # cs) \<longleftrightarrow> \<not> bad \<and> passes cs" "passes (cs @ ds) \<longleftrightarrow> passes cs \<and> passes ds"
  "passes (concat (map f xs)) \<longleftrightarrow> (\<forall>x \<in> set xs. passes (f x))"
  by (auto simp: passes_def list_all_iff)

text \<open>The settings a careful operator would allow.\<close>

definition s3_ok :: "s3_config \<Rightarrow> bool" where
  "s3_ok c \<longleftrightarrow> (s3c_access_key_id c = None \<longleftrightarrow> s3c_secret_access_key c = None) \<and> 0 < s3c_operation_timeout_secs c
     \<and> (\<forall>a. s3c_operation_attempt_timeout_secs c = Some a \<longrightarrow> 0 < a \<and> a < s3c_operation_timeout_secs c)"

definition issuer_ok :: "url_parser \<Rightarrow> issuer_config \<Rightarrow> bool" where
  "issuer_ok parse c \<longleftrightarrow> ic_audience c \<noteq> []
     \<and> (ic_issuer c = GITHUB_ISSUER \<longrightarrow> ic_github_owner_id c \<noteq> None \<or> ic_repository_ids c \<noteq> [])
     \<and> (case ic_jwks_url c of None \<Rightarrow> check_remote_url parse (ic_issuer c) | Some u \<Rightarrow> is_remote_url u \<longrightarrow> check_remote_url parse u)"

definition quota_ok :: "quota_config \<Rightarrow> bool" where
  "quota_ok g \<longleftrightarrow> 0 < qc_quota_bytes g \<and> 0 < qc_interval_secs g
     \<and> (\<exists>lo hi. qc_low_watermark g = Finite lo \<and> qc_high_watermark g = Finite hi \<and> 0 < lo \<and> lo < hi \<and> hi \<le> 1)"

definition pusher_config_ok :: "url_parser \<Rightarrow> pusher_config \<Rightarrow> bool" where
  "pusher_config_ok parse c \<longleftrightarrow>
     (let l = pc_limits c in MIN_PART_SIZE \<le> lim_part_size l \<and> lim_part_size l \<le> MAX_PART_SIZE
        \<and> lim_part_size l \<le> lim_max_in_flight_bytes l \<and> 0 < lim_max_concurrent_uploads l \<and> 0 < lim_max_parts_in_flight l
        \<and> 0 < lim_body_idle_timeout_secs l)
     \<and> s3_ok (pc_s3 c) \<and> (\<forall>g. pc_gc c = Some g \<longrightarrow> quota_ok g)
     \<and> pc_oidc c \<noteq> [] \<and> (\<forall>i \<in> set (pc_oidc c). issuer_ok parse i)"

definition puller_config_ok :: "url_parser \<Rightarrow> puller_config \<Rightarrow> bool" where
  "puller_config_ok parse c \<longleftrightarrow> s3_ok (uc_s3 c) \<and> 1 \<le> uc_presign_ttl_secs c \<and> uc_presign_ttl_secs c \<le> 604800
     \<and> 0 < uc_db_read_budget_ms c \<and> 0 < uc_presign_budget_ms c \<and> 0 \<le> uc_bump_debounce_secs c
     \<and> 0 < uc_db_wait_timeout_secs c \<and> (\<forall>i. uc_browse_oidc c = Some i \<longrightarrow> issuer_ok parse i)"

lemma s3_checks_ok [simp]: "passes (s3_checks c) \<longleftrightarrow> s3_ok c"
  by (auto simp: s3_checks_def s3_ok_def split: option.splits)

lemma issuer_checks_ok [simp]: "passes (issuer_checks parse c) \<longleftrightarrow> issuer_ok parse c"
  by (cases "ic_jwks_url c") (auto simp: issuer_checks_def issuer_ok_def)

lemma in_range_iff: "in_range w \<longleftrightarrow> (\<exists>x. w = Finite x \<and> 0 < x \<and> x \<le> 1)"
  by (cases w) (auto simp: in_range_def f64_le_def)

lemma quota_checks_ok [simp]: "passes (quota_checks g) \<longleftrightarrow> quota_ok g"
  by (auto simp: quota_checks_def quota_ok_def in_range_iff f64_le_def)

text \<open>A service's settings, as the trait has them, with what its check stands for.\<close>

locale service_config =
  fixes validate :: "'c \<Rightarrow> config_error + unit" and ok :: "'c \<Rightarrow> bool"
  assumes validate_iff: "validate c = Inr () \<longleftrightarrow> ok c"
begin

lemma load_iff:
  "load read_file from_str validate path = Inr c \<longleftrightarrow>
     (\<exists>text. read_file path = Some text \<and> from_str text = Some c \<and> ok c)"
proof -
  have "(case validate d of Inl e \<Rightarrow> Inl e | Inr _ \<Rightarrow> Inr d) = Inr c \<longleftrightarrow> d = c \<and> ok c" for d
    using validate_iff [of d] by (cases "validate d") auto
  then show ?thesis by (auto simp: load_def split: option.splits)
qed

end

interpretation pusher_settings: service_config "pusher_validate parse" "pusher_config_ok parse" for parse
proof
  show "pusher_validate parse c = Inr () \<longleftrightarrow> pusher_config_ok parse c" for c
    by (cases "pc_gc c") (auto simp: pusher_validate_def Let_def refuse_first_Inr pusher_config_ok_def)
qed

interpretation puller_settings: service_config "puller_validate parse" "puller_config_ok parse" for parse
proof
  show "puller_validate parse c = Inr () \<longleftrightarrow> puller_config_ok parse c" for c
    by (cases "uc_browse_oidc c") (auto simp: puller_validate_def refuse_first_Inr puller_config_ok_def)
qed


section \<open>What accepted settings give the rest of the system\<close>

lemma budget_within:
  assumes "psize \<le> mif"
  shows "total_units (new_limits psize mparts mif idle) * unit_bytes (new_limits psize mparts mif idle) < mif + 64 * 1024"
proof -
  let ?l = "new_limits psize mparts mif idle" and ?s = "budget_shift psize"
  note f = new_limits_fields [OF refl, of psize mparts mif idle]
  have u: "(2::nat) ^ ?s \<le> 2 ^ 16" using budget_shift_le by (intro power_increasing) simp_all
  have "part_units ?l * unit_bytes ?l < psize + 2 ^ ?s" unfolding f by (rule units_ceil_tight)
  moreover have "drop_bit ?s mif * unit_bytes ?l \<le> mif" unfolding f by (simp add: drop_bit_eq_div)
  ultimately show ?thesis using u assms unfolding f(5) by (auto simp: max_def)
qed

lemma threshold_mono:
  assumes "mono rnd" "0 \<le> x" "x \<le> y" "rnd 0 = 0"
  shows "0 \<le> threshold rnd q (Finite x) \<and> threshold rnd q (Finite x) \<le> threshold rnd q (Finite y)"
proof -
  have q: "0 \<le> rnd (of_nat q)" using monoD [OF assms(1), of 0 "of_nat q"] assms(4) by simp
  let ?p = "\<lambda>x. rnd (rnd (of_nat q) * x)"
  have "0 \<le> ?p x" using monoD [OF assms(1), of 0 "rnd (of_nat q) * x"] assms(2,4) q by simp
  moreover have "?p x \<le> ?p y" using monoD [OF assms(1)] mult_left_mono [OF assms(3) q] by simp
  ultimately have "0 \<le> \<lfloor>?p x\<rfloor>" "\<lfloor>?p x\<rfloor> \<le> \<lfloor>?p y\<rfloor>" "\<not> ?p x < 0" "\<not> ?p y < 0"
    by (auto intro: floor_mono)
  then show ?thesis by (auto simp: threshold_def Let_def I64_MAX_def)
qed


definition demo_issuer :: issuer_config where
  "demo_issuer = \<lparr>ic_issuer = ''https://i'', ic_audience = ''a'', ic_extra_audiences = [], ic_client_id = None, ic_jwks_url = None,
     ic_github_owner_id = None, ic_ref_patterns = [], ic_ref_protected = None, ic_repository_ids = [], ic_event_names = [],
     ic_job_workflow_refs = [], ic_allowed_groups = []\<rparr>"

definition demo_settings :: pusher_config where
  "demo_settings = (default_pusher ''/tmp/x.db'' (default_s3 ''b'') [''/tmp/k''] [demo_issuer])\<lparr>pc_gc := Some (default_quota 1000)\<rparr>"

definition demo_url :: url_parser where
  "demo_url url = (if strip_prefix ''https://'' url = None then None else Some (''https'', strip_prefix ''https://'' url))"

lemma demo_settings_load: "load (\<lambda>_. Some []) (\<lambda>_. Some demo_settings) (pusher_validate demo_url) p = Inr demo_settings"
proof -
  have "quota_ok (default_quota 1000)"
    unfolding quota_ok_def default_quota_def gc_interval_def low_watermark_def high_watermark_def
    by (intro conjI exI [of _ "85 / 100"] exI [of _ "95 / 100"]) simp_all
  then show ?thesis
    by (simp add: pusher_settings.load_iff pusher_config_ok_def demo_settings_def default_pusher_def default_limits_def Let_def
        MIN_PART_SIZE_def MAX_PART_SIZE_def s3_ok_def default_s3_def s3_operation_timeout_def issuer_ok_def demo_issuer_def
        GITHUB_ISSUER_def check_remote_url_def demo_url_def)
qed


end
