(* ===== verification/Auth.thy ===== *)
theory Auth
  imports Config
begin

text \<open>
  \<^verbatim>\<open>crates/garret-server/src/auth.rs\<close>: validation of bearer tokens against the configured issuers.

  Parameters: the JWT library (base64url, header and payload parsing, \<^verbatim>\<open>decode\<close>), the HTTP client, the
  JWKS parser. An issuer's keys are fetched by a task of its own: \<open>refresh\<close> joins or starts it,
  \<open>fetch_landed\<close> and \<open>fetch_released\<close> are its end. Where a caller waits for an attempt, or only
  reads the keys again because there is none, it sees the issuer as the other tasks left it (\<open>join\<close>).
  Times are in seconds. The texts for the log are left out, but for the rule that bounds them.
\<close>

section \<open>Tokens and policy\<close>

record token_claims =
  cl_iss :: string
  cl_sub :: string
  cl_groups :: "string list"
  cl_ref_protected :: "string option"
  cl_repository_owner_id :: "string option"
  cl_git_ref :: "string option"
  cl_repository_id :: "string option"
  cl_event_name :: "string option"
  cl_job_workflow_ref :: "string option"
  cl_repository :: "string option"

datatype gate = GateOwner | GateRef | GateRefProtected | GateRepositoryId | GateEventName | GateJobWorkflowRef | GateGroup

fun gate_as_str :: "gate \<Rightarrow> string" where
  "gate_as_str GateOwner = ''owner''"
| "gate_as_str GateRef = ''ref''"
| "gate_as_str GateRefProtected = ''ref_protected''"
| "gate_as_str GateRepositoryId = ''repository_id''"
| "gate_as_str GateEventName = ''event_name''"
| "gate_as_str GateJobWorkflowRef = ''job_workflow_ref''"
| "gate_as_str GateGroup = ''group''"

datatype auth_outcome =
    OutAccepted
  | OutMalformed
  | OutUntrustedIssuer
  | OutUnknownKey
  | OutJwksUnavailable
  | OutInvalid
  | OutUnauthorized gate

fun outcome_as_str :: "auth_outcome \<Rightarrow> string" where
  "outcome_as_str OutAccepted = ''accepted''"
| "outcome_as_str OutMalformed = ''malformed''"
| "outcome_as_str OutUntrustedIssuer = ''untrusted_issuer''"
| "outcome_as_str OutUnknownKey = ''unknown_key''"
| "outcome_as_str OutJwksUnavailable = ''jwks_unavailable''"
| "outcome_as_str OutInvalid = ''invalid''"
| "outcome_as_str (OutUnauthorized _) = ''unauthorized''"

definition ref_matches :: "string \<Rightarrow> string \<Rightarrow> bool" where
  "ref_matches pattern git_ref =
     (case strip_suffix ''*'' pattern of
        Some pre \<Rightarrow> strip_prefix pre git_ref \<noteq> None
      | None \<Rightarrow> pattern = git_ref)"

definition allowlisted :: "string list \<Rightarrow> string option \<Rightarrow> gate \<Rightarrow> (string \<Rightarrow> string \<Rightarrow> bool) \<Rightarrow> gate + unit" where
  "allowlisted allowed value g matches =
     (if allowed = [] then Inr ()
      else (case value of
              None \<Rightarrow> Inl g
            | Some v \<Rightarrow> if \<not> list_ex (\<lambda>a. matches a v) allowed then Inl g else Inr ()))"

definition owner_gate :: "issuer_config \<Rightarrow> token_claims \<Rightarrow> gate + unit" where
  "owner_gate cfg c =
     (case ic_github_owner_id cfg of
        None \<Rightarrow> Inr ()
      | Some expected \<Rightarrow>
          (case cl_repository_owner_id c of
             None \<Rightarrow> Inl GateOwner
           | Some owner \<Rightarrow> if owner \<noteq> expected then Inl GateOwner else Inr ()))"

definition protected_gate :: "issuer_config \<Rightarrow> token_claims \<Rightarrow> gate + unit" where
  "protected_gate cfg c =
     (case ic_ref_protected cfg of
        None \<Rightarrow> Inr ()
      | Some expected \<Rightarrow>
          (case cl_ref_protected c of
             None \<Rightarrow> Inl GateRefProtected
           | Some actual \<Rightarrow> if actual \<noteq> (if expected then ''true'' else ''false'') then Inl GateRefProtected else Inr ()))"

definition workflow_gate :: "issuer_config \<Rightarrow> token_claims \<Rightarrow> gate + unit" where
  "workflow_gate cfg c =
     (case (ic_job_workflow_refs cfg = [], cl_job_workflow_ref c) of
        (False, Some jwr) \<Rightarrow>
          (case cl_repository c of
             None \<Rightarrow> Inl GateJobWorkflowRef
           | Some repository \<Rightarrow>
               (case strip_prefix repository jwr of
                  None \<Rightarrow> Inl GateJobWorkflowRef
                | Some rest \<Rightarrow> if strip_prefix ''/'' rest = None then Inl GateJobWorkflowRef else Inr ()))
      | _ \<Rightarrow> Inr ())"

definition group_gate :: "issuer_config \<Rightarrow> token_claims \<Rightarrow> gate + unit" where
  "group_gate cfg c =
     (if ic_allowed_groups cfg \<noteq> [] \<and> \<not> list_ex (\<lambda>g. g \<in> set (ic_allowed_groups cfg)) (cl_groups c) then Inl GateGroup else Inr ())"

text \<open>The gates in order, each an early return.\<close>

fun first_refusal :: "(gate + unit) list \<Rightarrow> gate + unit" where
  "first_refusal [] = Inr ()"
| "first_refusal (Inl g # gs) = Inl g"
| "first_refusal (Inr _ # gs) = first_refusal gs"

definition authorize :: "issuer_config \<Rightarrow> token_claims \<Rightarrow> gate + unit" where
  "authorize cfg c = first_refusal
     [owner_gate cfg c,
      allowlisted (ic_ref_patterns cfg) (cl_git_ref c) GateRef ref_matches,
      protected_gate cfg c,
      allowlisted (ic_repository_ids cfg) (cl_repository_id c) GateRepositoryId (=),
      allowlisted (ic_event_names cfg) (cl_event_name c) GateEventName (=),
      allowlisted (ic_job_workflow_refs cfg) (cl_job_workflow_ref c) GateJobWorkflowRef ref_matches,
      workflow_gate cfg c,
      group_gate cfg c]"

definition LEEWAY_SECS :: int where "LEEWAY_SECS = 60"

datatype algorithm = RS256 | OtherAlgorithm string

record validation =
  va_algorithms :: "algorithm list"
  va_issuers :: "string list"
  va_audiences :: "string list"
  va_leeway :: int
  va_required :: "string list"
  va_nbf :: bool

definition validation_for :: "issuer_config \<Rightarrow> validation" where
  "validation_for cfg = \<lparr>va_algorithms = [RS256], va_issuers = [ic_issuer cfg],
     va_audiences = ic_audience cfg # ic_extra_audiences cfg, va_leeway = LEEWAY_SECS,
     va_required = [''exp'', ''aud'', ''iss''], va_nbf = True\<rparr>"

text \<open>\<^verbatim>\<open>None\<close> from the header parser is a malformed header, \<^verbatim>\<open>Some None\<close> one without a key id.\<close>

record 'k jwt =
  jw_b64url :: "string \<Rightarrow> bytes option"
  jw_iss :: "bytes \<Rightarrow> string option"
  jw_header_kid :: "string \<Rightarrow> string option option"
  jw_decode :: "int \<Rightarrow> string \<Rightarrow> 'k \<Rightarrow> validation \<Rightarrow> token_claims option"

definition unverified_issuer :: "'k jwt \<Rightarrow> string \<Rightarrow> string option" where
  "unverified_issuer jw token =
     (case split_once CHR ''.'' token of
        None \<Rightarrow> None
      | Some (_, rest) \<Rightarrow>
          (case jw_b64url jw (split_first CHR ''.'' rest) of
             None \<Rightarrow> None
           | Some bs \<Rightarrow> jw_iss jw bs))"

section \<open>Keys\<close>

definition MIN_REFRESH :: int where "MIN_REFRESH = 10"
definition KEY_TTL :: int where "KEY_TTL = 3600"

record 'k key_cache =
  by_kid :: "string \<rightharpoonup> 'k"
  expires_at :: "int option"

record refresh_state =
  rs_in_flight :: bool
  rs_next_attempt :: "int option"

record 'k issuer =
  is_cfg :: issuer_config
  is_keys :: "'k key_cache"
  is_refresh :: refresh_state

definition new_issuer :: "issuer_config \<Rightarrow> 'k issuer" where
  "new_issuer cfg = \<lparr>is_cfg = cfg, is_keys = \<lparr>by_kid = Map.empty, expires_at = None\<rparr>,
     is_refresh = \<lparr>rs_in_flight = False, rs_next_attempt = None\<rparr>\<rparr>"

definition new_authenticator :: "issuer_config list \<Rightarrow> 'k issuer list" where
  "new_authenticator cfgs = map new_issuer cfgs"

definition cached_key :: "int \<Rightarrow> 'k issuer \<Rightarrow> string \<Rightarrow> 'k option \<times> bool" where
  "cached_key now i kid =
     (by_kid (is_keys i) kid, case expires_at (is_keys i) of None \<Rightarrow> True | Some t \<Rightarrow> now \<ge> t)"

text \<open>Whether there is an attempt to wait for, and the issuer with it running.\<close>

definition refresh :: "int \<Rightarrow> 'k issuer \<Rightarrow> bool \<times> 'k issuer" where
  "refresh now i =
     (if rs_in_flight (is_refresh i) then (True, i)
      else if (case rs_next_attempt (is_refresh i) of None \<Rightarrow> False | Some t \<Rightarrow> now < t) then (False, i)
      else (True, i\<lparr>is_refresh := (is_refresh i)\<lparr>rs_in_flight := True\<rparr>\<rparr>))"

text \<open>The end of an attempt: the keys are written under their lock, then the attempt is released under its own.\<close>

definition fetch_landed :: "int \<Rightarrow> (string \<rightharpoonup> 'k) option \<Rightarrow> 'k issuer \<Rightarrow> 'k issuer" where
  "fetch_landed now res i =
     (case res of None \<Rightarrow> i | Some ks \<Rightarrow> i\<lparr>is_keys := \<lparr>by_kid = ks, expires_at = Some (now + KEY_TTL)\<rparr>\<rparr>)"

definition fetch_released :: "int \<Rightarrow> 'k issuer \<Rightarrow> 'k issuer" where
  "fetch_released now i = i\<lparr>is_refresh := \<lparr>rs_in_flight = False, rs_next_attempt = Some (now + MIN_REFRESH)\<rparr>\<rparr>"

definition jwks_url :: "(string \<Rightarrow> string option) \<Rightarrow> issuer_config \<Rightarrow> string option" where
  "jwks_url discover cfg =
     (case ic_jwks_url cfg of
        Some url \<Rightarrow> Some url
      | None \<Rightarrow> discover (trim_end_matches CHR ''/'' (ic_issuer cfg) @ ''/.well-known/openid-configuration''))"

datatype jwks_source = Fetched string | LocalFile string

definition jwks_source_of :: "url_parser \<Rightarrow> (string \<Rightarrow> string option) \<Rightarrow> issuer_config \<Rightarrow> jwks_source option" where
  "jwks_source_of parse discover cfg =
     (case jwks_url discover cfg of
        None \<Rightarrow> None
      | Some url \<Rightarrow>
          if is_remote_url url then (if check_remote_url parse url then Some (Fetched url) else None)
          else if ic_jwks_url cfg \<noteq> None then Some (LocalFile url) else None)"

fun usable_keys :: "('j \<Rightarrow> 'k option) \<Rightarrow> (string option \<times> 'j) list \<Rightarrow> (string \<rightharpoonup> 'k) \<Rightarrow> string \<rightharpoonup> 'k" where
  "usable_keys from_jwk [] m = m"
| "usable_keys from_jwk ((kid, j) # js) m =
     usable_keys from_jwk js
       (case kid of None \<Rightarrow> m | Some k \<Rightarrow> (case from_jwk j of None \<Rightarrow> m | Some key \<Rightarrow> m(k \<mapsto> key)))"

record ('j, 'k) key_service =
  ks_discover :: "string \<Rightarrow> string option"
  ks_get :: "string \<Rightarrow> string option"
  ks_read :: "string \<Rightarrow> string option"
  ks_parse :: "string \<Rightarrow> (string option \<times> 'j) list option"
  ks_from_jwk :: "'j \<Rightarrow> 'k option"
  ks_url :: url_parser

definition fetch_keys :: "('j, 'k) key_service \<Rightarrow> issuer_config \<Rightarrow> (string \<rightharpoonup> 'k) option" where
  "fetch_keys ks cfg =
     (case jwks_source_of (ks_url ks) (ks_discover ks) cfg of
        None \<Rightarrow> None
      | Some src \<Rightarrow>
          (case (case src of Fetched url \<Rightarrow> ks_get ks url | LocalFile path \<Rightarrow> ks_read ks path) of
             None \<Rightarrow> None
           | Some body \<Rightarrow> map_option (\<lambda>set. usable_keys (ks_from_jwk ks) set Map.empty) (ks_parse ks body)))"

section \<open>Authentication\<close>

definition judge :: "'k jwt \<Rightarrow> int \<Rightarrow> issuer_config \<Rightarrow> string \<Rightarrow> 'k \<Rightarrow> auth_outcome + string" where
  "judge jw later cfg token key =
     (case jw_decode jw later token key (validation_for cfg) of
        None \<Rightarrow> Inl OutInvalid
      | Some c \<Rightarrow>
          (case authorize cfg c of
             Inl g \<Rightarrow> Inl (OutUnauthorized g)
           | Inr _ \<Rightarrow> Inr (cl_iss c @ ''#'' @ cl_sub c)))"

definition verify :: "'k jwt \<Rightarrow> (bool \<Rightarrow> 'k issuer \<Rightarrow> bool \<times> 'k issuer) \<Rightarrow> int \<Rightarrow> int \<Rightarrow> 'k issuer \<Rightarrow> string \<Rightarrow> (auth_outcome + string) \<times> 'k issuer" where
  "verify jw join now later i token =
     (case jw_header_kid jw token of
        None \<Rightarrow> (Inl OutMalformed, i)
      | Some None \<Rightarrow> (Inl OutMalformed, i)
      | Some (Some kid) \<Rightarrow>
          (case cached_key now i kid of
             (Some key, expired) \<Rightarrow>
               (judge jw later (is_cfg i) token key, if expired then snd (refresh now i) else i)
           | (None, _) \<Rightarrow>
               (let (attempt, i1) = refresh now i; (fetched, i2) = join attempt i1 in
                if attempt \<and> \<not> fetched then (Inl OutJwksUnavailable, i2)
                else (case fst (cached_key later i2 kid) of
                        None \<Rightarrow> (Inl OutUnknownKey, i2)
                      | Some key \<Rightarrow> (judge jw later (is_cfg i) token key, i2)))))"

definition route :: "'k jwt \<Rightarrow> 'k issuer list \<Rightarrow> string \<Rightarrow> auth_outcome + 'k issuer" where
  "route jw issuers token =
     (case unverified_issuer jw token of
        None \<Rightarrow> Inl OutMalformed
      | Some name \<Rightarrow>
          (case find (\<lambda>i. ic_issuer (is_cfg i) = name) issuers of
             None \<Rightarrow> Inl OutUntrustedIssuer
           | Some i \<Rightarrow> Inr i))"

text \<open>The label for the metrics, the verdict, and the issuer as it is left.\<close>

definition check_token ::
  "'k jwt \<Rightarrow> (bool \<Rightarrow> 'k issuer \<Rightarrow> bool \<times> 'k issuer) \<Rightarrow> int \<Rightarrow> int \<Rightarrow> 'k issuer list \<Rightarrow> string \<Rightarrow>
   string \<times> (auth_outcome + string) \<times> 'k issuer option" where
  "check_token jw join now later issuers token =
     (case route jw issuers token of
        Inl e \<Rightarrow> (''unknown'', Inl e, None)
      | Inr i \<Rightarrow> (case verify jw join now later i token of (v, i') \<Rightarrow> (ic_issuer (is_cfg i), v, Some i')))"

definition authenticate ::
  "'k jwt \<Rightarrow> (bool \<Rightarrow> 'k issuer \<Rightarrow> bool \<times> 'k issuer) \<Rightarrow> int \<Rightarrow> int \<Rightarrow> 'k issuer list \<Rightarrow> string \<Rightarrow> auth_outcome + string" where
  "authenticate jw join now later issuers token = fst (snd (check_token jw join now later issuers token))"

datatype rejection = RejMissing | RejInvalid auth_outcome | RejRefused auth_outcome

definition bearer ::
  "'k jwt \<Rightarrow> (bool \<Rightarrow> 'k issuer \<Rightarrow> bool \<times> 'k issuer) \<Rightarrow> int \<Rightarrow> int \<Rightarrow> 'k issuer list \<Rightarrow> string option \<Rightarrow> rejection + string" where
  "bearer jw join now later issuers authorization =
     (case Option.bind authorization (strip_prefix ''Bearer '') of
        None \<Rightarrow> Inl RejMissing
      | Some token \<Rightarrow>
          (case authenticate jw join now later issuers token of
             Inl (OutUnauthorized g) \<Rightarrow> Inl (RejRefused (OutUnauthorized g))
           | Inl out \<Rightarrow> Inl (RejInvalid out)
           | Inr subject \<Rightarrow> Inr subject))"

text \<open>The HTTP status and the \<^verbatim>\<open>WWW-Authenticate\<close> header.\<close>

definition respond :: "rejection \<Rightarrow> nat \<times> string option" where
  "respond r = (case r of RejRefused _ \<Rightarrow> (403, None) | _ \<Rightarrow> (401, Some ''Bearer''))"

definition rejection_reason :: "rejection \<Rightarrow> auth_outcome option" where
  "rejection_reason r = (case r of RejMissing \<Rightarrow> None | RejInvalid x \<Rightarrow> Some x | RejRefused x \<Rightarrow> Some x)"

text \<open>
  The Pusher's middleware (\<^verbatim>\<open>crates/garret-pusher/src/main.rs\<close>): the handler runs with the subject,
  or the request ends with a status, the challenge header and the text of the body's \<^verbatim>\<open>error\<close>.
\<close>

definition require_oidc ::
  "'k jwt \<Rightarrow> (bool \<Rightarrow> 'k issuer \<Rightarrow> bool \<times> 'k issuer) \<Rightarrow> int \<Rightarrow> int \<Rightarrow> 'k issuer list \<Rightarrow> string option \<Rightarrow>
   (string \<Rightarrow> 'w \<Rightarrow> 'r \<times> 'w) \<Rightarrow> 'w \<Rightarrow> (((nat \<times> string option) \<times> string) + 'r) \<times> 'w" where
  "require_oidc jw join now later issuers authorization handler w =
     (case bearer jw join now later issuers authorization of
        Inr subject \<Rightarrow> (case handler subject w of (r, w') \<Rightarrow> (Inr r, w'))
      | Inl rejection \<Rightarrow>
          (let error = (case rejection of
                          RejMissing \<Rightarrow> ''missing bearer token''
                        | RejInvalid _ \<Rightarrow> ''invalid token''
                        | RejRefused _ \<Rightarrow> ''not authorized'')
           in (Inl (respond rejection, error), w)))"

text \<open>A reason as it is logged: escaped, then cut after 256 characters with an ellipsis.\<close>

definition loggable :: "('c list \<Rightarrow> 'c list) \<Rightarrow> 'c \<Rightarrow> 'c list \<Rightarrow> 'c list" where
  "loggable escape_debug ellipsis rendered =
     (let escaped = escape_debug rendered in take 256 escaped @ (if drop 256 escaped \<noteq> [] then [ellipsis] else []))"


section \<open>What the gates permit\<close>

lemma ref_matches_iff: "ref_matches p r \<longleftrightarrow> (if \<exists>pre. p = pre @ ''*'' then \<exists>rest. r = butlast p @ rest else p = r)"
proof (cases "strip_suffix ''*'' p")
  case None
  then have "\<nexists>pre. p = pre @ ''*''" by (metis option.discI strip_suffix_Some)
  then show ?thesis by (simp add: ref_matches_def None)
next
  case (Some pre)
  then have "p = pre @ ''*''" by (simp add: strip_suffix_Some)
  then show ?thesis using Some by (auto simp: ref_matches_def strip_prefix_None)
qed

lemma first_refusal_Inr: "first_refusal gs = Inr () \<longleftrightarrow> (\<forall>g \<in> set gs. g = Inr ())"
  by (induction gs rule: first_refusal.induct) auto

lemma allowlisted_Inr: "allowlisted allowed v g m = Inr () \<longleftrightarrow> allowed = [] \<or> (\<exists>x. v = Some x \<and> (\<exists>a \<in> set allowed. m a x))"
  by (auto simp: allowlisted_def list_ex_iff split: option.splits)

text \<open>The policy of an issuer, as a condition on the claims.\<close>

definition permitted :: "issuer_config \<Rightarrow> token_claims \<Rightarrow> bool" where
  "permitted cfg c \<longleftrightarrow>
     (\<forall>owner. ic_github_owner_id cfg = Some owner \<longrightarrow> cl_repository_owner_id c = Some owner)
   \<and> (ic_ref_patterns cfg \<noteq> [] \<longrightarrow> (\<exists>r p. cl_git_ref c = Some r \<and> p \<in> set (ic_ref_patterns cfg) \<and> ref_matches p r))
   \<and> (\<forall>b. ic_ref_protected cfg = Some b \<longrightarrow> cl_ref_protected c = Some (if b then ''true'' else ''false''))
   \<and> (ic_repository_ids cfg \<noteq> [] \<longrightarrow> (\<exists>r \<in> set (ic_repository_ids cfg). cl_repository_id c = Some r))
   \<and> (ic_event_names cfg \<noteq> [] \<longrightarrow> (\<exists>e \<in> set (ic_event_names cfg). cl_event_name c = Some e))
   \<and> (ic_job_workflow_refs cfg \<noteq> [] \<longrightarrow> (\<exists>w p repo file. cl_job_workflow_ref c = Some w \<and> p \<in> set (ic_job_workflow_refs cfg)
        \<and> ref_matches p w \<and> cl_repository c = Some repo \<and> w = repo @ ''/'' @ file))
   \<and> (ic_allowed_groups cfg \<noteq> [] \<longrightarrow> set (cl_groups c) \<inter> set (ic_allowed_groups cfg) \<noteq> {})"

lemma workflow_gate_Inr:
  "workflow_gate cfg c = Inr () \<longleftrightarrow> ic_job_workflow_refs cfg = [] \<or> cl_job_workflow_ref c = None
     \<or> (\<exists>w repo file. cl_job_workflow_ref c = Some w \<and> cl_repository c = Some repo \<and> w = repo @ ''/'' @ file)"
proof (cases "ic_job_workflow_refs cfg = [] \<or> cl_job_workflow_ref c = None")
  case True
  then show ?thesis by (auto simp: workflow_gate_def split: option.splits bool.splits)
next
  case False
  then obtain w where w: "cl_job_workflow_ref c = Some w" by auto
  show ?thesis
  proof (cases "cl_repository c")
    case None
    then show ?thesis using w False by (simp add: workflow_gate_def)
  next
    case (Some repo)
    show ?thesis
    proof (cases "strip_prefix repo w")
      case None
      then have "\<nexists>rest. w = repo @ rest" by (simp add: strip_prefix_None)
      then show ?thesis using w False Some None by (auto simp: workflow_gate_def)
    next
      case rest: (Some rest)
      then have "w = repo @ rest" by (simp add: strip_prefix_Some)
      then show ?thesis using w False Some rest strip_prefix_None [of "''/''" rest] by (auto simp: workflow_gate_def)
    qed
  qed
qed

lemma authorize_iff: "authorize cfg c = Inr () \<longleftrightarrow> permitted cfg c"
proof -
  have owner: "owner_gate cfg c = Inr () \<longleftrightarrow> (\<forall>owner. ic_github_owner_id cfg = Some owner \<longrightarrow> cl_repository_owner_id c = Some owner)"
    by (auto simp: owner_gate_def split: option.splits)
  have prot: "protected_gate cfg c = Inr () \<longleftrightarrow> (\<forall>b. ic_ref_protected cfg = Some b \<longrightarrow> cl_ref_protected c = Some (if b then ''true'' else ''false''))"
    by (auto simp: protected_gate_def split: option.splits)
  have group: "group_gate cfg c = Inr () \<longleftrightarrow> (ic_allowed_groups cfg \<noteq> [] \<longrightarrow> set (cl_groups c) \<inter> set (ic_allowed_groups cfg) \<noteq> {})"
    by (auto simp: group_gate_def list_ex_iff)
  have flow: "allowlisted (ic_job_workflow_refs cfg) (cl_job_workflow_ref c) GateJobWorkflowRef ref_matches = Inr () \<and> workflow_gate cfg c = Inr ()
    \<longleftrightarrow> (ic_job_workflow_refs cfg \<noteq> [] \<longrightarrow> (\<exists>w p repo file. cl_job_workflow_ref c = Some w \<and> p \<in> set (ic_job_workflow_refs cfg)
        \<and> ref_matches p w \<and> cl_repository c = Some repo \<and> w = repo @ ''/'' @ file))"
    unfolding allowlisted_Inr workflow_gate_Inr by fastforce
  have refs: "allowlisted (ic_ref_patterns cfg) (cl_git_ref c) GateRef ref_matches = Inr ()
    \<longleftrightarrow> (ic_ref_patterns cfg \<noteq> [] \<longrightarrow> (\<exists>r p. cl_git_ref c = Some r \<and> p \<in> set (ic_ref_patterns cfg) \<and> ref_matches p r))"
    unfolding allowlisted_Inr by blast
  have eqs: "allowlisted xs v g (=) = Inr () \<longleftrightarrow> (xs \<noteq> [] \<longrightarrow> (\<exists>x \<in> set xs. v = Some x))" for xs v g
    unfolding allowlisted_Inr by auto
  show ?thesis
    unfolding authorize_def first_refusal_Inr permitted_def owner [symmetric] prot [symmetric] group [symmetric]
      flow [symmetric] refs [symmetric] eqs [symmetric]
    by (simp add: conj_assoc eqs)
qed

section \<open>What a token proves\<close>

text \<open>
  What the JWT library documents of \<^verbatim>\<open>decode\<close>: an accepted token is signed by the key under an
  allowed algorithm; a required claim is there; the issuer, an audience, the expiry and the
  not-before time, where there, are as the validation asks.
\<close>

record 'k token_facts =
  tf_signed :: "string \<Rightarrow> 'k \<Rightarrow> algorithm \<Rightarrow> bool"
  tf_has :: "string \<Rightarrow> string \<Rightarrow> bool"
  tf_audiences :: "string \<Rightarrow> string set"
  tf_exp :: "string \<Rightarrow> int"
  tf_nbf :: "string \<Rightarrow> int option"

definition jwt_law :: "'k jwt \<Rightarrow> 'k token_facts \<Rightarrow> bool" where
  "jwt_law jw tf \<longleftrightarrow> (\<forall>now token key v c. jw_decode jw now token key v = Some c \<longrightarrow>
     (\<exists>a \<in> set (va_algorithms v). tf_signed tf token key a)
   \<and> (\<forall>r \<in> set (va_required v). tf_has tf token r)
   \<and> (tf_has tf token ''iss'' \<longrightarrow> cl_iss c \<in> set (va_issuers v))
   \<and> (tf_has tf token ''aud'' \<longrightarrow> tf_audiences tf token \<inter> set (va_audiences v) \<noteq> {})
   \<and> (tf_has tf token ''exp'' \<longrightarrow> now \<le> tf_exp tf token + va_leeway v)
   \<and> (\<forall>t. va_nbf v \<longrightarrow> tf_nbf tf token = Some t \<longrightarrow> t \<le> now + va_leeway v))"

lemma judge_Inr:
  assumes "jwt_law jw tf" "judge jw now cfg token key = Inr subject"
  shows "\<exists>c. tf_signed tf token key RS256 \<and> cl_iss c = ic_issuer cfg \<and> permitted cfg c \<and> subject = ic_issuer cfg @ ''#'' @ cl_sub c
    \<and> tf_audiences tf token \<inter> set (ic_audience cfg # ic_extra_audiences cfg) \<noteq> {}
    \<and> now \<le> tf_exp tf token + 60 \<and> (\<forall>t. tf_nbf tf token = Some t \<longrightarrow> t \<le> now + 60)"
proof -
  obtain c where c: "jw_decode jw now token key (validation_for cfg) = Some c" "authorize cfg c = Inr ()" "subject = cl_iss c @ ''#'' @ cl_sub c"
    using assms(2) by (auto simp: judge_def split: option.splits sum.splits)
  have "cl_iss c = ic_issuer cfg"
    using assms(1) c(1) unfolding jwt_law_def by (fastforce simp: validation_for_def)
  then show ?thesis
    using assms(1) c unfolding jwt_law_def by (intro exI [of _ c]) (fastforce simp: validation_for_def LEEWAY_SECS_def authorize_iff)
qed

section \<open>Fetches\<close>

text \<open>
  An issuer among its callers and its fetch tasks. A step is a call of \<open>refresh\<close>, which spawns a
  task when it starts an attempt, a task that lands its result, or one that releases the attempt.
  The log has the start and the end of every attempt, the newest first.
\<close>

datatype attempt_phase = Fetching | Landed
datatype attempt_event = Started int | Ended int

record 'k fetching =
  fg_issuer :: "'k issuer"
  fg_tasks :: "attempt_phase list"
  fg_log :: "attempt_event list"

inductive fetch_step :: "('j, 'k) key_service set \<Rightarrow> 'k fetching \<Rightarrow> 'k fetching \<Rightarrow> bool" for S where
  starts: "\<not> rs_in_flight (is_refresh (fg_issuer f)) \<Longrightarrow> refresh now (fg_issuer f) = (True, i) \<Longrightarrow>
     fetch_step S f (f\<lparr>fg_issuer := i, fg_tasks := fg_tasks f @ [Fetching], fg_log := Started now # fg_log f\<rparr>)"
| joins: "rs_in_flight (is_refresh (fg_issuer f)) \<or> \<not> fst (refresh now (fg_issuer f)) \<Longrightarrow>
     fetch_step S f (f\<lparr>fg_issuer := snd (refresh now (fg_issuer f))\<rparr>)"
| lands: "fg_tasks f = xs @ Fetching # ys \<Longrightarrow> ks \<in> S \<Longrightarrow>
     fetch_step S f (f\<lparr>fg_issuer := fetch_landed now (fetch_keys ks (is_cfg (fg_issuer f))) (fg_issuer f), fg_tasks := xs @ Landed # ys\<rparr>)"
| releases: "fg_tasks f = xs @ Landed # ys \<Longrightarrow>
     fetch_step S f (f\<lparr>fg_issuer := fetch_released now (fg_issuer f), fg_tasks := xs @ ys, fg_log := Ended now # fg_log f\<rparr>)"

definition idle :: "issuer_config \<Rightarrow> 'k fetching" where
  "idle cfg = \<lparr>fg_issuer = new_issuer cfg, fg_tasks = [], fg_log = []\<rparr>"

text \<open>Attempts alternate, and one starts only \<open>MIN_REFRESH\<close> after the end of the one before.\<close>

fun spaced :: "attempt_event list \<Rightarrow> bool" where
  "spaced [] = True"
| "spaced (Started t # []) = True"
| "spaced (Started t # Ended t' # es) = (t' + MIN_REFRESH \<le> t \<and> spaced (Ended t' # es))"
| "spaced (Ended t # Started t' # es) = spaced (Started t' # es)"
| "spaced _ = False"

text \<open>A key an issuer published: one of those a service gave for it, from a place that may be trusted.\<close>

definition published :: "('j, 'k) key_service set \<Rightarrow> issuer_config \<Rightarrow> string \<Rightarrow> 'k \<Rightarrow> bool" where
  "published S cfg kid key \<longleftrightarrow> (\<exists>ks \<in> S. \<exists>m. fetch_keys ks cfg = Some m \<and> m kid = Some key)"

definition keys_published :: "('j, 'k) key_service set \<Rightarrow> 'k issuer \<Rightarrow> bool" where
  "keys_published S i \<longleftrightarrow> (\<forall>kid key. by_kid (is_keys i) kid = Some key \<longrightarrow> published S (is_cfg i) kid key)"

definition fetch_inv :: "issuer_config \<Rightarrow> ('j, 'k) key_service set \<Rightarrow> 'k fetching \<Rightarrow> bool" where
  "fetch_inv cfg S f \<longleftrightarrow> is_cfg (fg_issuer f) = cfg \<and> keys_published S (fg_issuer f) \<and> spaced (fg_log f)
     \<and> (let r = is_refresh (fg_issuer f) in
        if rs_in_flight r then (\<exists>p. fg_tasks f = [p]) \<and> (\<exists>t es. fg_log f = Started t # es)
        else fg_tasks f = [] \<and> (case fg_log f of [] \<Rightarrow> True | e # es \<Rightarrow> (\<exists>t. e = Ended t \<and> rs_next_attempt r = Some (t + MIN_REFRESH))))"

lemma spaced_start: "spaced (Ended t # es) \<Longrightarrow> t + MIN_REFRESH \<le> now \<Longrightarrow> spaced (Started now # Ended t # es)"
  by simp

lemma keys_published_landed: "keys_published S i \<Longrightarrow> ks \<in> S \<Longrightarrow> keys_published S (fetch_landed now (fetch_keys ks (is_cfg i)) i)"
  by (auto simp: keys_published_def fetch_landed_def published_def split: option.splits)

lemma refresh_keeps: "is_cfg (snd (refresh now i)) = is_cfg i" "is_keys (snd (refresh now i)) = is_keys i"
  by (simp_all add: refresh_def)

lemma fetch_landed_cfg: "is_cfg (fetch_landed now r i) = is_cfg i" "is_refresh (fetch_landed now r i) = is_refresh i"
  by (auto simp: fetch_landed_def split: option.splits)

lemma fetch_step_published:
  "fetch_step S f f' \<Longrightarrow> keys_published S (fg_issuer f) \<Longrightarrow> is_cfg (fg_issuer f') = is_cfg (fg_issuer f) \<and> keys_published S (fg_issuer f')"
proof (induction rule: fetch_step.induct)
  case (starts f now i)
  then show ?case using refresh_keeps [of now "fg_issuer f"] by (simp add: keys_published_def)
next
  case (joins f now)
  then show ?case using refresh_keeps [of now "fg_issuer f"] by (simp add: keys_published_def)
next
  case (lands f xs ys ks now)
  then show ?case by (simp add: keys_published_landed fetch_landed_cfg)
next
  case (releases f xs ys now)
  then show ?case by (simp add: fetch_released_def keys_published_def)
qed

lemma fetch_steps_published:
  "(fetch_step S)\<^sup>*\<^sup>* f f' \<Longrightarrow> keys_published S (fg_issuer f) \<Longrightarrow> is_cfg (fg_issuer f') = is_cfg (fg_issuer f) \<and> keys_published S (fg_issuer f')"
  by (induction rule: rtranclp_induct) (auto dest: fetch_step_published)

lemma fetch_step_inv: "fetch_step S f f' \<Longrightarrow> fetch_inv cfg S f \<Longrightarrow> fetch_inv cfg S f'"
proof (induction rule: fetch_step.induct)
  case (starts f now i)
  then show ?case
    by (cases "fg_log f") (auto simp: fetch_inv_def refresh_def Let_def keys_published_def split: if_splits option.splits)
next
  case (joins f now)
  then have "snd (refresh now (fg_issuer f)) = fg_issuer f" by (auto simp: refresh_def split: if_splits)
  then show ?case using joins.prems by simp
next
  case (lands f xs ys ks now)
  then show ?case using keys_published_landed [of S "fg_issuer f" ks now]
    by (auto simp: fetch_inv_def Let_def append_eq_Cons_conv fetch_landed_cfg split: if_splits)
next
  case (releases f xs ys now)
  then show ?case
    by (auto simp: fetch_inv_def fetch_released_def keys_published_def Let_def append_eq_Cons_conv split: if_splits)
qed

lemma fetch_steps_inv: "(fetch_step S)\<^sup>*\<^sup>* f f' \<Longrightarrow> fetch_inv cfg S f \<Longrightarrow> fetch_inv cfg S f'"
  by (induction rule: rtranclp_induct) (auto intro: fetch_step_inv)

lemma fetch_inv_idle: "fetch_inv cfg S (idle cfg)"
  by (simp add: fetch_inv_def idle_def new_issuer_def keys_published_def)

section \<open>A concrete issuer\<close>

definition demo_github :: issuer_config where
  "demo_github = demo_issuer\<lparr>ic_issuer := GITHUB_ISSUER, ic_github_owner_id := Some ''7''\<rparr>"

definition demo_keys :: "(nat, nat) key_service" where
  "demo_keys = \<lparr>ks_discover = \<lambda>_. Some ''https://k'', ks_get = \<lambda>_. Some ''body'', ks_read = \<lambda>_. None,
     ks_parse = \<lambda>_. Some [(Some ''k1'', 5)], ks_from_jwk = Some, ks_url = demo_url\<rparr>"

definition demo_fetched :: "nat fetching" where
  "demo_fetched = \<lparr>fg_issuer = \<lparr>is_cfg = demo_github, is_keys = \<lparr>by_kid = [''k1'' \<mapsto> 5], expires_at = Some 3600\<rparr>,
     is_refresh = \<lparr>rs_in_flight = True, rs_next_attempt = None\<rparr>\<rparr>, fg_tasks = [Landed], fg_log = [Started 0]\<rparr>"

lemma demo_fetched_reached: "(fetch_step {demo_keys})\<^sup>*\<^sup>* (idle demo_github) demo_fetched"
proof -
  let ?f = "(idle demo_github)\<lparr>fg_issuer := snd (refresh 0 (new_issuer demo_github)), fg_tasks := [Fetching], fg_log := [Started 0]\<rparr> :: nat fetching"
  have "fetch_step {demo_keys} (idle demo_github) ?f"
    using fetch_step.starts [of "idle demo_github" 0 "snd (refresh 0 (new_issuer demo_github))"]
    by (simp add: idle_def new_issuer_def refresh_def)
  moreover have "fetch_keys demo_keys demo_github = Some [''k1'' \<mapsto> 5]"
    by (simp add: fetch_keys_def jwks_source_of_def jwks_url_def demo_keys_def demo_github_def demo_issuer_def is_remote_url_def
        check_remote_url_def demo_url_def)
  then have "fetch_step {demo_keys} ?f demo_fetched"
    using fetch_step.lands [of ?f "[]" "[]" demo_keys "{demo_keys}" 0]
    by (simp add: demo_fetched_def idle_def new_issuer_def refresh_def fetch_landed_def KEY_TTL_def)
  ultimately show ?thesis by (meson converse_rtranclp_into_rtranclp r_into_rtranclp)
qed



section \<open>Where keys come from\<close>

lemma jwks_source_of_safe:
  assumes "jwks_source_of parse discover cfg = Some src"
  shows "(\<exists>url. src = Fetched url \<and> is_remote_url url \<and> check_remote_url parse url) \<or> (\<exists>path. src = LocalFile path \<and> ic_jwks_url cfg = Some path)"
  using assms by (auto simp: jwks_source_of_def jwks_url_def split: option.splits if_splits)

text \<open>While a caller waits, the issuer moves only by the steps above.\<close>

definition joins_by :: "('j, 'k) key_service set \<Rightarrow> (bool \<Rightarrow> 'k issuer \<Rightarrow> bool \<times> 'k issuer) \<Rightarrow> bool" where
  "joins_by S join \<longleftrightarrow> (\<forall>attempt i. \<exists>f f'. fg_issuer f = i \<and> (fetch_step S)\<^sup>*\<^sup>* f f' \<and> fg_issuer f' = snd (join attempt i))"

lemma joins_by_published:
  "joins_by S join \<Longrightarrow> keys_published S i \<Longrightarrow> is_cfg (snd (join a i)) = is_cfg i \<and> keys_published S (snd (join a i))"
  unfolding joins_by_def by (metis fetch_steps_published)

lemma verify_Inr:
  assumes "fst (verify jw join now later i token) = Inr subject" "keys_published S i" "joins_by S join"
  shows "\<exists>kid key. jw_header_kid jw token = Some (Some kid) \<and> published S (is_cfg i) kid key
    \<and> judge jw later (is_cfg i) token key = Inr subject"
proof -
  obtain kid where kid: "jw_header_kid jw token = Some (Some kid)"
    using assms(1) by (auto simp: verify_def split: option.splits)
  show ?thesis
  proof (cases "by_kid (is_keys i) kid")
    case (Some key)
    then show ?thesis using assms(1,2) kid by (auto simp: verify_def cached_key_def keys_published_def)
  next
    case None
    obtain attempt i1 where r: "refresh now i = (attempt, i1)" by fastforce
    then have "is_cfg i1 = is_cfg i" "keys_published S i1" using refresh_keeps [of now i] assms(2) by (simp_all add: keys_published_def)
    then have "is_cfg (snd (join attempt i1)) = is_cfg i" "keys_published S (snd (join attempt i1))"
      using joins_by_published [OF assms(3), of i1 attempt] by simp_all
    then show ?thesis using assms(1) kid None r
      by (auto simp: verify_def cached_key_def keys_published_def split: prod.splits option.splits if_splits)
  qed
qed

lemma bearer_Inr:
  assumes law: "jwt_law jw tf" and settings: "\<forall>i \<in> set issuers. issuer_ok parse (is_cfg i)"
    and state: "\<forall>i \<in> set issuers. \<exists>f. (fetch_step S)\<^sup>*\<^sup>* (idle (is_cfg i)) f \<and> fg_issuer f = i" and others: "joins_by S join"
    and run: "bearer jw join now later issuers authorization = Inr subject"
  shows "\<exists>token i kid key c. authorization = Some (''Bearer '' @ token) \<and> i \<in> set issuers
    \<and> unverified_issuer jw token = Some (ic_issuer (is_cfg i)) \<and> jw_header_kid jw token = Some (Some kid)
    \<and> published S (is_cfg i) kid key \<and> tf_signed tf token key RS256
    \<and> tf_audiences tf token \<inter> set (ic_audience (is_cfg i) # ic_extra_audiences (is_cfg i)) \<noteq> {}
    \<and> later \<le> tf_exp tf token + 60 \<and> (\<forall>t. tf_nbf tf token = Some t \<longrightarrow> t \<le> later + 60)
    \<and> permitted (is_cfg i) c \<and> subject = ic_issuer (is_cfg i) @ ''#'' @ cl_sub c
    \<and> (ic_issuer (is_cfg i) = GITHUB_ISSUER \<longrightarrow>
         (\<exists>owner. ic_github_owner_id (is_cfg i) = Some owner \<and> cl_repository_owner_id c = Some owner)
         \<or> (\<exists>r \<in> set (ic_repository_ids (is_cfg i)). cl_repository_id c = Some r))"
proof -
  obtain token where tok: "authorization = Some (''Bearer '' @ token)" "authenticate jw join now later issuers token = Inr subject"
    using run by (auto simp: bearer_def bind_eq_Some_conv strip_prefix_Some split: option.splits sum.splits auth_outcome.splits)
  then obtain i where i: "route jw issuers token = Inr i" "fst (verify jw join now later i token) = Inr subject"
    by (auto simp: authenticate_def check_token_def split: sum.splits prod.splits)
  have mem: "i \<in> set issuers" "unverified_issuer jw token = Some (ic_issuer (is_cfg i))"
    using i(1) by (auto simp: route_def find_Some_iff split: option.splits)
  have keys: "keys_published S i"
    using bspec [OF state mem(1)] fetch_steps_inv [OF _ fetch_inv_idle] by (auto simp: fetch_inv_def)
  obtain kid key where k: "jw_header_kid jw token = Some (Some kid)" "published S (is_cfg i) kid key"
    "judge jw later (is_cfg i) token key = Inr subject" using verify_Inr [OF i(2) keys others] by blast
  obtain c where c: "tf_signed tf token key RS256" "permitted (is_cfg i) c" "subject = ic_issuer (is_cfg i) @ ''#'' @ cl_sub c"
    "tf_audiences tf token \<inter> set (ic_audience (is_cfg i) # ic_extra_audiences (is_cfg i)) \<noteq> {}"
    "later \<le> tf_exp tf token + 60" "\<forall>t. tf_nbf tf token = Some t \<longrightarrow> t \<le> later + 60"
    using judge_Inr [OF law k(3)] by blast
  have "(\<exists>owner. ic_github_owner_id (is_cfg i) = Some owner \<and> cl_repository_owner_id c = Some owner)
      \<or> (\<exists>r \<in> set (ic_repository_ids (is_cfg i)). cl_repository_id c = Some r)" if "ic_issuer (is_cfg i) = GITHUB_ISSUER"
    using settings mem(1) c(2) that by (auto simp: issuer_ok_def permitted_def)
  then show ?thesis using tok(1) mem k(1,2) c by blast
qed


definition demo_claims :: token_claims where
  "demo_claims = \<lparr>cl_iss = GITHUB_ISSUER, cl_sub = ''s'', cl_groups = [], cl_ref_protected = None, cl_repository_owner_id = Some ''7'',
     cl_git_ref = None, cl_repository_id = None, cl_event_name = None, cl_job_workflow_ref = None, cl_repository = None\<rparr>"

definition demo_jwt :: "nat jwt" where
  "demo_jwt = \<lparr>jw_b64url = \<lambda>_. Some [], jw_iss = \<lambda>_. Some GITHUB_ISSUER, jw_header_kid = \<lambda>_. Some (Some ''k1''),
     jw_decode = \<lambda>now _ key v. if v = validation_for demo_github \<and> key = 5 \<and> 0 \<le> now \<and> now \<le> 100 then Some demo_claims else None\<rparr>"

definition demo_facts :: "nat token_facts" where
  "demo_facts = \<lparr>tf_signed = \<lambda>_ key a. key = 5 \<and> a = RS256, tf_has = \<lambda>_ _. True, tf_audiences = \<lambda>_. {''a''}, tf_exp = \<lambda>_. 100, tf_nbf = \<lambda>_. Some 0\<rparr>"


end
