(* ===== verification/Puller.thy ===== *)
theory Puller
  imports Browse Storage Auth
begin

text \<open>
  \<^verbatim>\<open>crates/garret-puller/src/main.rs\<close>: the public substituter. The database is the Pusher's; the
  Puller has none until the Pusher created it, and it writes only last-accessed times. Parameters:
  the JSON codec, presigning and the HTTP fetch of the readiness probe, and how long each step of
  a request took (milliseconds for budgets, seconds for the clock). A response is its status, the
  headers the handlers set and the body. Routing by axum, metrics and start-up are not modelled.
\<close>

section \<open>Responses and state\<close>

datatype 'a body = Empty | Text string | Json 'a

record 'a reply =
  re_status :: nat
  re_headers :: "(string \<times> string) list"
  re_body :: "'a body"

definition plain :: "nat \<Rightarrow> 'a reply" where
  "plain status = \<lparr>re_status = status, re_headers = [], re_body = Empty\<rparr>"

definition saying :: "nat \<Rightarrow> string \<Rightarrow> 'a reply" where
  "saying status t = \<lparr>re_status = status, re_headers = [], re_body = Text t\<rparr>"

record puller_state =
  pu_db :: "database option"
  pu_pending :: "hash list"
  pu_probe :: "(int \<times> (string + unit)) option"

record services =
  sv_dec :: "string \<Rightarrow> string list option"
  sv_presign :: "string \<Rightarrow> nat \<Rightarrow> string + string"
  sv_fetch :: "string \<Rightarrow> string + nat \<times> string option \<times> string"

definition unavailable :: "'a reply" where
  "unavailable = saying 503 ''database not ready''"

section \<open>Last-accessed times\<close>

text \<open>The pending set as the list of its members; \<open>flush\<close> writes them in any order.\<close>

definition bump_hit :: "int \<Rightarrow> hash \<Rightarrow> int \<Rightarrow> int \<Rightarrow> hash list \<Rightarrow> hash list" where
  "bump_hit debounce h last_accessed_at now pending =
     (if last_accessed_at \<ge> now - debounce then pending
      else if h \<notin> set pending then pending @ [h] else pending)"

text \<open>\<open>writes\<close> says whether the write got SQLite's lock in time; a batch that did not is dropped.\<close>

definition bump_flush :: "bool \<Rightarrow> int \<Rightarrow> int \<Rightarrow> puller_state \<Rightarrow> (unit + nat) \<times> puller_state" where
  "bump_flush writes debounce now st =
     (let batch = pu_pending st; st1 = st\<lparr>pu_pending := []\<rparr> in
      if batch = [] then (Inr 0, st1)
      else if \<not> writes then (Inl (), st1)
      else (Inr (length batch), st1\<lparr>pu_db := map_option (\<lambda>d. bump_last_accessed d batch now debounce) (pu_db st)\<rparr>))"

section \<open>The pull path\<close>

datatype degraded = DbTimeout | DbError | PresignTimeout | PresignError

fun degraded_reason :: "degraded \<Rightarrow> string" where
  "degraded_reason DbTimeout = ''db_timeout''"
| "degraded_reason DbError = ''db_error''"
| "degraded_reason PresignTimeout = ''presign_timeout''"
| "degraded_reason PresignError = ''presign_error''"

definition degraded_miss :: "degraded \<Rightarrow> 'a reply" where
  "degraded_miss _ = plain 404"

text \<open>
  A read on the blocking pool: when it was asked for, when it got the connection, when it ended,
  and whether the task or SQLite failed.
\<close>

record read_run =
  rr_start :: int
  rr_locked :: int
  rr_ended :: int
  rr_fails :: bool

definition db_read :: "int \<Rightarrow> read_run \<Rightarrow> db_error + 'v \<Rightarrow> degraded + 'v" where
  "db_read allowed run result =
     (let deadline = rr_start run + allowed;
          task = (if rr_fails run then None
                  else if rr_locked run > deadline then None
                  else (case result of Inl _ \<Rightarrow> None | Inr v \<Rightarrow> Some v))
      in if rr_ended run > deadline then Inl DbTimeout
         else (case task of Some v \<Rightarrow> Inr v | None \<Rightarrow> Inl DbError))"

datatype 'a pull_outcome = Hit "'a reply" | Miss | Unavailable | Degraded degraded | Junk

text \<open>The label the request is counted under, if it is, and the response.\<close>

definition counted :: "'a pull_outcome \<Rightarrow> string option \<times> 'a reply" where
  "counted outcome =
     (case outcome of
        Hit r \<Rightarrow> (Some ''hit'', r)
      | Miss \<Rightarrow> (Some ''miss'', plain 404)
      | Unavailable \<Rightarrow> (Some ''miss'', unavailable)
      | Degraded dg \<Rightarrow> (Some ''miss'', degraded_miss dg)
      | Junk \<Rightarrow> (None, plain 404))"

definition narinfo_request :: "services \<Rightarrow> puller_config \<Rightarrow> read_run \<Rightarrow> int \<Rightarrow> string \<Rightarrow> puller_state \<Rightarrow> 'a pull_outcome \<times> puller_state" where
  "narinfo_request sv cfg run now file st =
     (case (case narinfo_hash file of Some h \<Rightarrow> if is_store_hash h then Some h else None | None \<Rightarrow> None) of
        None \<Rightarrow> (Junk, st)
      | Some h \<Rightarrow>
          (case pu_db st of
             None \<Rightarrow> (Unavailable, st)
           | Some d \<Rightarrow>
               (case db_read (int (uc_db_read_budget_ms cfg)) run (get_object_and_last_accessed (sv_dec sv) d h) of
                  Inr (Some (ob, last_accessed_at)) \<Rightarrow>
                    (Hit \<lparr>re_status = 200, re_headers = [(''content-type'', ''text/x-nix-narinfo'')], re_body = Text (render ob)\<rparr>,
                     st\<lparr>pu_pending := bump_hit (uc_bump_debounce_secs cfg) h last_accessed_at now (pu_pending st)\<rparr>)
                | Inr None \<Rightarrow> (Miss, st)
                | Inl dg \<Rightarrow> (Degraded dg, st))))"

definition nar_redirect :: "services \<Rightarrow> puller_config \<Rightarrow> read_run \<Rightarrow> int \<Rightarrow> string \<Rightarrow> puller_state \<Rightarrow> 'a pull_outcome" where
  "nar_redirect sv cfg run presign_ms file st =
     (case (case nar_file_hash file of Some h \<Rightarrow> if is_store_hash h then Some h else None | None \<Rightarrow> None) of
        None \<Rightarrow> Junk
      | Some h \<Rightarrow>
          (case pu_db st of
             None \<Rightarrow> Unavailable
           | Some d \<Rightarrow>
               (case db_read (int (uc_db_read_budget_ms cfg)) run (Inr (exists_object d h)) of
                  Inr True \<Rightarrow>
                    if presign_ms > int (uc_presign_budget_ms cfg) then Degraded PresignTimeout
                    else (case sv_presign sv (key_for h) (uc_presign_ttl_secs cfg) of
                            Inr url \<Rightarrow> Hit \<lparr>re_status = 307, re_headers = [(''location'', url)], re_body = Empty\<rparr>
                          | Inl _ \<Rightarrow> Degraded PresignError)
                | Inr False \<Rightarrow> Miss
                | Inl dg \<Rightarrow> Degraded dg)))"

definition nix_cache_info :: "puller_config \<Rightarrow> string" where
  "nix_cache_info cfg =
     ''StoreDir: '' @ uc_store_dir cfg @ [CHR 0x0A] @ ''WantMassQuery: 1'' @ [CHR 0x0A] @ ''Priority: 40'' @ [CHR 0x0A]"

definition ready :: "puller_state \<Rightarrow> 'a reply" where
  "ready st = (case pu_db st of Some _ \<Rightarrow> saying 200 ''ready'' | None \<Rightarrow> unavailable)"

section \<open>The readiness probe\<close>

definition READ_PROBE_TTL :: int where "READ_PROBE_TTL = 30"
definition READ_PROBE_TIMEOUT :: int where "READ_PROBE_TIMEOUT = 5000"

fun split_once_at :: "string \<Rightarrow> string \<Rightarrow> (string \<times> string) option" where
  "split_once_at pat [] = (if pat = [] then Some ([], []) else None)"
| "split_once_at pat (x # xs) =
     (case strip_prefix pat (x # xs) of
        Some rest \<Rightarrow> Some ([], rest)
      | None \<Rightarrow> (case split_once_at pat xs of None \<Rightarrow> None | Some (a, b) \<Rightarrow> Some (x # a, b)))"

text \<open>\<^verbatim>\<open>s.chars().take(n)\<close> on UTF-8 bytes.\<close>

function (sequential) take_chars :: "nat \<Rightarrow> string \<Rightarrow> string" where
  "take_chars 0 s = []"
| "take_chars n [] = []"
| "take_chars (Suc n) (x # xs) = x # takeWhile is_continuation xs @ take_chars n (dropWhile is_continuation xs)"
  by pat_completeness auto
termination by (relation "measure fst") auto

definition probe_read :: "services \<Rightarrow> puller_config \<Rightarrow> read_run \<Rightarrow> database \<Rightarrow> string + unit" where
  "probe_read sv cfg run d =
     (case db_read (int (uc_db_read_budget_ms cfg)) run (Inr (most_recently_accessed d)) of
        Inl dg \<Rightarrow> Inl (''database read degraded: '' @ degraded_reason dg)
      | Inr None \<Rightarrow> Inr ()
      | Inr (Some h) \<Rightarrow>
          (case sv_presign sv (key_for h) (uc_presign_ttl_secs cfg) of
             Inl e \<Rightarrow> Inl (''presigning: '' @ e)
           | Inr url \<Rightarrow>
               (case sv_fetch sv url of
                  Inl e \<Rightarrow> Inl (''fetching: '' @ e)
                | Inr (status, header, answer) \<Rightarrow>
                    if 200 \<le> status \<and> status < 300 then Inr ()
                    else
                      (let request_id = map_option (take_chars 64) header;
                           code = map_option (\<lambda>p. take_chars 64 (fst p))
                             (Option.bind (split_once_at ''<Code>'' answer) (\<lambda>p. split_once_at ''</Code>'' (snd p)));
                           detail = ''presigned GET answered '' @ show_nat status;
                           detail = (case code of Some c \<Rightarrow> detail @ '', S3 error code '' @ c | None \<Rightarrow> detail);
                           detail = (case request_id of Some i \<Rightarrow> detail @ '', x-amz-request-id '' @ i | None \<Rightarrow> detail)
                       in Inl detail))))"

text \<open>
  The cache is locked from \<open>now\<close> until the probe, if one runs, has ended at \<open>later\<close> and its answer
  is stored.
\<close>

definition cached_probe :: "int \<Rightarrow> int \<Rightarrow> string + unit \<Rightarrow> (int \<times> (string + unit)) option \<Rightarrow> (string + unit) \<times> (int \<times> (string + unit)) option \<times> bool" where
  "cached_probe now later probe cache =
     (case cache of
        Some (taken, outcome) \<Rightarrow>
          if now - taken < READ_PROBE_TTL then (outcome, cache, False) else (probe, Some (later, probe), True)
      | None \<Rightarrow> (probe, Some (later, probe), True))"

definition ready_deep ::
  "services \<Rightarrow> puller_config \<Rightarrow> read_run \<Rightarrow> int \<Rightarrow> int \<Rightarrow> int \<Rightarrow> puller_state \<Rightarrow> 'a reply \<times> puller_state \<times> bool" where
  "ready_deep sv cfg run probe_ms now later st =
     (case pu_db st of
        None \<Rightarrow> (unavailable, st, False)
      | Some d \<Rightarrow>
          (let probe = (if probe_ms > READ_PROBE_TIMEOUT then Inl ''no answer within 5s'' else probe_read sv cfg run d);
               (outcome, cache, probed) = cached_probe now later probe (pu_probe st)
           in ((case outcome of Inr _ \<Rightarrow> saying 200 ''ready'' | Inl _ \<Rightarrow> saying 503 ''S3 read path failing''),
               st\<lparr>pu_probe := cache\<rparr>, probed)))"

section \<open>The browse API\<close>

definition BROWSE_BUDGET :: int where "BROWSE_BUDGET = 10000"

datatype browse_answer =
    AnsPage page
  | AnsObject object_detail
  | AnsTree tree_node
  | AnsReferrers "summary list"
  | AnsPins "pin list"

text \<open>\<open>took\<close> is the time until the query had the connection and ran, \<open>fails\<close> whether the task or SQLite failed.\<close>

definition run_browse :: "int \<Rightarrow> bool \<Rightarrow> (database \<Rightarrow> db_error + 'v option) \<Rightarrow> ('v \<Rightarrow> browse_answer) \<Rightarrow> puller_state \<Rightarrow> browse_answer reply" where
  "run_browse took fails query json st =
     (case pu_db st of
        None \<Rightarrow> unavailable
      | Some d \<Rightarrow>
          if took > BROWSE_BUDGET then saying 503 ''browse query timed out''
          else if fails then plain 500
          else (case query d of
                  Inr (Some v) \<Rightarrow> \<lparr>re_status = 200, re_headers = [(''content-type'', ''application/json'')], re_body = Json (json v)\<rparr>
                | Inr None \<Rightarrow> plain 404
                | Inl _ \<Rightarrow> plain 500))"

record list_query =
  lq_q :: "string option"
  lq_limit :: nat
  lq_cursor :: "cursor option"

text \<open>The query string's \<^verbatim>\<open>q\<close>, \<^verbatim>\<open>limit\<close> and \<^verbatim>\<open>cursor\<close>; \<^verbatim>\<open>None\<close> when extraction fails.\<close>

definition extract_list_query :: "string option \<Rightarrow> string option \<Rightarrow> string option \<Rightarrow> list_query option" where
  "extract_list_query q limit cursor =
     (case (case limit of None \<Rightarrow> Some DEFAULT_LIMIT | Some l \<Rightarrow> parse_usize l) of
        None \<Rightarrow> None
      | Some n \<Rightarrow>
          (case cursor of
             None \<Rightarrow> Some \<lparr>lq_q = q, lq_limit = n, lq_cursor = None\<rparr>
           | Some c \<Rightarrow>
               (case cursor_from_str c of
                  None \<Rightarrow> None
                | Some cu \<Rightarrow> Some \<lparr>lq_q = q, lq_limit = n, lq_cursor = Some cu\<rparr>)))"

datatype browse_request =
    ListObjects "string option" "string option" "string option"
  | ObjectDetail hash
  | ObjectTree hash
  | ObjectReferrers hash
  | ListPins

fun browse_handler :: "services \<Rightarrow> int \<Rightarrow> bool \<Rightarrow> browse_request \<Rightarrow> puller_state \<Rightarrow> browse_answer reply" where
  "browse_handler sv took fails (ListObjects q limit cursor) st =
     (case extract_list_query q limit cursor of
        None \<Rightarrow> plain 400
      | Some lq \<Rightarrow> run_browse took fails (\<lambda>d. Inr (Some (list_objects d (lq_q lq) (lq_limit lq) (lq_cursor lq)))) AnsPage st)"
| "browse_handler sv took fails (ObjectDetail h) st = run_browse took fails (\<lambda>d. browse_object (sv_dec sv) d h) AnsObject st"
| "browse_handler sv took fails (ObjectTree h) st = run_browse took fails (\<lambda>d. Inr (tree d h TREE_DEPTH)) AnsTree st"
| "browse_handler sv took fails (ObjectReferrers h) st = run_browse took fails (\<lambda>d. Inr (Some (browse_referrers d h))) AnsReferrers st"
| "browse_handler sv took fails ListPins st = run_browse took fails (\<lambda>d. Inr (Some (browse_pins d))) AnsPins st"

definition require_browse_oidc ::
  "'k jwt \<Rightarrow> (bool \<Rightarrow> 'k issuer \<Rightarrow> bool \<times> 'k issuer) \<Rightarrow> int \<Rightarrow> int \<Rightarrow> 'k issuer list \<Rightarrow> string option \<Rightarrow> (string \<Rightarrow> 'a reply) \<Rightarrow> 'a reply" where
  "require_browse_oidc jw joined now later issuers authorization handler =
     (case bearer jw joined now later issuers authorization of
        Inr subject \<Rightarrow> handler subject
      | Inl rejection \<Rightarrow>
          (let answer = (case rejection of RejRefused _ \<Rightarrow> ''not authorized'' | _ \<Rightarrow> ''unauthorized'') in
           case respond rejection of
             (status, challenge) \<Rightarrow>
               \<lparr>re_status = status, re_headers = (case challenge of None \<Rightarrow> [] | Some c \<Rightarrow> [(''www-authenticate'', c)]), re_body = Text answer\<rparr>))"

text \<open>With no issuer configured the routes are not there.\<close>

definition browse_routes ::
  "'k jwt \<Rightarrow> (bool \<Rightarrow> 'k issuer \<Rightarrow> bool \<times> 'k issuer) \<Rightarrow> int \<Rightarrow> int \<Rightarrow> 'k issuer option \<Rightarrow> services \<Rightarrow> int \<Rightarrow> bool \<Rightarrow>
   string option \<Rightarrow> browse_request \<Rightarrow> puller_state \<Rightarrow> browse_answer reply" where
  "browse_routes jw joined now later issuer sv took fails authorization rq st =
     (case issuer of
        None \<Rightarrow> plain 404
      | Some i \<Rightarrow> require_browse_oidc jw joined now later [i] authorization (\<lambda>_. browse_handler sv took fails rq st))"

section \<open>Pulls fail harmlessly\<close>

definition in_time :: "int \<Rightarrow> read_run \<Rightarrow> bool" where
  "in_time allowed run \<longleftrightarrow> \<not> rr_fails run \<and> rr_locked run \<le> rr_start run + allowed \<and> rr_ended run \<le> rr_start run + allowed"

lemma db_read_Inr: "db_read allowed run res = Inr v \<longleftrightarrow> in_time allowed run \<and> res = Inr v"
  by (auto simp: db_read_def in_time_def Let_def split: sum.splits)

lemma counted_status [simp]:
  "re_status (snd (counted (Hit r))) = re_status r" "re_status (snd (counted Miss)) = 404"
  "re_status (snd (counted Unavailable)) = 503" "re_status (snd (counted (Degraded dg))) = 404" "re_status (snd (counted Junk)) = 404"
  by (simp_all add: counted_def plain_def unavailable_def saying_def degraded_miss_def)

lemma narinfo_request_cases:
  fixes out :: "'a pull_outcome"
  assumes "narinfo_request sv cfg run now file st = (out, st')"
  obtains (Junk) "out = Junk" "st' = st" "\<nexists>h. file = narinfo_file h \<and> is_store_hash h"
  | (Unavailable) h where "file = narinfo_file h" "is_store_hash h" "pu_db st = None" "out = Unavailable" "st' = st"
  | (Degraded) h d dg where "file = narinfo_file h" "is_store_hash h" "pu_db st = Some d" "out = Degraded dg" "st' = st"
      "db_read (int (uc_db_read_budget_ms cfg)) run (get_object_and_last_accessed (sv_dec sv) d h) = Inl dg"
  | (Miss) h d where "file = narinfo_file h" "is_store_hash h" "pu_db st = Some d" "out = Miss" "st' = st"
      "in_time (int (uc_db_read_budget_ms cfg)) run" "get_object_and_last_accessed (sv_dec sv) d h = Inr None"
  | (Hit) h d ob seen where "file = narinfo_file h" "is_store_hash h" "pu_db st = Some d"
      "in_time (int (uc_db_read_budget_ms cfg)) run" "get_object_and_last_accessed (sv_dec sv) d h = Inr (Some (ob, seen))"
      "out = Hit \<lparr>re_status = 200, re_headers = [(''content-type'', ''text/x-nix-narinfo'')], re_body = Text (render ob)\<rparr>"
      "st' = st\<lparr>pu_pending := bump_hit (uc_bump_debounce_secs cfg) h seen now (pu_pending st)\<rparr>"
proof (cases "\<exists>h. narinfo_hash file = Some h \<and> is_store_hash h")
  case False
  then show ?thesis using assms Junk by (auto simp: narinfo_request_def narinfo_hash_Some split: option.splits if_splits)
next
  case True
  then obtain h where h: "narinfo_hash file = Some h" "is_store_hash h" by blast
  then have f: "file = narinfo_file h" by (simp add: narinfo_hash_Some)
  show ?thesis
  proof (cases "pu_db st")
    case None
    then show ?thesis using assms h f by (intro Unavailable [of h]) (simp_all add: narinfo_request_def)
  next
    case (Some d)
    show ?thesis
    proof (cases "db_read (int (uc_db_read_budget_ms cfg)) run (get_object_and_last_accessed (sv_dec sv) d h)")
      case (Inl dg)
      then show ?thesis using assms h f Some by (intro Degraded [of h d dg]) (simp_all add: narinfo_request_def)
    next
      case (Inr v)
      note read = Inr [unfolded db_read_Inr]
      show ?thesis
      proof (cases v)
        case None
        then show ?thesis using assms h f Some read Inr by (intro Miss [of h d]) (simp_all add: narinfo_request_def)
      next
        case (Some p)
        then show ?thesis using assms h f \<open>pu_db st = Some d\<close> read Inr
          by (cases p) (intro Hit [of h d "fst p" "snd p"], simp_all add: narinfo_request_def)
      qed
    qed
  qed
qed

lemma nar_redirect_Hit:
  "nar_redirect sv cfg run ms file st = Hit r \<longleftrightarrow>
     (\<exists>h d url. nar_file_hash file = Some h \<and> is_store_hash h \<and> pu_db st = Some d \<and> exists_object d h
       \<and> in_time (int (uc_db_read_budget_ms cfg)) run \<and> ms \<le> int (uc_presign_budget_ms cfg)
       \<and> sv_presign sv (key_for h) (uc_presign_ttl_secs cfg) = Inr url
       \<and> r = \<lparr>re_status = 307, re_headers = [(''location'', url)], re_body = Empty\<rparr>)" (is "_ \<longleftrightarrow> ?rhs")
proof
  assume hit: "nar_redirect sv cfg run ms file st = Hit r"
  then obtain h d where hd: "nar_file_hash file = Some h" "is_store_hash h" "pu_db st = Some d"
    by (auto simp: nar_redirect_def split: option.splits if_splits)
  then have "db_read (int (uc_db_read_budget_ms cfg)) run (Inr (exists_object d h)) = Inr True"
    using hit by (auto simp: nar_redirect_def split: sum.splits bool.splits)
  then show ?rhs using hit hd by (auto simp: nar_redirect_def db_read_Inr split: sum.splits if_splits)
next
  assume ?rhs
  then obtain h d url where h: "nar_file_hash file = Some h" "is_store_hash h" "pu_db st = Some d" "exists_object d h"
    "in_time (int (uc_db_read_budget_ms cfg)) run" "ms \<le> int (uc_presign_budget_ms cfg)"
    "sv_presign sv (key_for h) (uc_presign_ttl_secs cfg) = Inr url"
    "r = \<lparr>re_status = 307, re_headers = [(''location'', url)], re_body = Empty\<rparr>" by blast
  then have "db_read (int (uc_db_read_budget_ms cfg)) run (Inr (exists_object d h)) = Inr True" by (simp add: db_read_Inr)
  then show "nar_redirect sv cfg run ms file st = Hit r" using h by (simp add: nar_redirect_def)
qed

lemma nar_redirect_Hit_307: "nar_redirect sv cfg run ms file st = Hit r \<Longrightarrow> re_status r = 307"
  unfolding nar_redirect_Hit by auto

lemma nar_redirect_status:
  "re_status (snd (counted (nar_redirect sv cfg run ms file st :: 'a pull_outcome))) \<in> {307, 404, 503}"
proof (cases "nar_redirect sv cfg run ms file st :: 'a pull_outcome")
  case (Hit r)
  then have "re_status r = 307" by (rule nar_redirect_Hit_307)
  then show ?thesis unfolding Hit by simp
qed simp_all

lemma nar_redirect_307:
  "re_status (snd (counted (nar_redirect sv cfg run ms file st :: 'a pull_outcome))) = 307
     \<longleftrightarrow> (\<exists>r. (nar_redirect sv cfg run ms file st :: 'a pull_outcome) = Hit r)"
proof (cases "nar_redirect sv cfg run ms file st :: 'a pull_outcome")
  case (Hit r)
  then have "re_status r = 307" by (rule nar_redirect_Hit_307)
  then show ?thesis unfolding Hit by simp
qed simp_all

lemma nar_redirect_unavailable:
  "nar_redirect sv cfg run ms file st = Unavailable \<longleftrightarrow> pu_db st = None \<and> (\<exists>h. nar_file_hash file = Some h \<and> is_store_hash h)"
  by (auto simp: nar_redirect_def split: option.splits sum.splits bool.splits if_splits)


definition demo_services :: services where
  "demo_services = \<lparr>sv_dec = demo_dec, sv_presign = \<lambda>key ttl. Inr (''https://s/'' @ key), sv_fetch = \<lambda>url. Inr (200, None, [])\<rparr>"

definition demo_puller :: puller_config where
  "demo_puller = default_puller ''/tmp/x.db'' (default_s3 ''b'')"

definition demo_serving :: puller_state where
  "demo_serving = \<lparr>pu_db = Some (one_object_db (rep_hash CHR ''a'') 7), pu_pending = [], pu_probe = None\<rparr>"

definition demo_run :: read_run where
  "demo_run = \<lparr>rr_start = 0, rr_locked = 1, rr_ended = 2, rr_fails = False\<rparr>"

lemma demo_narinfo:
  "narinfo_request demo_services demo_puller demo_run 100000 (narinfo_file (rep_hash CHR ''a'')) demo_serving
     = (Hit \<lparr>re_status = 200, re_headers = [(''content-type'', ''text/x-nix-narinfo'')], re_body = Text (render (fixture_object (rep_hash CHR ''a'')))\<rparr>,
        demo_serving\<lparr>pu_pending := [rep_hash CHR ''a'']\<rparr>)"
proof -
  have hash: "is_store_hash (rep_hash CHR ''a'')" by code_simp
  have row: "get_object_and_last_accessed demo_dec (one_object_db (rep_hash CHR ''a'') 7) (rep_hash CHR ''a'')
      = Inr (Some (fixture_object (rep_hash CHR ''a''), 7))"
    by (simp add: get_object_and_last_accessed_def find_row_def refs_of_def one_object_db_def row_of_object_def fixture_object_def demo_dec_def)
  show ?thesis
    by (simp add: narinfo_request_def hash demo_serving_def demo_services_def row db_read_def demo_run_def demo_puller_def default_puller_def
        db_read_budget_def bump_debounce_def bump_hit_def)
qed


section \<open>Served objects stay recent\<close>

lemma bump_flush_db:
  assumes "bump_flush writes debounce now st = (n, st')"
  shows "(pu_db st' = None \<longleftrightarrow> pu_db st = None) \<and> (\<forall>d d'. pu_db st = Some d \<longrightarrow> pu_db st' = Some d' \<longrightarrow> db_keys d' = db_keys d \<and> (db_inv d \<longrightarrow> db_inv d'))"
proof -
  have "db_keys (bump_last_accessed d hs now debounce) = db_keys d" for d hs
    unfolding bump_last_accessed_def by (rule db_keys_fold_update_row) (simp add: bump_row_def)
  then show ?thesis using assms db_inv_bump by (auto simp: bump_flush_def Let_def split: if_splits)
qed

lemma bump_fold:
  assumes "0 \<le> debounce" "r' \<in> set (db_objects (bump_last_accessed d hs now debounce))"
  shows "\<exists>r \<in> set (db_objects d). r' = r\<lparr>row_last_accessed_at := row_last_accessed_at r'\<rparr> \<and> row_last_accessed_at r \<le> row_last_accessed_at r'
    \<and> (row_hash r \<in> set hs \<longrightarrow> now - debounce \<le> row_last_accessed_at r') \<and> (row_hash r \<notin> set hs \<longrightarrow> r' = r)"
  using assms(2)
proof (induction hs arbitrary: d)
  case (Cons h hs)
  from Cons.prems have "r' \<in> set (db_objects (bump_last_accessed (update_row (bump_row now debounce) h d) hs now debounce))"
    by (simp add: bump_last_accessed_def)
  from Cons.IH [OF this] obtain r1 where r1: "r1 \<in> set (db_objects (update_row (bump_row now debounce) h d))"
    "r' = r1\<lparr>row_last_accessed_at := row_last_accessed_at r'\<rparr>" "row_last_accessed_at r1 \<le> row_last_accessed_at r'"
    "row_hash r1 \<in> set hs \<longrightarrow> now - debounce \<le> row_last_accessed_at r'" "row_hash r1 \<notin> set hs \<longrightarrow> r' = r1" by blast
  obtain r where r: "r \<in> set (db_objects d)" "r1 = (if row_hash r = h then bump_row now debounce r else r)"
    using r1(1) by (fastforce simp: update_row_def)
  have b: "row_hash (bump_row now debounce r) = row_hash r" "row_last_accessed_at r \<le> row_last_accessed_at (bump_row now debounce r)"
    "now - debounce \<le> row_last_accessed_at (bump_row now debounce r)"
    "(bump_row now debounce r)\<lparr>row_last_accessed_at := x\<rparr> = r\<lparr>row_last_accessed_at := x\<rparr>" for x
    using assms(1) by (simp_all add: bump_row_def)
  show ?case
  proof (cases "row_hash r = h")
    case True
    then show ?thesis using r1 r b by (intro bexI [of _ r] conjI) auto
  next
    case False
    then show ?thesis using r1 r by (intro bexI [of _ r] conjI) auto
  qed
qed (simp add: bump_last_accessed_def)



section \<open>The readiness probe is rate limited\<close>

text \<open>One deep-readiness request: what the services and the database are, the read's run, the probe's duration, when the cache was locked and released.\<close>

record deep_request =
  dr_services :: services
  dr_db :: "database option"
  dr_run :: read_run
  dr_ms :: int
  dr_now :: int
  dr_later :: int

text \<open>When the probes ran, in the order of the requests.\<close>

fun probe_log :: "puller_config \<Rightarrow> deep_request list \<Rightarrow> puller_state \<Rightarrow> (int \<times> int) list" where
  "probe_log cfg [] st = []"
| "probe_log cfg (q # qs) st =
     (case (ready_deep (dr_services q) cfg (dr_run q) (dr_ms q) (dr_now q) (dr_later q) (st\<lparr>pu_db := dr_db q\<rparr>) :: unit reply \<times> puller_state \<times> bool) of
        (_, st', probed) \<Rightarrow> (if probed then [(dr_now q, dr_later q)] else []) @ probe_log cfg qs st')"

lemma ready_deep_probe:
  assumes "ready_deep sv cfg run ms now later st = (r, st', probed)"
  shows "if probed then (\<forall>t v. pu_probe st = Some (t, v) \<longrightarrow> t + READ_PROBE_TTL \<le> now) \<and> (\<exists>v. pu_probe st' = Some (later, v)) else pu_probe st' = pu_probe st"
  using assms by (auto simp: ready_deep_def cached_probe_def Let_def split: option.splits prod.splits if_splits)

lemma probe_log_from_cache:
  assumes "sorted_wrt (\<lambda>p q. dr_later p \<le> dr_now q) qs" "\<forall>q \<in> set qs. dr_now q \<le> dr_later q"
    and "\<forall>t v. pu_probe st = Some (t, v) \<longrightarrow> (\<forall>q \<in> set qs. t \<le> dr_now q)"
  shows "sorted_wrt (\<lambda>p q. snd p + READ_PROBE_TTL \<le> fst q) (probe_log cfg qs st)
    \<and> (\<forall>p \<in> set (probe_log cfg qs st). \<forall>t v. pu_probe st = Some (t, v) \<longrightarrow> t + READ_PROBE_TTL \<le> fst p)"
  using assms
proof (induction qs arbitrary: st)
  case (Cons q qs)
  obtain r st' probed where run: "(ready_deep (dr_services q) cfg (dr_run q) (dr_ms q) (dr_now q) (dr_later q) (st\<lparr>pu_db := dr_db q\<rparr>) :: unit reply \<times> puller_state \<times> bool) = (r, st', probed)"
    by (metis prod_cases3)
  note p = ready_deep_probe [OF run]
  show ?case
  proof (cases probed)
    case True
    then obtain v where v: "pu_probe st' = Some (dr_later q, v)" using p by auto
    have IH: "sorted_wrt (\<lambda>p q. snd p + READ_PROBE_TTL \<le> fst q) (probe_log cfg qs st')"
      "\<forall>p \<in> set (probe_log cfg qs st'). dr_later q + READ_PROBE_TTL \<le> fst p"
      using Cons.IH [of st'] Cons.prems v by auto
    have "t + READ_PROBE_TTL \<le> dr_now q \<and> dr_now q \<le> dr_later q" if "pu_probe st = Some (t, w)" for t w
      using p True that Cons.prems(2) by auto
    then show ?thesis using IH True run by (fastforce simp: READ_PROBE_TTL_def)
  next
    case False
    then have "pu_probe st' = pu_probe st" using p by simp
    then show ?thesis using Cons.IH [of st'] Cons.prems False run by simp
  qed
qed simp

text \<open>
  However often deep readiness is asked for, by whomever, and whatever the answers: a probe of
  the object store starts at least thirty seconds after the one before it ended. The requests hold
  the cache's lock one after the other; those in between are answered from the cache.
\<close>

theorem probes_are_spaced:
  assumes "sorted_wrt (\<lambda>p q. dr_later p \<le> dr_now q) qs" "\<forall>q \<in> set qs. dr_now q \<le> dr_later q" "pu_probe st = None"
  shows "sorted_wrt (\<lambda>p q. snd p + 30 \<le> fst q) (probe_log cfg qs st)"
  using probe_log_from_cache [OF assms(1,2), of st cfg] assms(3) by (simp add: READ_PROBE_TTL_def)

theorem probes_are_spaced_witness:
  "let q = \<lambda>t. \<lparr>dr_services = demo_services, dr_db = Some (one_object_db (rep_hash CHR ''a'') 7), dr_run = demo_run, dr_ms = 1, dr_now = t, dr_later = t + 1\<rparr>
   in probe_log demo_puller [q 0, q 10, q 31, q 40] demo_serving = [(0, 1), (31, 32)]
      \<and> sorted_wrt (\<lambda>p q. snd p + 30 \<le> fst q) (probe_log demo_puller [q 0, q 10, q 31, q 40] demo_serving)"
proof -
  let ?q = "\<lambda>t. \<lparr>dr_services = demo_services, dr_db = Some (one_object_db (rep_hash CHR ''a'') 7), dr_run = demo_run, dr_ms = 1, dr_now = t, dr_later = t + 1\<rparr>"
  have "sorted_wrt (\<lambda>p q. snd p + 30 \<le> fst q) (probe_log demo_puller [?q 0, ?q 10, ?q 31, ?q 40] demo_serving)"
    by (rule probes_are_spaced) (simp_all add: demo_serving_def)
  then show ?thesis
    by (simp add: ready_deep_def cached_probe_def demo_serving_def READ_PROBE_TTL_def Let_def)
qed

section \<open>Browsing needs a token\<close>

lemma browse_authenticated:
  assumes "browse_routes jw joined now later (Some i) sv took fails authorization rq st = r" "re_status r \<notin> {401, 403}"
  shows "\<exists>subject. bearer jw joined now later [i] authorization = Inr subject \<and> r = browse_handler sv took fails rq st"
  using assms by (auto simp: browse_routes_def require_browse_oidc_def respond_def Let_def split: sum.splits rejection.splits)

end
