(* ===== verification/Push_Order.thy ===== *)
theory Push_Order
  imports Kahn
begin

text \<open>
  \<^verbatim>\<open>crates/garret-client/src/push.rs\<close>: what the client knows of a path, and the order in which
  uploads are started (\<^verbatim>\<open>references_first\<close>), by Kahn's algorithm with a queue. \<^verbatim>\<open>None\<close> is a panic.
\<close>

record path_info =
  pi_path :: string
  pi_nar_hash :: string
  pi_nar_size :: int
  pi_references :: "string list"
  pi_deriver :: "string option"
  pi_ca :: "string option"
  pi_signatures :: "string list"

section \<open>The order\<close>

text \<open>The edges from a reference to its referrer, in the order of the nested loops.\<close>

definition edges_of :: "path_info list \<Rightarrow> nat \<times> path_info \<Rightarrow> (nat \<times> nat) list" where
  "edges_of paths e =
     concat (map (\<lambda>r. case key_index (map pi_path paths) r of
                        None \<Rightarrow> []
                      | Some j \<Rightarrow> if j \<noteq> fst e then [(j, fst e)] else [])
                 (pi_references (snd e)))"

definition batch_edges :: "path_info list \<Rightarrow> (nat \<times> nat) list" where
  "batch_edges paths = concat (map (edges_of paths) (zip [0..<length paths] paths))"

text \<open>The queue is the order itself: what is before \<open>nxt\<close> has been taken off it.\<close>

function kahn_queue :: "nat list list \<Rightarrow> nat list \<Rightarrow> nat list \<Rightarrow> nat \<Rightarrow> (nat list \<times> nat list) option" where
  "kahn_queue succ cnt order nxt =
     (case get_at order nxt of
        None \<Rightarrow> Some (order, cnt)
      | Some i \<Rightarrow>
          (case release cnt order (succ ! i) of
             None \<Rightarrow> None
           | Some (cnt', order') \<Rightarrow> kahn_queue succ cnt' order' (nxt + 1)))"
  by pat_completeness auto
termination
proof (relation "measure (\<lambda>(succ, cnt, order, nxt). 2 * sum_list cnt + length order - nxt)")
  fix succ :: "nat list list" and cnt order nxt i x cnt' order'
  assume "get_at order nxt = Some i" "release cnt order (succ ! i) = Some x" "(cnt', order') = x"
  then show "((succ, cnt', order', nxt + 1), (succ, cnt, order, nxt)) \<in> measure (\<lambda>(succ, cnt, order, nxt). 2 * sum_list cnt + length order - nxt)"
    using release_measure [of cnt order "succ ! i" cnt' order'] by (auto simp: get_at_Some)
qed simp

declare kahn_queue.simps [simp del]

text \<open>\<^verbatim>\<open>slots[i].take().expect(..)\<close> for each index.\<close>

fun take_slots :: "'a option list \<Rightarrow> nat list \<Rightarrow> 'a list option" where
  "take_slots slots [] = Some []"
| "take_slots slots (i # is) =
     (case get_at slots i of
        Some (Some x) \<Rightarrow> map_option (\<lambda>xs. x # xs) (take_slots (slots[i := None]) is)
      | _ \<Rightarrow> None)"

definition references_first :: "path_info list \<Rightarrow> path_info list option" where
  "references_first paths =
     (let n = length paths;
          (referrers, waiting) = build_edges n (batch_edges paths);
          order = filter (\<lambda>i. waiting ! i = 0) [0..<n]
      in case kahn_queue referrers waiting order 0 of
           None \<Rightarrow> None
         | Some (order, waiting) \<Rightarrow> take_slots (map Some paths) (order @ filter (\<lambda>i. waiting ! i > 0) [0..<n]))"

section \<open>It is Kahn's\<close>

lemma release_prefix:
  "release cnt (p @ ready) js = map_option (\<lambda>(c, r). (c, p @ r)) (release cnt ready js)"
proof (induction cnt ready js rule: release.induct)
  case (2 cnt ready j js)
  show ?case
  proof (cases "get_at cnt j")
    case (Some v)
    then show ?thesis using 2 by (cases v) (auto simp del: append_assoc simp add: append_assoc [symmetric])
  qed simp
qed simp

lemma kahn_queue_inv:
  assumes "kahn_inv succ cnt (drop nxt order) (take nxt order)" "nxt \<le> length order"
  shows "\<exists>order' cnt'. kahn_queue succ cnt order nxt = Some (order', cnt') \<and> kahn_inv succ cnt' [] order'"
  using assms
proof (induction succ cnt order nxt rule: kahn_queue.induct)
  case (1 succ cnt order nxt)
  show ?case
  proof (cases "nxt < length order")
    case False
    then show ?thesis using 1(2,3) by (simp add: kahn_queue.simps [of succ cnt order] get_at_def)
  next
    case True
    let ?i = "order ! nxt" and ?rest = "drop (Suc nxt) order"
    have ready: "drop nxt order = ?i # ?rest" using True by (simp add: Cons_nth_drop_Suc)
    have "distinct (drop nxt order)" using 1(2) by (simp add: kahn_inv_def)
    then have "distinct ?rest" "set ?rest = set (drop nxt order) - {?i}" "?i \<in> set (drop nxt order)" unfolding ready by auto
    from kahn_step [OF 1(2) this(3,1,2)] obtain cnt' rest' where
      step: "release cnt ?rest (succ ! ?i) = Some (cnt', rest')" "kahn_inv succ cnt' rest' (take nxt order @ [?i])" by blast
    have split: "take (Suc nxt) order = take nxt order @ [?i]" using True by (rule take_Suc_conv_app_nth)
    have rel: "release cnt order (succ ! ?i) = Some (cnt', take (Suc nxt) order @ rest')"
      using release_prefix [of cnt "take (Suc nxt) order" ?rest "succ ! ?i"] step(1) by simp
    have len: "length (take (Suc nxt) order) = nxt + 1" using True by simp
    have "kahn_inv succ cnt' (drop (nxt + 1) (take (Suc nxt) order @ rest')) (take (nxt + 1) (take (Suc nxt) order @ rest'))"
      using step(2) len split by (simp add: min_def)
    then show ?thesis using 1(1) [OF _ rel refl] True rel len by (auto simp: kahn_queue.simps [of _ _ _ nxt] get_at_def)
  qed
qed

lemma take_slots_ok:
  "distinct is \<Longrightarrow> \<forall>i \<in> set is. i < length slots \<and> slots ! i = Some (f i) \<Longrightarrow> take_slots slots is = Some (map f is)"
proof (induction "is" arbitrary: slots)
  case (Cons a "is")
  then have "\<forall>i \<in> set is. i < length (slots[a := None]) \<and> slots[a := None] ! i = Some (f i)" by (auto simp: nth_list_update)
  then show ?case using Cons by (simp add: get_at_def)
qed simp

lemma batch_edges_iff:
  "(a, b) \<in> set (batch_edges paths) \<longleftrightarrow>
     b < length paths \<and> a \<noteq> b \<and> (\<exists>r \<in> set (pi_references (paths ! b)). key_index (map pi_path paths) r = Some a)"
  by (force simp: batch_edges_def edges_of_def set_zip split: option.splits if_splits)

lemma key_index_range: "key_index ks k = Some j \<Longrightarrow> j < length ks \<and> ks ! j = k"
  unfolding key_index_def by (drule map_of_SomeD) (auto simp: in_set_zip)

lemma batch_edges_range: "\<forall>(a, b) \<in> set (batch_edges paths). a < length paths \<and> b < length paths"
  using key_index_range by (fastforce simp: batch_edges_iff)

text \<open>The references inside a batch, from a reference to its referrer.\<close>

definition batch_refs :: "path_info list \<Rightarrow> (string \<times> string) set" where
  "batch_refs paths = {(r, pi_path p) | r p. p \<in> set paths \<and> r \<in> set (pi_references p) \<and> r \<in> pi_path ` set paths \<and> r \<noteq> pi_path p}"

lemma references_first_order:
  obtains don where "references_first paths = Some (map ((!) paths) (don @ filter (\<lambda>i. i \<notin> set don) [0..<length paths]))"
    and "distinct don" "set don \<subseteq> {..<length paths}"
    and "\<And>k a. k < length don \<Longrightarrow> (a, don ! k) \<in> set (batch_edges paths) \<Longrightarrow> a \<in> set (take k don)"
    and "acyclic (set (batch_edges paths)) \<Longrightarrow> set don = {..<length paths}"
proof -
  let ?n = "length paths" and ?es = "batch_edges paths"
  obtain succ cnt where g: "build_edges ?n ?es = (succ, cnt)" by fastforce
  note init = kahn_init [OF batch_edges_range g]
  note be = build_edges [OF batch_edges_range [of paths], unfolded g fst_conv snd_conv]
  obtain don cnt' where q: "kahn_queue succ cnt (filter (\<lambda>i. cnt ! i = 0) [0..<?n]) 0 = Some (don, cnt')" "kahn_inv succ cnt' [] don"
    using kahn_queue_inv [of succ cnt 0 "filter (\<lambda>i. cnt ! i = 0) [0..<?n]"] init by auto
  note fin = kahn_end [OF q(2)]
  have "(a, b) \<in> index_edges succ \<longleftrightarrow> (a, b) \<in> set ?es" for a b
  proof (cases "a < ?n")
    case True
    then have "b \<in> set (succ ! a) \<longleftrightarrow> (a, b) \<in> set ?es" unfolding be(3) [OF True] by force
    then show ?thesis using True be(1) by (simp add: index_edges_def)
  next
    case False
    then show ?thesis using be(1) batch_edges_range [of paths] by (auto simp: index_edges_def)
  qed
  then have edges: "index_edges succ = set ?es" by (intro set_eqI) (metis surj_pair)
  have left: "filter (\<lambda>i. cnt' ! i > 0) [0..<?n] = filter (\<lambda>i. i \<notin> set don) [0..<?n]"
    using fin(2) init by (intro filter_cong) auto
  have "take_slots (map Some paths) (don @ filter (\<lambda>i. i \<notin> set don) [0..<?n])
      = Some (map ((!) paths) (don @ filter (\<lambda>i. i \<notin> set don) [0..<?n]))"
  proof (rule take_slots_ok)
    show "distinct (don @ filter (\<lambda>i. i \<notin> set don) [0..<?n])" using fin(1) by auto
    have "set don \<subseteq> {..<?n}" using fin(2) init by auto
    then show "\<forall>i \<in> set (don @ filter (\<lambda>i. i \<notin> set don) [0..<?n]). i < length (map Some paths) \<and> map Some paths ! i = Some (paths ! i)"
      by auto
  qed
  then have res: "references_first paths = Some (map ((!) paths) (don @ filter (\<lambda>i. i \<notin> set don) [0..<?n]))"
    by (simp add: references_first_def g q(1) left)
  have len: "length succ = ?n" using init by simp
  show ?thesis
  proof (rule that [OF res fin(1)])
    show "set don \<subseteq> {..<?n}" using fin(2) len by auto
    show "a \<in> set (take k don)" if "k < length don" "(a, don ! k) \<in> set ?es" for k a
      using fin(3) [OF that(1)] that(2) unfolding edges by blast
    show "set don = {..<?n}" if "acyclic (set ?es)" using fin(4) that unfolding edges len by blast
  qed
qed

lemma references_first_perm: "\<exists>out. references_first paths = Some out \<and> mset out = mset paths"
proof -
  let ?n = "length paths"
  obtain don where out: "references_first paths = Some (map ((!) paths) (don @ filter (\<lambda>i. i \<notin> set don) [0..<?n]))" (is "_ = Some ?out")
    and don: "distinct don" "set don \<subseteq> {..<?n}"
    using references_first_order [of paths] by metis
  have "mset (don @ filter (\<lambda>i. i \<notin> set don) [0..<?n]) = mset [0..<?n]"
    using don by (subst set_eq_iff_mset_eq_distinct [symmetric]) auto
  then have "mset ?out = mset (map ((!) paths) [0..<?n])" by (metis mset_map)
  then show ?thesis using out by (simp add: map_nth)
qed


definition demo_path :: "string \<Rightarrow> string list \<Rightarrow> path_info" where
  "demo_path p refs = \<lparr>pi_path = p, pi_nar_hash = ''sha256:x'', pi_nar_size = 10, pi_references = refs, pi_deriver = None, pi_ca = None, pi_signatures = []\<rparr>"


end
