(* ===== verification/Push_Client.thy ===== *)
theory Push_Client
  imports Push_Order Browse
begin

text \<open>
  \<^verbatim>\<open>crates/garret-client/src/push.rs\<close>: negotiation, uploads with their retries, and the run over a
  closure. Parameters: the answers of the Pusher and of the token source, how long each attempt
  took, the random numbers behind the jitter, and the order in which concurrent uploads finish.
  Durations are milliseconds. Of an error only what the code branches on is kept; the texts for
  the terminal, the progress bar, compression and the child processes are not modelled.
\<close>

section \<open>Answers\<close>

datatype io_kind = BrokenPipe | ConnectionReset | ConnectionAborted | UnexpectedEof | OtherIo
datatype cause = IoCause io_kind | OtherCause string

definition contains :: "string \<Rightarrow> string \<Rightarrow> bool" where
  "contains s pat = list_ex (\<lambda>t. strip_prefix pat t \<noteq> None) (tails s)"

text \<open>The error and its sources, outermost first.\<close>

fun connection_dropped :: "cause list \<Rightarrow> bool" where
  "connection_dropped [] = False"
| "connection_dropped (IoCause k # cs) = (k \<in> {BrokenPipe, ConnectionReset, ConnectionAborted, UnexpectedEof})"
| "connection_dropped (OtherCause m # cs) =
     (if contains m ''connection closed before message completed'' then True else connection_dropped cs)"

record transport =
  tr_timeout :: bool
  tr_connect :: bool
  tr_chain :: "cause list"

datatype attempt_error =
    Shed nat
  | Rejected nat string
  | Stalled nat
  | Transport transport
  | OtherFailure string

fun is_retryable :: "attempt_error \<Rightarrow> bool" where
  "is_retryable (Rejected status body) = (500 \<le> status \<and> status < 600)"
| "is_retryable (Stalled _) = True"
| "is_retryable (Transport t) = (tr_timeout t \<or> tr_connect t \<or> connection_dropped (tr_chain t))"
| "is_retryable _ = False"

definition WAIT_DEADLINE :: nat where "WAIT_DEADLINE = 15 * 60 * 1000"
definition IN_PROGRESS_MAX_POLL :: nat where "IN_PROGRESS_MAX_POLL = 30 * 1000"

definition shed_for :: "string option \<Rightarrow> nat" where
  "shed_for header =
     (let secs = (case Option.bind header (\<lambda>v. parse_usize (trim v)) of Some s \<Rightarrow> s | None \<Rightarrow> 1)
      in max 1000 (min WAIT_DEADLINE (secs * 1000)))"

definition retry_after :: "nat \<Rightarrow> string option \<Rightarrow> nat option" where
  "retry_after status header =
     (if status = 429 then Some (shed_for header)
      else if status = 503 then map_option (\<lambda>v. shed_for (Some v)) header
      else None)"

text \<open>One exchange with the Pusher: no answer, or a status, the \<^verbatim>\<open>Retry-After\<close> header and a body.\<close>

datatype exchange = NoAnswer attempt_error | Answer nat "string option" string

definition preamble_for :: "path_info \<Rightarrow> preamble" where
  "preamble_for info =
     \<lparr>pre_store_path = pi_path info, pre_nar_hash = pi_nar_hash info, pre_nar_size = pi_nar_size info,
      pre_references = pi_references info, pre_deriver = pi_deriver info, pre_ca = pi_ca info\<rparr>"

definition upload_url :: "string \<Rightarrow> path_info \<Rightarrow> string" where
  "upload_url endpoint info = endpoint @ with_hash NAR_UPLOAD (hash_of_store_path (pi_path info))"

text \<open>\<open>ack\<close> parses the body; an unknown status is an error.\<close>

definition attempt :: "(string \<Rightarrow> upload_ack option) \<Rightarrow> exchange \<Rightarrow> attempt_error + upload_ack" where
  "attempt ack x =
     (case x of
        NoAnswer e \<Rightarrow> Inl e
      | Answer status header body \<Rightarrow>
          (case retry_after status header of
             Some after \<Rightarrow> Inl (Shed after)
           | None \<Rightarrow>
               if \<not> (200 \<le> status \<and> status < 300) then Inl (Rejected status body)
               else (case ack body of
                       None \<Rightarrow> Inl (OtherFailure ''parsing upload response'')
                     | Some a \<Rightarrow> Inr a)))"

section \<open>Retries\<close>

record backoff =
  bo_started :: nat
  bo_retries :: nat
  bo_max_retries :: nat
  bo_delay :: nat
  bo_poll :: nat

definition new_backoff :: "nat \<Rightarrow> nat \<Rightarrow> backoff" where
  "new_backoff now max_retries =
     \<lparr>bo_started = now, bo_retries = 0, bo_max_retries = max_retries, bo_delay = 250, bo_poll = 1000\<rparr>"

definition jitter :: "nat \<Rightarrow> nat \<Rightarrow> nat" where
  "jitter rnd delay = rnd mod max delay 1"

definition queued :: "nat \<Rightarrow> nat \<Rightarrow> nat \<Rightarrow> backoff \<Rightarrow> nat option \<times> backoff" where
  "queued now rnd base b =
     (let b' = b\<lparr>bo_retries := 0, bo_delay := 250\<rparr>; wait = base + jitter rnd base in
      (if (now - bo_started b) + wait \<le> WAIT_DEADLINE then Some wait else None, b'))"

definition in_progress :: "nat \<Rightarrow> nat \<Rightarrow> backoff \<Rightarrow> nat option \<times> backoff" where
  "in_progress now rnd b =
     (let poll = bo_poll b in queued now rnd poll (b\<lparr>bo_poll := min (poll * 2) IN_PROGRESS_MAX_POLL\<rparr>))"

definition backoff_next :: "nat \<Rightarrow> nat \<Rightarrow> attempt_error \<Rightarrow> backoff \<Rightarrow> nat option \<times> backoff" where
  "backoff_next now rnd e b =
     (case e of
        Shed after \<Rightarrow> queued now rnd after b
      | _ \<Rightarrow>
          if bo_retries b \<ge> bo_max_retries b \<or> \<not> is_retryable e then (None, b)
          else (Some (bo_delay b + jitter rnd (bo_delay b)),
                b\<lparr>bo_retries := bo_retries b + 1, bo_delay := bo_delay b * 2\<rparr>))"

section \<open>One path\<close>

datatype push_error = TokenFailed string | RenewFailed string | AttemptFailed attempt_error | StillUploading

datatype push_outcome = Pushed | Deduped | Failed push_error | Upstream | WouldPush

fun outcome_status :: "push_outcome \<Rightarrow> string" where
  "outcome_status Pushed = ''pushed''"
| "outcome_status Deduped = ''deduped''"
| "outcome_status (Failed _) = ''failed''"
| "outcome_status Upstream = ''upstream''"
| "outcome_status WouldPush = ''would-push''"

text \<open>
  What the \<open>k\<close>-th round of the loop meets: the token source, the Pusher, the renewal, how long the
  round took before its wait, a random number, and how much a sleep overslept.
\<close>

record rounds =
  ro_token :: "nat \<Rightarrow> string + string"
  ro_exchange :: "nat \<Rightarrow> exchange"
  ro_renew :: "nat \<Rightarrow> string + string option"
  ro_took :: "nat \<Rightarrow> nat"
  ro_rand :: "nat \<Rightarrow> nat"
  ro_late :: "nat \<Rightarrow> nat"

definition is_unauthorized :: "attempt_error \<Rightarrow> bool" where
  "is_unauthorized e = (case e of Rejected status _ \<Rightarrow> status = 401 | _ \<Rightarrow> False)"

text \<open>The loop, with fuel for the rounds; \<^verbatim>\<open>None\<close> when it runs out.\<close>

fun push_loop ::
  "(string \<Rightarrow> upload_ack option) \<Rightarrow> rounds \<Rightarrow> nat \<Rightarrow> nat \<Rightarrow> backoff \<Rightarrow> bool \<Rightarrow> nat \<Rightarrow> (push_error + push_outcome) option" where
  "push_loop ack ro 0 k b renewed now = None"
| "push_loop ack ro (Suc fuel) k b renewed now =
     (case ro_token ro k of
        Inl e \<Rightarrow> Some (Inl (TokenFailed e))
      | Inr token \<Rightarrow>
          (let now = now + ro_took ro k in
           case attempt ack (ro_exchange ro k) of
             Inr Exists \<Rightarrow> Some (Inr Deduped)
           | Inr Created \<Rightarrow> Some (Inr Pushed)
           | Inr InProgress \<Rightarrow>
               (case in_progress now (ro_rand ro k) b of
                  (Some wait, b') \<Rightarrow> push_loop ack ro fuel (k + 1) b' renewed (now + wait + ro_late ro k)
                | (None, b') \<Rightarrow> Some (Inl StillUploading))
           | Inl e \<Rightarrow>
               (let backing_off =
                      (case backoff_next now (ro_rand ro k) e b of
                         (Some wait, b') \<Rightarrow> push_loop ack ro fuel (k + 1) b' renewed (now + wait + ro_late ro k)
                       | (None, b') \<Rightarrow> Some (Inl (AttemptFailed e)))
                in if \<not> renewed \<and> is_unauthorized e then
                     (case ro_renew ro k of
                        Inl err \<Rightarrow> Some (Inl (RenewFailed err))
                      | Inr (Some _) \<Rightarrow> push_loop ack ro fuel (k + 1) b True now
                      | Inr None \<Rightarrow> backing_off)
                   else backing_off)))"

text \<open>The most rounds a path can take.\<close>

definition max_rounds :: "nat \<Rightarrow> nat" where
  "max_rounds max_retries = 900 * (max_retries + 1) + max_retries + 2"

definition push_one :: "(string \<Rightarrow> upload_ack option) \<Rightarrow> rounds \<Rightarrow> nat \<Rightarrow> nat \<Rightarrow> (push_error + push_outcome) option" where
  "push_one ack ro max_retries now = push_loop ack ro (max_rounds max_retries) 0 (new_backoff now max_retries) False now"

section \<open>The loop ends\<close>

text \<open>What is left: seconds of waiting until the deadline, retries, and the one renewal.\<close>

definition rounds_left :: "backoff \<Rightarrow> bool \<Rightarrow> nat \<Rightarrow> nat" where
  "rounds_left b renewed now =
     ((WAIT_DEADLINE - (now - bo_started b)) div 1000) * (bo_max_retries b + 1)
     + (bo_max_retries b - bo_retries b) + (if renewed then 0 else 1)"

lemma rounds_left_mono:
  "now \<le> now' \<Longrightarrow> rounds_left b renewed now' \<le> rounds_left b renewed now"
  unfolding rounds_left_def by (intro add_le_mono mult_le_mono div_le_mono) simp_all

lemma queued_decreases:
  assumes "queued now rnd base b = (Some wait, b')" "1000 \<le> base" "bo_started b \<le> now"
  shows "rounds_left b' renewed (now + wait) < rounds_left b renewed now"
proof -
  let ?m = "bo_max_retries b + 1" and ?e = "now - bo_started b"
  have w: "1000 \<le> wait" "?e + wait \<le> WAIT_DEADLINE" "b' = b\<lparr>bo_retries := 0, bo_delay := 250\<rparr>"
    using assms(1,2) by (auto simp: queued_def Let_def split: if_splits)
  let ?q = "(WAIT_DEADLINE - (?e + wait)) div 1000"
  have "?q + 1 = (WAIT_DEADLINE - (?e + wait) + 1000) div 1000" by simp
  also have "\<dots> \<le> (WAIT_DEADLINE - ?e) div 1000" using w(1,2) by (intro div_le_mono) linarith
  finally have "?q * ?m + ?m \<le> (WAIT_DEADLINE - ?e) div 1000 * ?m"
    by (metis add_mult_distrib mult.left_neutral mult_le_mono1)
  moreover have "now + wait - bo_started b = ?e + wait" using assms(3) by simp
  ultimately show ?thesis using w(3) by (simp add: rounds_left_def)
qed

lemma in_progress_decreases:
  assumes "in_progress now rnd b = (Some wait, b')" "1000 \<le> bo_poll b" "bo_started b \<le> now"
  shows "rounds_left b' renewed (now + wait) < rounds_left b renewed now"
proof -
  let ?b = "b\<lparr>bo_poll := min (bo_poll b * 2) IN_PROGRESS_MAX_POLL\<rparr>"
  have "rounds_left b' renewed (now + wait) < rounds_left ?b renewed now"
    using assms by (intro queued_decreases [of now rnd "bo_poll b"]) (simp_all add: in_progress_def Let_def)
  then show ?thesis by (simp add: rounds_left_def)
qed

lemma shed_for_ge: "1000 \<le> shed_for h"
  by (simp add: shed_for_def Let_def)

lemma backoff_next_decreases:
  assumes "backoff_next now rnd e b = (Some wait, b')" "\<forall>a. e = Shed a \<longrightarrow> 1000 \<le> a" "bo_started b \<le> now"
  shows "rounds_left b' renewed (now + wait) < rounds_left b renewed now"
proof (cases "\<exists>a. e = Shed a")
  case True
  then obtain a where "e = Shed a" "1000 \<le> a" using assms(2) by blast
  then show ?thesis using assms(1,3) by (intro queued_decreases [of now rnd a]) (simp_all add: backoff_next_def)
next
  case False
  then have b': "bo_retries b < bo_max_retries b" "b' = b\<lparr>bo_retries := bo_retries b + 1, bo_delay := bo_delay b * 2\<rparr>"
    using assms(1) by (auto simp: backoff_next_def split: attempt_error.splits if_splits)
  then have "bo_max_retries b' - bo_retries b' < bo_max_retries b - bo_retries b" "bo_started b' = bo_started b" "bo_max_retries b' = bo_max_retries b"
    by simp_all
  then have "rounds_left b' renewed now < rounds_left b renewed now" unfolding rounds_left_def by (simp only:)
  then show ?thesis using rounds_left_mono [of now "now + wait" b' renewed] by simp
qed

lemma backoff_frame:
  "queued now rnd base b = (w, b') \<Longrightarrow> bo_started b' = bo_started b \<and> bo_max_retries b' = bo_max_retries b \<and> bo_poll b' = bo_poll b"
  "in_progress now rnd b = (w, b') \<Longrightarrow> bo_started b' = bo_started b \<and> bo_max_retries b' = bo_max_retries b \<and> (1000 \<le> bo_poll b \<longrightarrow> 1000 \<le> bo_poll b')"
  "backoff_next now rnd e b = (w, b') \<Longrightarrow> bo_started b' = bo_started b \<and> bo_max_retries b' = bo_max_retries b \<and> bo_poll b' = bo_poll b"
  by (auto simp: queued_def in_progress_def backoff_next_def Let_def IN_PROGRESS_MAX_POLL_def split: attempt_error.splits if_splits)

text \<open>A shed that reaches the loop is at least a second: the client clamped it, and only \<open>retry_after\<close> makes one.\<close>

definition answers_ok :: "rounds \<Rightarrow> bool" where
  "answers_ok ro \<longleftrightarrow> (\<forall>k a. ro_exchange ro k \<noteq> NoAnswer (Shed a))"

lemma attempt_shed: "attempt ack x = Inl (Shed a) \<Longrightarrow> x \<noteq> NoAnswer (Shed a) \<Longrightarrow> 1000 \<le> a"
  by (auto simp: attempt_def retry_after_def shed_for_ge split: exchange.splits option.splits if_splits)

lemma push_loop_ends:
  assumes "answers_ok ro" "rounds_left b renewed now < fuel" "1000 \<le> bo_poll b" "bo_started b \<le> now"
  shows "\<exists>r. push_loop ack ro fuel k b renewed now = Some r"
  using assms(2-4)
proof (induction fuel arbitrary: k b renewed now)
  case (Suc fuel)
  let ?now = "now + ro_took ro k" and ?rnd = "ro_rand ro k"
  have started: "bo_started b \<le> ?now" using Suc.prems(3) by simp
  have go: "\<exists>r. push_loop ack ro fuel (k + 1) b' ren (?now + wait + ro_late ro k) = Some r"
    if "rounds_left b' ren (?now + wait) < rounds_left b renewed ?now" "1000 \<le> bo_poll b'" "bo_started b' = bo_started b" for b' ren wait
  proof (rule Suc.IH)
    show "rounds_left b' ren (?now + wait + ro_late ro k) < fuel"
      using that(1) Suc.prems(1) rounds_left_mono [of now ?now b renewed] rounds_left_mono [of "?now + wait" "?now + wait + ro_late ro k" b' ren]
      by simp
  qed (use that Suc.prems in simp_all)
  have retry: "\<exists>r. (case backoff_next ?now ?rnd e b of
       (Some wait, b') \<Rightarrow> push_loop ack ro fuel (k + 1) b' renewed (?now + wait + ro_late ro k)
     | (None, b') \<Rightarrow> Some (Inl (AttemptFailed e))) = Some r" if e: "attempt ack (ro_exchange ro k) = Inl e" for e
  proof -
    obtain w b' where wb: "backoff_next ?now ?rnd e b = (w, b')" by fastforce
    have shed: "\<forall>a. e = Shed a \<longrightarrow> 1000 \<le> a" using e attempt_shed assms(1) unfolding answers_ok_def by blast
    show ?thesis
    proof (cases w)
      case (Some wait)
      then show ?thesis using go [OF backoff_next_decreases [OF wb [unfolded Some] shed started]] backoff_frame(3) [OF wb] Suc.prems(2) wb by simp
    qed (simp add: wb)
  qed
  show ?case
  proof (cases "ro_token ro k")
    case (Inr token)
    show ?thesis
    proof (cases "attempt ack (ro_exchange ro k)")
      case (Inl e)
      have "rounds_left b True ?now < fuel" if "\<not> renewed"
        using that Suc.prems(1) rounds_left_mono [of now ?now b renewed] by (simp add: rounds_left_def)
      then have "\<exists>r. push_loop ack ro fuel (k + 1) b True ?now = Some r" if "\<not> renewed"
        using that Suc.prems(2) started by (intro Suc.IH) simp_all
      then show ?thesis using retry [OF Inl] Inl Inr by (auto simp: Let_def split: sum.splits option.splits)
    next
      case ack: (Inr a)
      show ?thesis
      proof (cases a)
        case InProgress
        obtain w b' where wb: "in_progress ?now ?rnd b = (w, b')" by fastforce
        show ?thesis
        proof (cases w)
          case (Some wait)
          then show ?thesis using go [OF in_progress_decreases [OF wb [unfolded Some] Suc.prems(2) started]] backoff_frame(2) [OF wb] Suc.prems(2) wb
            Inr ack InProgress by (simp add: Let_def)
        qed (use wb Inr ack InProgress in \<open>simp add: Let_def\<close>)
      qed (use Inr ack in \<open>simp_all add: Let_def\<close>)
    qed
  qed simp
qed simp

lemma push_loop_confirmed:
  "push_loop ack ro fuel k b renewed now = Some (Inr out) \<Longrightarrow>
   \<exists>j. out = Pushed \<and> attempt ack (ro_exchange ro j) = Inr Created \<or> out = Deduped \<and> attempt ack (ro_exchange ro j) = Inr Exists"
proof (induction fuel arbitrary: k b renewed now)
  case (Suc fuel)
  show ?case
  proof (cases "ro_token ro k")
    case (Inl e)
    then show ?thesis using Suc.prems by simp
  next
    case (Inr token)
    show ?thesis
    proof (cases "attempt ack (ro_exchange ro k)")
      case (Inl e)
      then show ?thesis using Suc.prems Suc.IH Inr by (auto simp: Let_def split: sum.splits option.splits prod.splits if_splits)
    next
      case (Inr a)
      then show ?thesis using Suc.prems Suc.IH \<open>ro_token ro k = Inr token\<close> by (cases a) (auto simp: Let_def split: option.splits prod.splits)
    qed
  qed
qed simp

lemma attempt_Inr: "attempt ack x = Inr a \<longleftrightarrow> (\<exists>status header body. x = Answer status header body \<and> 200 \<le> status \<and> status < 300 \<and> ack body = Some a)"
  by (auto simp: attempt_def retry_after_def split: exchange.splits option.splits if_splits)

text \<open>
  C14. Pushing one path ends, whatever the Pusher and the network answer: it waits out queues and
  other pushers' uploads, retries faults and renews its token, but after at most
  \<open>max_rounds\<close> rounds there is a result. The result is \<open>Pushed\<close> only if the Pusher answered a
  round with a success and the status \<open>created\<close>, and \<open>Deduped\<close> only if it answered \<open>exists\<close>; an
  answer \<open>in-progress\<close>, of which nobody knows how it will end, is never counted as either.
\<close>

theorem push_one_ends_confirmed:
  assumes "answers_ok ro"
  shows "\<exists>r. push_one ack ro max_retries now = Some r
    \<and> (\<forall>out. r = Inr out \<longrightarrow> (\<exists>j status header body. ro_exchange ro j = Answer status header body \<and> 200 \<le> status \<and> status < 300
         \<and> (out = Pushed \<and> ack body = Some Created \<or> out = Deduped \<and> ack body = Some Exists)))"
proof -
  have "rounds_left (new_backoff now max_retries) False now < max_rounds max_retries"
    by (simp add: rounds_left_def new_backoff_def max_rounds_def WAIT_DEADLINE_def)
  then have "\<exists>r. push_one ack ro max_retries now = Some r"
    unfolding push_one_def using assms by (intro push_loop_ends) (simp_all add: new_backoff_def)
  moreover have "\<exists>j status header body. ro_exchange ro j = Answer status header body \<and> 200 \<le> status \<and> status < 300
      \<and> (out = Pushed \<and> ack body = Some Created \<or> out = Deduped \<and> ack body = Some Exists)"
    if "push_one ack ro max_retries now = Some (Inr out)" for out
    using push_loop_confirmed [OF that [unfolded push_one_def]] unfolding attempt_Inr by blast
  ultimately show ?thesis by blast
qed

definition demo_ack :: "string \<Rightarrow> upload_ack option" where
  "demo_ack body = (if body = ''created'' then Some Created else if body = ''exists'' then Some Exists else if body = ''in-progress'' then Some InProgress else None)"

text \<open>A queue, a fault, an expired token, another pusher, then success.\<close>

definition demo_rounds :: rounds where
  "demo_rounds = \<lparr>ro_token = \<lambda>_. Inr ''t'',
     ro_exchange = \<lambda>k. if k = 0 then Answer 429 (Some ''2'') [] else if k = 1 then Answer 500 None [] else if k = 2 then Answer 401 None []
       else if k = 3 then Answer 200 None ''in-progress'' else Answer 201 None ''created'',
     ro_renew = \<lambda>_. Inr (Some ''t2''), ro_took = \<lambda>_. 10, ro_rand = \<lambda>_. 7, ro_late = \<lambda>_. 0\<rparr>"

theorem push_one_ends_confirmed_witness:
  "push_loop demo_ack demo_rounds (Suc (Suc (Suc (Suc (Suc 0))))) 0 (new_backoff 0 3) False 0 = Some (Inr Pushed) \<and> (\<exists>r. push_one demo_ack demo_rounds 3 0 = Some r)"
proof -
  have "answers_ok demo_rounds" by (auto simp: answers_ok_def demo_rounds_def)
  from push_one_ends_confirmed [OF this] have "\<exists>r. push_one demo_ack demo_rounds 3 0 = Some r" by blast
  moreover have "push_loop demo_ack demo_rounds (Suc (Suc (Suc (Suc (Suc 0))))) 0 (new_backoff 0 3) False 0 = Some (Inr Pushed)"
    by (simp add: demo_rounds_def demo_ack_def new_backoff_def attempt_def retry_after_def shed_for_def parse_usize_def parse_digits_def trim_def
        is_space_def is_digit_def backoff_next_def queued_def in_progress_def jitter_def is_unauthorized_def WAIT_DEADLINE_def Let_def)
  ultimately show ?thesis by simp
qed

end
