(* ===== verification/Push_Run.thy ===== *)
theory Push_Run
  imports Push_Client
begin

text \<open>
  \<^verbatim>\<open>crates/garret-client/src/push.rs\<close>, the run over a closure: reading \<^verbatim>\<open>nix path-info\<close>, the upstream
  filter, the Negotiation, the uploads and the re-check, and what is counted and reported.

  A JSON value is what \<^verbatim>\<open>serde_json\<close> parsed; turning a value into a \<open>path_info\<close> is its derived
  deserializer, a parameter.
\<close>

section \<open>Reading path-info\<close>

datatype json = JNull | JBool bool | JStr string | JNumber string | JArr "json list" | JObj "(string \<times> json) list"

fun json_get :: "string \<Rightarrow> json \<Rightarrow> json option" where
  "json_get k (JObj m) = map_of m k"
| "json_get k _ = None"

datatype info_error = UnexpectedOutput json | NotValid "string list" | BadEntry | InfoPanic

definition is_invalid :: "json \<Rightarrow> bool" where
  "is_invalid info = (info = JNull \<or> json_get ''valid'' info = Some (JBool False))"

definition entry_name :: "string option \<Rightarrow> json \<Rightarrow> string" where
  "entry_name path info =
     (case path of
        Some p \<Rightarrow> p
      | None \<Rightarrow> (case json_get ''path'' info of Some (JStr p) \<Rightarrow> p | _ \<Rightarrow> []))"

text \<open>\<^verbatim>\<open>info["path"] = path\<close> panics on anything but an object.\<close>

definition with_path :: "string option \<Rightarrow> json \<Rightarrow> json option" where
  "with_path path info =
     (case path of
        None \<Rightarrow> Some info
      | Some p \<Rightarrow>
          if json_get ''path'' info \<noteq> None then Some info
          else (case info of JObj m \<Rightarrow> Some (JObj (m @ [(''path'', JStr p)])) | _ \<Rightarrow> None))"

fun read_entries ::
  "(json \<Rightarrow> path_info option) \<Rightarrow> (string option \<times> json) list \<Rightarrow> path_info list \<Rightarrow> string list \<Rightarrow> info_error + path_info list \<times> string list" where
  "read_entries of_value [] infos invalid = Inr (infos, invalid)"
| "read_entries of_value ((path, info) # es) infos invalid =
     (if is_invalid info then read_entries of_value es infos (invalid @ [entry_name path info])
      else (case with_path path info of
              None \<Rightarrow> Inl InfoPanic
            | Some v \<Rightarrow>
                (case of_value v of
                   None \<Rightarrow> Inl BadEntry
                 | Some p \<Rightarrow> read_entries of_value es (infos @ [p]) invalid)))"

definition parse_path_info :: "(json \<Rightarrow> path_info option) \<Rightarrow> json \<Rightarrow> info_error + path_info list" where
  "parse_path_info of_value v =
     (case (case v of
              JArr items \<Rightarrow> Some (map (\<lambda>i. (None, i)) items)
            | JObj m \<Rightarrow> Some (map (\<lambda>(p, i). (Some p, i)) m)
            | _ \<Rightarrow> None) of
        None \<Rightarrow> Inl (UnexpectedOutput v)
      | Some entries \<Rightarrow>
          (case read_entries of_value entries [] [] of
             Inl e \<Rightarrow> Inl e
           | Inr (infos, invalid) \<Rightarrow> if invalid \<noteq> [] then Inl (NotValid invalid) else Inr infos))"

section \<open>Filters and counts\<close>

definition key_name :: "string \<Rightarrow> string" where
  "key_name key = (case split_once CHR '':'' key of None \<Rightarrow> key | Some (name, _) \<Rightarrow> name)"

definition signed_by :: "string list \<Rightarrow> string list \<Rightarrow> bool" where
  "signed_by signatures key_names = list_ex (\<lambda>sig. list_ex (\<lambda>name. name = key_name sig) key_names) signatures"

definition partition_upstream :: "path_info list \<Rightarrow> string list \<Rightarrow> path_info list \<times> path_info list" where
  "partition_upstream closure upstream_keys = partition (\<lambda>p. \<not> signed_by (pi_signatures p) upstream_keys) closure"

definition nar_bytes :: "path_info list \<Rightarrow> nat" where
  "nar_bytes paths = sum_list (map (\<lambda>p. nat (max (pi_nar_size p) 0)) paths)"

definition retain_missing :: "path_info list \<Rightarrow> hash list \<Rightarrow> path_info list" where
  "retain_missing infos missing_hashes = filter (\<lambda>p. hash_of_store_path (pi_path p) \<in> set missing_hashes) infos"

record push_summary =
  su_pushed :: nat
  su_deduped :: nat
  su_failed :: nat
  su_nar_bytes :: nat

definition default_summary :: push_summary where
  "default_summary = \<lparr>su_pushed = 0, su_deduped = 0, su_failed = 0, su_nar_bytes = 0\<rparr>"

definition add_summary :: "push_summary \<Rightarrow> push_summary \<Rightarrow> push_summary" where
  "add_summary a b =
     \<lparr>su_pushed = su_pushed a + su_pushed b, su_deduped = su_deduped a + su_deduped b,
      su_failed = su_failed a + su_failed b, su_nar_bytes = su_nar_bytes a + su_nar_bytes b\<rparr>"

definition tally_one :: "string \<times> push_outcome \<Rightarrow> push_summary \<times> string list \<Rightarrow> push_summary \<times> string list" where
  "tally_one po acc =
     (case (po, acc) of ((path, out), (s, failed)) \<Rightarrow>
        (case out of
           Pushed \<Rightarrow> (s\<lparr>su_pushed := su_pushed s + 1\<rparr>, failed)
         | Deduped \<Rightarrow> (s\<lparr>su_deduped := su_deduped s + 1\<rparr>, failed)
         | Failed _ \<Rightarrow> (s\<lparr>su_failed := su_failed s + 1\<rparr>, failed @ [path])
         | _ \<Rightarrow> (s, failed)))"

definition tally :: "(string \<times> push_outcome) list \<Rightarrow> nat \<Rightarrow> push_summary \<times> string list" where
  "tally outcomes bytes = fold tally_one outcomes (default_summary\<lparr>su_nar_bytes := bytes\<rparr>, [])"

text \<open>The \<^verbatim>\<open>--json\<close> event of a path: path, status, size, and the error if it failed.\<close>

definition path_event :: "path_info \<Rightarrow> push_outcome \<Rightarrow> string \<times> string \<times> int \<times> push_error option" where
  "path_event info out =
     (pi_path info, outcome_status out, pi_nar_size info, case out of Failed e \<Rightarrow> Some e | _ \<Rightarrow> None)"

definition negotiated_line :: "nat \<Rightarrow> nat \<Rightarrow> nat \<Rightarrow> string" where
  "negotiated_line closure upstream missing_paths =
     (if upstream = 0 then show_nat closure @ '' path(s) in closure, '' @ show_nat missing_paths @ '' missing''
      else show_nat closure @ '' path(s) in closure, '' @ show_nat upstream @ '' served upstream, '' @ show_nat missing_paths @ '' missing'')"

section \<open>Negotiation\<close>

datatype negotiation_error =
    NoToken string
  | SendFailed string
  | RenewalFailed string
  | Refused string
  | NegotiationRejected nat string
  | BadResponse

text \<open>The token source, the Pusher (a status and a body, or no answer, to the first and the second request), and the parser of the body.\<close>

record negotiation =
  ne_token :: "string + string"
  ne_send :: "hash list \<Rightarrow> string \<Rightarrow> nat \<Rightarrow> string + nat \<times> string"
  ne_renew :: "string \<Rightarrow> string + string option"
  ne_parse :: "string \<Rightarrow> hash list option"

definition judge_response :: "(string \<Rightarrow> hash list option) \<Rightarrow> nat \<times> string \<Rightarrow> negotiation_error + hash list" where
  "judge_response parse response =
     (case response of (status, body) \<Rightarrow>
        if status = 403 then Inl (Refused body)
        else if \<not> (200 \<le> status \<and> status < 300) then Inl (NegotiationRejected status body)
        else (case parse body of None \<Rightarrow> Inl BadResponse | Some ms \<Rightarrow> Inr ms))"

definition negotiate :: "negotiation \<Rightarrow> hash list \<Rightarrow> negotiation_error + hash list" where
  "negotiate ne hashes =
     (case ne_token ne of
        Inl e \<Rightarrow> Inl (NoToken e)
      | Inr token \<Rightarrow>
          (case ne_send ne hashes token 0 of
             Inl e \<Rightarrow> Inl (SendFailed e)
           | Inr response \<Rightarrow>
               if fst response = 401 then
                 (case ne_renew ne token of
                    Inl e \<Rightarrow> Inl (RenewalFailed e)
                  | Inr None \<Rightarrow> judge_response (ne_parse ne) response
                  | Inr (Some token2) \<Rightarrow>
                      (case ne_send ne hashes token2 1 of
                         Inl e \<Rightarrow> Inl (SendFailed e)
                       | Inr response2 \<Rightarrow> judge_response (ne_parse ne) response2))
               else judge_response (ne_parse ne) response))"

definition client_missing :: "(hash list \<Rightarrow> negotiation_error + hash list) \<Rightarrow> path_info list \<Rightarrow> negotiation_error + path_info list" where
  "client_missing neg closure =
     map_sum id (retain_missing closure) (neg (map (\<lambda>p. hash_of_store_path (pi_path p)) closure))"

section \<open>The run\<close>

text \<open>
  A session: the Negotiations and the uploads of the first round (0) and of the re-check (1), and
  the order in which uploads finish.
\<close>

record session =
  se_negotiate :: "nat \<Rightarrow> hash list \<Rightarrow> negotiation_error + hash list"
  se_push :: "nat \<Rightarrow> path_info \<Rightarrow> push_error + push_outcome"
  se_finish :: "nat \<Rightarrow> (string \<times> push_outcome) list \<Rightarrow> (string \<times> push_outcome) list"

definition settle :: "push_error + push_outcome \<Rightarrow> push_outcome" where
  "settle r = (case r of Inr out \<Rightarrow> out | Inl e \<Rightarrow> Failed e)"

definition push_tracked :: "session \<Rightarrow> nat \<Rightarrow> path_info list \<Rightarrow> (push_summary \<times> string list) option" where
  "push_tracked se round paths =
     (case references_first paths of
        None \<Rightarrow> None
      | Some ordered \<Rightarrow>
          Some (tally (se_finish se round (map (\<lambda>info. (pi_path info, settle (se_push se round info))) ordered)) (nar_bytes paths)))"

definition push_all :: "session \<Rightarrow> nat \<Rightarrow> path_info list \<Rightarrow> push_summary option" where
  "push_all se round paths = map_option fst (push_tracked se round paths)"

datatype run_error = FirstNegotiation negotiation_error | Rechecking negotiation_error | RunPanic

definition push_closure :: "session \<Rightarrow> path_info list \<Rightarrow> string list \<Rightarrow> bool \<Rightarrow> run_error + push_summary" where
  "push_closure se closure upstream_keys dry_run =
     (let (own, upstream) = partition_upstream closure upstream_keys in
      case client_missing (se_negotiate se 0) own of
        Inl e \<Rightarrow> Inl (FirstNegotiation e)
      | Inr missing_paths \<Rightarrow>
          if dry_run then Inr default_summary
          else
            (case push_all se 0 missing_paths of
               None \<Rightarrow> Inl RunPanic
             | Some summary \<Rightarrow>
                 if missing_paths \<noteq> [] \<and> su_failed summary = 0 then
                   (case client_missing (se_negotiate se 1) own of
                      Inl e \<Rightarrow> Inl (Rechecking e)
                    | Inr gone \<Rightarrow>
                        if gone = [] then Inr summary
                        else (case push_all se 1 gone of
                                None \<Rightarrow> Inl RunPanic
                              | Some again \<Rightarrow> Inr (add_summary summary again)))
                 else Inr summary))"

section \<open>Counting\<close>

definition is_failed :: "push_outcome \<Rightarrow> bool" where
  "is_failed out \<longleftrightarrow> (\<exists>e. out = Failed e)"

lemma tally_fold:
  "fold tally_one xs (s, failed) =
     (s\<lparr>su_pushed := su_pushed s + length (filter (\<lambda>x. snd x = Pushed) xs),
        su_deduped := su_deduped s + length (filter (\<lambda>x. snd x = Deduped) xs),
        su_failed := su_failed s + length (filter (\<lambda>x. is_failed (snd x)) xs)\<rparr>,
      failed @ map fst (filter (\<lambda>x. is_failed (snd x)) xs))"
proof (induction xs arbitrary: s failed)
  case (Cons x xs)
  then show ?case by (cases x; cases "snd x") (auto simp: tally_one_def is_failed_def)
qed simp

lemma tally_counts:
  assumes "tally xs n = (s, failed)"
  shows "su_pushed s = length (filter (\<lambda>x. snd x = Pushed) xs)" "su_deduped s = length (filter (\<lambda>x. snd x = Deduped) xs)"
    "su_failed s = length (filter (\<lambda>x. is_failed (snd x)) xs)" "su_nar_bytes s = n" "failed = map fst (filter (\<lambda>x. is_failed (snd x)) xs)"
  using assms by (auto simp: tally_def tally_fold default_summary_def)

text \<open>What is known of a session: uploads may finish in any order, and end as \<open>push_one\<close> does.\<close>

definition session_ok :: "session \<Rightarrow> bool" where
  "session_ok se \<longleftrightarrow> (\<forall>n xs. mset (se_finish se n xs) = mset xs) \<and> (\<forall>n p out. se_push se n p = Inr out \<longrightarrow> out = Pushed \<or> out = Deduped)"

definition upload_failed :: "session \<Rightarrow> nat \<Rightarrow> path_info \<Rightarrow> bool" where
  "upload_failed se n p \<longleftrightarrow> (\<exists>e. se_push se n p = Inl e)"

lemma session_push: "session_ok se \<Longrightarrow> se_push se n p = Inr out \<Longrightarrow> out = Pushed \<or> out = Deduped"
  unfolding session_ok_def by blast

lemma is_failed_settle: "session_ok se \<Longrightarrow> is_failed (settle (se_push se n p)) \<longleftrightarrow> upload_failed se n p"
proof (cases "se_push se n p")
  case (Inr out)
  moreover assume "session_ok se"
  ultimately have "out = Pushed \<or> out = Deduped" unfolding session_ok_def by blast
  then show ?thesis using Inr by (auto simp: is_failed_def settle_def upload_failed_def)
qed (auto simp: is_failed_def settle_def upload_failed_def)

lemma push_tracked_exact:
  assumes ok: "session_ok se"
  obtains s failed where "push_tracked se n paths = Some (s, failed)"
    and "mset failed = mset (map pi_path (filter (upload_failed se n) paths))"
    and "su_failed s = length (filter (upload_failed se n) paths)"
    and "su_pushed s + su_deduped s + su_failed s = length paths" and "su_nar_bytes s = nar_bytes paths"
proof -
  obtain ordered where o: "references_first paths = Some ordered" "mset ordered = mset paths"
    using references_first_perm by blast
  let ?f = "\<lambda>info. (pi_path info, settle (se_push se n info))"
  let ?xs = "se_finish se n (map ?f ordered)"
  have xs: "mset ?xs = mset (map ?f paths)" using ok o(2) by (simp add: session_ok_def mset_map)
  obtain s failed where t: "tally ?xs (nar_bytes paths) = (s, failed)" by fastforce
  have count: "length (filter P ?xs) = length (filter P (map ?f paths))" for P
    by (metis mset_filter size_mset xs)
  have "mset failed = image_mset fst (filter_mset (\<lambda>x. is_failed (snd x)) (mset (map ?f paths)))"
    unfolding tally_counts(5) [OF t] by (simp only: mset_map mset_filter xs)
  also have "\<dots> = mset (map pi_path (filter (upload_failed se n) paths))"
    by (induction paths) (auto simp: is_failed_settle [OF ok])
  finally have f: "mset failed = \<dots>" .
  have c: "length (filter (\<lambda>x. snd x = Pushed) (map ?f ps)) + length (filter (\<lambda>x. snd x = Deduped) (map ?f ps))
      + length (filter (\<lambda>x. is_failed (snd x)) (map ?f ps)) = length ps" for ps
  proof (induction ps)
    case (Cons p ps)
    have "settle (se_push se n p) = Pushed \<or> settle (se_push se n p) = Deduped \<or> (\<exists>e. settle (se_push se n p) = Failed e)"
      using session_push [OF ok, of n p] by (cases "se_push se n p") (auto simp: settle_def)
    then show ?case using Cons by (auto simp: is_failed_def)
  qed simp
  have g: "length (filter (\<lambda>x. is_failed (snd x)) (map ?f paths)) = length (filter (upload_failed se n) paths)"
    by (simp add: filter_map comp_def is_failed_settle [OF ok])
  show ?thesis
  proof (rule that)
    show "push_tracked se n paths = Some (s, failed)" using o(1) t by (simp add: push_tracked_def)
    show "mset failed = mset (map pi_path (filter (upload_failed se n) paths))" by (rule f)
    show "su_failed s = length (filter (upload_failed se n) paths)" unfolding tally_counts(3) [OF t] count g ..
    show "su_pushed s + su_deduped s + su_failed s = length paths"
      unfolding tally_counts(1-3) [OF t] count by (rule c)
    show "su_nar_bytes s = nar_bytes paths" by (rule tally_counts(4) [OF t])
  qed
qed

lemma push_all_clean:
  assumes "session_ok se" "push_all se n paths = Some s" "su_failed s = 0" "p \<in> set paths"
  shows "se_push se n p = Inr Pushed \<or> se_push se n p = Inr Deduped"
proof -
  obtain s' failed where "push_tracked se n paths = Some (s', failed)" "su_failed s' = length (filter (upload_failed se n) paths)"
    using push_tracked_exact [OF assms(1)] by metis
  then have "filter (upload_failed se n) paths = []" using assms(2,3) by (simp add: push_all_def)
  then have "\<not> upload_failed se n p" using assms(4) by (simp add: filter_empty_conv)
  then obtain out where "se_push se n p = Inr out" by (cases "se_push se n p") (auto simp: upload_failed_def)
  then show ?thesis using assms(1) by (auto simp: session_ok_def)
qed

section \<open>A clean run leaves nothing out\<close>

abbreviation hash_of :: "path_info \<Rightarrow> hash" where "hash_of p \<equiv> hash_of_store_path (pi_path p)"

definition own_paths :: "path_info list \<Rightarrow> string list \<Rightarrow> path_info list" where
  "own_paths closure upstream_keys = filter (\<lambda>p. \<not> signed_by (pi_signatures p) upstream_keys) closure"

lemma client_missing_Inr:
  "client_missing neg own = Inr ms \<longleftrightarrow> (\<exists>hs. neg (map hash_of own) = Inr hs \<and> ms = filter (\<lambda>p. hash_of p \<in> set hs) own)"
  by (auto simp: client_missing_def retain_missing_def)

text \<open>
  A push that ends without an error and without a failed path has left nothing of the closure
  out: each path is signed by an upstream key, or the last Negotiation of the run (the re-check,
  if anything was uploaded) reported it present, or the Pusher acknowledged its upload after that
  Negotiation.
\<close>

lemma clean_push_outcome:
  assumes ok: "session_ok se" and run: "push_closure se closure upstream_keys False = Inr summary" and clean: "su_failed summary = 0"
  shows "\<exists>last hs. se_negotiate se last (map hash_of (own_paths closure upstream_keys)) = Inr hs
    \<and> (last = 0 \<longrightarrow> su_pushed summary + su_deduped summary = 0)
    \<and> (\<forall>p \<in> set closure. signed_by (pi_signatures p) upstream_keys \<or> hash_of p \<notin> set hs
         \<or> se_push se last p = Inr Pushed \<or> se_push se last p = Inr Deduped)"
proof -
  let ?own = "own_paths closure upstream_keys"
  have part: "partition_upstream closure upstream_keys = (?own, filter (\<lambda>p. signed_by (pi_signatures p) upstream_keys) closure)"
    by (simp add: partition_upstream_def own_paths_def comp_def)
  obtain hs0 where n0: "se_negotiate se 0 (map hash_of ?own) = Inr hs0"
    using run by (auto simp: push_closure_def part client_missing_def split: sum.splits)
  let ?m0 = "filter (\<lambda>p. hash_of p \<in> set hs0) ?own"
  have m0: "client_missing (se_negotiate se 0) ?own = Inr ?m0" using n0 by (simp add: client_missing_def retain_missing_def)
  obtain s0 failed where t0: "push_tracked se 0 ?m0 = Some (s0, failed)" "su_pushed s0 + su_deduped s0 + su_failed s0 = length ?m0"
    by (rule push_tracked_exact [OF ok, of 0 ?m0])
  then have s0: "push_all se 0 ?m0 = Some s0" "su_pushed s0 + su_deduped s0 + su_failed s0 = length ?m0" by (simp_all add: push_all_def)
  note step = run [unfolded push_closure_def part Let_def prod.case m0 sum.case s0(1) option.case, simplified if_False]
  show ?thesis
  proof (cases "?m0 = []")
    case True
    then have "summary = s0" using step by simp
    then show ?thesis using n0 True s0(2) by (intro exI [of _ 0] exI [of _ hs0]) (auto simp: own_paths_def filter_empty_conv)
  next
    case nonempty: False
    have "su_failed s0 = 0"
      using step clean nonempty by (auto simp: add_summary_def split: sum.splits option.splits if_splits)
    then obtain gone where gone: "client_missing (se_negotiate se 1) ?own = Inr gone"
      using step nonempty by (auto split: sum.splits)
    then obtain hs1 where n1: "se_negotiate se 1 (map hash_of ?own) = Inr hs1" "gone = filter (\<lambda>p. hash_of p \<in> set hs1) ?own"
      by (auto simp: client_missing_Inr)
    have "se_push se 1 p = Inr Pushed \<or> se_push se 1 p = Inr Deduped" if p: "p \<in> set gone" for p
    proof -
      obtain s1 where "push_all se 1 gone = Some s1" "su_failed s1 = 0"
        using step nonempty \<open>su_failed s0 = 0\<close> gone p clean by (auto simp: add_summary_def split: option.splits if_splits)
      then show ?thesis using push_all_clean [OF ok] p by blast
    qed
    then show ?thesis using n1 by (intro exI [of _ 1] exI [of _ hs1]) (auto simp: own_paths_def)
  qed
qed

lemma signed_by_Nil [simp]: "\<not> signed_by xs []"
  by (simp add: signed_by_def list_ex_iff)

definition demo_session :: session where
  "demo_session = \<lparr>se_negotiate = \<lambda>n hs. Inr (if n = 0 then hs else []), se_push = \<lambda>n p. Inr Pushed, se_finish = \<lambda>n xs. rev xs\<rparr>"

lemma demo_session_ok: "session_ok demo_session"
  by (simp add: session_ok_def demo_session_def)

section \<open>Interface: the cache a session talks to\<close>

text \<open>A Negotiation answered by a cache says exactly which hashes the cache does not hold.\<close>

locale negotiating_cache =
  fixes answer :: "hash list \<Rightarrow> 'w \<Rightarrow> hash list \<times> 'w" and holds :: "'w \<Rightarrow> hash set"
  assumes answer_exact: "answer hs w = (ms, w') \<Longrightarrow> set ms = set hs - holds w'"
begin

lemma reported_present:
  assumes "fst (answer (map hash_of own) w) = hs" "p \<in> set own" "hash_of p \<notin> set hs"
  shows "hash_of p \<in> holds (snd (answer (map hash_of own) w))"
  using answer_exact [OF surjective_pairing, of "map hash_of own" w] assms by auto

lemma client_missing_answered:
  assumes "neg (map hash_of own) = Inr (fst (answer (map hash_of own) w))" "client_missing neg own = Inr ms"
  shows "set ms = {p \<in> set own. hash_of p \<notin> holds (snd (answer (map hash_of own) w))}"
  using answer_exact [OF surjective_pairing, of "map hash_of own" w] assms by (auto simp: client_missing_Inr)

end

end
