(* ===== verification/Watcher.thy ===== *)
theory Watcher
  imports Push_Run
begin

text \<open>
  \<^verbatim>\<open>crates/garret-client/src/watcher.rs\<close>: the store watcher, which pushes every newly valid path and
  must not lose one across failures and kills.

  What survives a kill is two files, the cursor and the failed list, each replaced whole
  (\<^verbatim>\<open>files.rs\<close>: an old or a new content, never a part). Parameters of a batch: \<^verbatim>\<open>nix path-info\<close>, whether
  a path is still in the store, and the Pusher. Logging, the wake socket and the sleep between
  polls are not modelled. Text is split at ASCII white space.
\<close>

section \<open>The Nix database\<close>

record valid_path =
  vp_id :: int
  vp_path :: string
  vp_sigs :: "string list"

text \<open>A row of \<^verbatim>\<open>ValidPaths\<close>: id, path, and the \<^verbatim>\<open>sigs\<close> column.\<close>

type_synonym nix_row = "int \<times> string \<times> string option"

function (sequential) split_whitespace :: "string \<Rightarrow> string list" where
  "split_whitespace [] = []"
| "split_whitespace (c # cs) =
     (if is_space c then split_whitespace cs
      else takeWhile (\<lambda>x. \<not> is_space x) (c # cs) # split_whitespace (dropWhile (\<lambda>x. \<not> is_space x) cs))"
  by pat_completeness auto
termination
  by (relation "measure length") (auto simp: less_Suc_eq_le length_dropWhile_le)

definition to_valid_path :: "nix_row \<Rightarrow> valid_path" where
  "to_valid_path r =
     (case r of (i, path, sigs) \<Rightarrow>
        \<lparr>vp_id = i, vp_path = path, vp_sigs = split_whitespace (case sigs of None \<Rightarrow> [] | Some s \<Rightarrow> s)\<rparr>)"

definition paths_after :: "nix_row list \<Rightarrow> int \<Rightarrow> nat \<Rightarrow> valid_path list" where
  "paths_after rows cursor limit =
     map to_valid_path (take limit (sort_key fst (filter (\<lambda>r. fst r > cursor) rows)))"

definition max_id :: "nix_row list \<Rightarrow> int" where
  "max_id rows = (if rows = [] then 0 else Max (fst ` set rows))"

definition BATCH_SIZE :: nat where "BATCH_SIZE = 500"

section \<open>Filters\<close>

record filters =
  fi_upstream_keys :: "string list"
  fi_exclude_patterns :: "string list"
  fi_own_keys :: "string list"

definition should_skip :: "filters \<Rightarrow> valid_path \<Rightarrow> string option" where
  "should_skip fi p =
     (if strip_suffix ''.drv'' (vp_path p) \<noteq> None then Some ''drv''
      else if list_ex (\<lambda>pat. contains (vp_path p) pat) (fi_exclude_patterns fi) then Some ''excluded''
      else if signed_by (vp_sigs p) (fi_upstream_keys fi) then Some ''upstream''
      else if signed_by (vp_sigs p) (map key_name (fi_own_keys fi)) then Some ''own''
      else None)"

definition select :: "filters \<Rightarrow> valid_path list \<Rightarrow> string list" where
  "select fi batch = map vp_path (filter (\<lambda>p. should_skip fi p = None) batch)"

section \<open>Files\<close>

text \<open>\<^verbatim>\<open>None\<close> in a file's place is a file that is not there.\<close>

datatype watch_error = BadCursor string | NoCursor | WatchPanic

definition read_cursor :: "string option \<Rightarrow> watch_error + int option" where
  "read_cursor contents =
     (case contents of
        None \<Rightarrow> Inr None
      | Some t \<Rightarrow> (case parse_i64 (trim t) of None \<Rightarrow> Inl (BadCursor t) | Some c \<Rightarrow> Inr (Some c)))"

definition write_cursor :: "int \<Rightarrow> string option" where
  "write_cursor c = Some (show_int c)"

text \<open>\<^verbatim>\<open>str::lines\<close>: split at line feeds, without the carriage return before one, and without a last empty line.\<close>

definition strip_cr :: "string \<Rightarrow> string" where
  "strip_cr l = (case strip_suffix [CHR 0x0D] l of None \<Rightarrow> l | Some l' \<Rightarrow> l')"

fun str_lines_from :: "string \<Rightarrow> string \<Rightarrow> string list" where
  "str_lines_from acc [] = (if acc = [] then [] else [acc])"
| "str_lines_from acc (c # cs) = (if c = CHR 0x0A then strip_cr acc # str_lines_from [] cs else str_lines_from (acc @ [c]) cs)"

definition str_lines :: "string \<Rightarrow> string list" where
  "str_lines s = str_lines_from [] s"

record failed_list =
  fa_paths :: "string set"
  fa_attempts :: "string \<rightharpoonup> nat"

definition load_failed :: "string option \<Rightarrow> failed_list" where
  "load_failed contents =
     \<lparr>fa_paths = (case contents of None \<Rightarrow> {} | Some t \<Rightarrow> set (filter (\<lambda>l. l \<noteq> []) (str_lines t))), fa_attempts = Map.empty\<rparr>"

definition record_failure :: "string \<Rightarrow> failed_list \<Rightarrow> nat \<times> failed_list" where
  "record_failure path fl =
     (let spent = (case fa_attempts fl path of None \<Rightarrow> 0 | Some n \<Rightarrow> n) + 1 in
      (spent, \<lparr>fa_paths = insert path (fa_paths fl), fa_attempts = (fa_attempts fl)(path \<mapsto> spent)\<rparr>))"

definition record_success :: "string \<Rightarrow> failed_list \<Rightarrow> failed_list" where
  "record_success path fl = \<lparr>fa_paths = fa_paths fl - {path}, fa_attempts = (fa_attempts fl)(path := None)\<rparr>"

text \<open>In the order of the \<^verbatim>\<open>BTreeSet\<close>.\<close>

definition listed :: "failed_list \<Rightarrow> string list" where
  "listed fl = sorted_list_of_set (fa_paths fl)"

definition due :: "nat \<Rightarrow> failed_list \<Rightarrow> string list" where
  "due limit fl = filter (\<lambda>p. (case fa_attempts fl p of None \<Rightarrow> 0 | Some n \<Rightarrow> n) < limit) (listed fl)"

fun apply_chunk :: "string list \<Rightarrow> string list \<Rightarrow> failed_list \<Rightarrow> nat \<times> failed_list" where
  "apply_chunk [] still_failed fl = (0, fl)"
| "apply_chunk (p # ps) still_failed fl =
     (if p \<in> set still_failed then apply_chunk ps still_failed (snd (record_failure p fl))
      else (case apply_chunk ps still_failed (record_success p fl) of (n, fl') \<Rightarrow> (n + 1, fl')))"

definition save_failed :: "failed_list \<Rightarrow> string option" where
  "save_failed fl = (if fa_paths fl = {} then None else Some (concat (map (\<lambda>p. p @ [CHR 0x0A]) (listed fl))))"

section \<open>A batch\<close>

record batch_view =
  bv_info :: "string list \<Rightarrow> path_info list option"
  bv_exists :: "string \<Rightarrow> bool"
  bv_negotiate :: "hash list \<Rightarrow> negotiation_error + hash list"
  bv_session :: session

fun describe_each :: "batch_view \<Rightarrow> string list \<Rightarrow> path_info list \<times> string list" where
  "describe_each bv [] = ([], [])"
| "describe_each bv (p # ps) =
     (case describe_each bv ps of (infos, failed) \<Rightarrow>
        (case bv_info bv [p] of
           Some one \<Rightarrow> (one @ infos, failed)
         | None \<Rightarrow> if \<not> bv_exists bv p then (infos, failed) else (infos, p # failed)))"

definition describe :: "batch_view \<Rightarrow> string list \<Rightarrow> path_info list \<times> string list" where
  "describe bv paths = (case bv_info bv paths of Some infos \<Rightarrow> (infos, []) | None \<Rightarrow> describe_each bv paths)"

definition negotiation_hashes :: "path_info list \<Rightarrow> hash list" where
  "negotiation_hashes infos =
     rev (remdups (rev (map hash_of_store_path (concat (map (\<lambda>i. pi_path i # pi_references i) infos)))))"

definition push_described :: "batch_view \<Rightarrow> path_info list \<Rightarrow> string list option" where
  "push_described bv infos =
     (if infos = [] then Some []
      else (case bv_negotiate bv (negotiation_hashes infos) of
              Inl _ \<Rightarrow> Some (map pi_path infos)
            | Inr ms \<Rightarrow>
                (let to_push = retain_missing infos ms in
                 if to_push = [] then Some [] else map_option snd (push_tracked (bv_session bv) 0 to_push))))"

definition push_batch :: "batch_view \<Rightarrow> string list \<Rightarrow> string list option" where
  "push_batch bv paths =
     (if paths = [] then Some []
      else (case describe bv paths of (infos, failed) \<Rightarrow> map_option (\<lambda>more_failed. failed @ more_failed) (push_described bv infos)))"

section \<open>Effects\<close>

text \<open>
  What an operation does to the outside, in order. A kill takes effect between two of them, so what is
  left on disk is what a prefix of the list leaves. \<open>Began\<close> and \<open>PushedBatch\<close> change no file: they
  record from where a cursor was first established and which paths of a batch were not reported failed.
\<close>

datatype effect = Began int | PushedBatch "string list" "string list" | SaveFailed failed_list | SaveCursor int

record disk =
  dk_cursor :: "string option"
  dk_failed :: "string option"

section \<open>The daemon\<close>

definition run_start :: "bool \<Rightarrow> nix_row list \<Rightarrow> disk \<Rightarrow> watch_error + int \<times> failed_list \<times> effect list" where
  "run_start full_sync rows d =
     (case read_cursor (dk_cursor d) of
        Inl e \<Rightarrow> Inl e
      | Inr found \<Rightarrow>
          (let cursor = (case found of Some c \<Rightarrow> c | None \<Rightarrow> if full_sync then 0 else max_id rows) in
           Inr (cursor, load_failed (dk_failed d), [Began cursor, SaveCursor cursor])))"

text \<open>The batches of one call; \<open>bvs i\<close> is what batch \<open>i\<close> meets.\<close>

fun push_chunks :: "(nat \<Rightarrow> batch_view) \<Rightarrow> nat \<Rightarrow> string list list \<Rightarrow> failed_list \<Rightarrow> (failed_list \<times> effect list) option" where
  "push_chunks bvs i [] fl = Some (fl, [])"
| "push_chunks bvs i (c # cs) fl =
     (case push_batch (bvs i) c of
        None \<Rightarrow> None
      | Some still_failed \<Rightarrow>
          map_option (\<lambda>(fl', es). (fl', PushedBatch c still_failed # es))
            (push_chunks bvs (Suc i) cs (snd (apply_chunk c still_failed fl))))"

definition retry_failed :: "nat \<Rightarrow> (nat \<Rightarrow> batch_view) \<Rightarrow> failed_list \<Rightarrow> (failed_list \<times> effect list) option" where
  "retry_failed max_attempts bvs fl =
     (if due max_attempts fl = [] then Some (fl, [])
      else map_option (\<lambda>(fl', es). (fl', es @ [SaveFailed fl']))
             (push_chunks bvs 0 (chunks BATCH_SIZE (due max_attempts fl)) fl))"

text \<open>One turn of the loop of \<^verbatim>\<open>run\<close>.\<close>

definition run_poll ::
  "filters \<Rightarrow> nat \<Rightarrow> (nat \<Rightarrow> batch_view) \<Rightarrow> nix_row list \<Rightarrow> int \<Rightarrow> failed_list \<Rightarrow> (int \<times> failed_list \<times> effect list) option" where
  "run_poll fi max_attempts bvs rows cursor fl =
     (let batch = paths_after rows cursor BATCH_SIZE in
      if batch = [] then map_option (\<lambda>(fl', es). (cursor, fl', es)) (retry_failed max_attempts bvs fl)
      else
        (let paths = select fi batch; newest = vp_id (last batch) in
         map_option
           (\<lambda>failed. let fl' = fold (\<lambda>p f. snd (record_failure p f)) failed fl in
              (newest, fl', [PushedBatch paths failed, SaveFailed fl', SaveCursor newest]))
           (push_batch (bvs 0) paths)))"

section \<open>The drain\<close>

text \<open>The target, the cursor, the failed list and what to push so far.\<close>

definition drain_start :: "bool \<Rightarrow> nix_row list \<Rightarrow> disk \<Rightarrow> watch_error + int \<times> int \<times> failed_list \<times> string list" where
  "drain_start full_sync rows d =
     (let target = max_id rows; fl = load_failed (dk_failed d) in
      case read_cursor (dk_cursor d) of
        Inl e \<Rightarrow> Inl e
      | Inr (Some c) \<Rightarrow> Inr (target, c, fl, listed fl)
      | Inr None \<Rightarrow> if full_sync then Inr (target, 0, fl, listed fl) else Inl NoCursor)"

text \<open>One turn of the gathering loop; \<open>None\<close> is its end.\<close>

definition drain_gather ::
  "filters \<Rightarrow> nix_row list \<Rightarrow> int \<Rightarrow> int \<Rightarrow> failed_list \<Rightarrow> string list \<Rightarrow> (int \<times> string list) option" where
  "drain_gather fi rows target cursor fl todo =
     (if cursor < target then
        (let batch = filter (\<lambda>e. vp_id e \<le> target) (paths_after rows cursor BATCH_SIZE) in
         if batch = [] then None
         else Some (vp_id (last batch), todo @ filter (\<lambda>p. p \<notin> fa_paths fl) (select fi batch)))
      else None)"

definition drain_finish :: "(nat \<Rightarrow> batch_view) \<Rightarrow> int \<Rightarrow> failed_list \<Rightarrow> string list \<Rightarrow> (string list \<times> effect list) option" where
  "drain_finish bvs cursor fl todo =
     map_option (\<lambda>(fl', es). (listed fl', es @ [SaveFailed fl', SaveCursor cursor]))
       (push_chunks bvs 0 (chunks BATCH_SIZE todo) fl)"

lemma drain_gather_advances:
  assumes "drain_gather fi rows target cursor fl todo = Some (cursor', todo')"
  shows "cursor < cursor'" "cursor' \<le> target" "cursor < target"
proof -
  let ?batch = "filter (\<lambda>e. vp_id e \<le> target) (paths_after rows cursor BATCH_SIZE)"
  have "?batch \<noteq> []" "cursor' = vp_id (last ?batch)" "cursor < target"
    using assms by (auto simp: drain_gather_def Let_def split: if_splits)
  moreover from this have "last ?batch \<in> set ?batch" using last_in_set by blast
  ultimately show "cursor < cursor'" "cursor' \<le> target" "cursor < target"
    by (auto simp: paths_after_def to_valid_path_def split: prod.splits dest!: in_set_takeD)
qed

text \<open>A whole drain, over a database that does not change while it gathers.\<close>

function drain_loop :: "filters \<Rightarrow> nix_row list \<Rightarrow> int \<Rightarrow> int \<Rightarrow> failed_list \<Rightarrow> string list \<Rightarrow> int \<times> string list" where
  "drain_loop fi rows target cursor fl todo =
     (case drain_gather fi rows target cursor fl todo of
        None \<Rightarrow> (cursor, todo)
      | Some (cursor', todo') \<Rightarrow> drain_loop fi rows target cursor' fl todo')"
  by pat_completeness auto
termination
  by (relation "measure (\<lambda>(fi, rows, target, cursor, fl, todo). nat (target - cursor))") (auto dest: drain_gather_advances)

declare drain_loop.simps [simp del]

definition watch_drain :: "bool \<Rightarrow> filters \<Rightarrow> (nat \<Rightarrow> batch_view) \<Rightarrow> nix_row list \<Rightarrow> disk \<Rightarrow> watch_error + string list \<times> effect list" where
  "watch_drain full_sync fi bvs rows d =
     (case drain_start full_sync rows d of
        Inl e \<Rightarrow> Inl e
      | Inr (target, cursor, fl, todo) \<Rightarrow>
          (case drain_loop fi rows target cursor fl todo of
             (cursor', todo') \<Rightarrow>
               (case drain_finish bvs cursor' fl todo' of None \<Rightarrow> Inl WatchPanic | Some r \<Rightarrow> Inr r)))"

section \<open>The watcher among kills, builds and garbage collection\<close>

datatype watch_phase = Stopped | Running int failed_list | Draining int int failed_list "string list"

text \<open>
  \<open>ws_sequence\<close> is the largest id SQLite has given out (\<^verbatim>\<open>AUTOINCREMENT\<close>). \<open>ws_from\<close> and \<open>ws_settled\<close>
  are history: where the first cursor stood, and the paths pushed without a report of failure.
\<close>

record watch_state =
  ws_rows :: "nix_row list"
  ws_sequence :: int
  ws_disk :: disk
  ws_phase :: watch_phase
  ws_from :: int
  ws_settled :: "string set"

fun apply_effect :: "effect \<Rightarrow> watch_state \<Rightarrow> watch_state" where
  "apply_effect (Began c) s = (if dk_cursor (ws_disk s) = None then s\<lparr>ws_from := c\<rparr> else s)"
| "apply_effect (PushedBatch paths failed) s = s\<lparr>ws_settled := ws_settled s \<union> (set paths - set failed)\<rparr>"
| "apply_effect (SaveFailed fl) s = s\<lparr>ws_disk := (ws_disk s)\<lparr>dk_failed := save_failed fl\<rparr>\<rparr>"
| "apply_effect (SaveCursor c) s = s\<lparr>ws_disk := (ws_disk s)\<lparr>dk_cursor := write_cursor c\<rparr>\<rparr>"

text \<open>What is known of \<^verbatim>\<open>nix path-info\<close> and of the uploads: an answer describes exactly the paths asked for.\<close>

definition view_ok :: "batch_view \<Rightarrow> bool" where
  "view_ok bv \<longleftrightarrow> session_ok (bv_session bv) \<and> (\<forall>paths infos. bv_info bv paths = Some infos \<longrightarrow> pi_path ` set infos = set paths)"

inductive watch_act :: "filters \<Rightarrow> nat \<Rightarrow> watch_state \<Rightarrow> effect list \<Rightarrow> watch_phase \<Rightarrow> bool" for fi max_attempts where
  run: "ws_phase s = Stopped \<Longrightarrow> run_start full_sync (ws_rows s) (ws_disk s) = Inr (c, fl, es) \<Longrightarrow>
    watch_act fi max_attempts s es (Running c fl)"
| poll: "ws_phase s = Running c fl \<Longrightarrow> (\<And>i. view_ok (bvs i)) \<Longrightarrow>
    run_poll fi max_attempts bvs (ws_rows s) c fl = Some (c', fl', es) \<Longrightarrow> watch_act fi max_attempts s es (Running c' fl')"
| drain: "ws_phase s = Stopped \<Longrightarrow> drain_start full_sync (ws_rows s) (ws_disk s) = Inr (target, c, fl, todo) \<Longrightarrow>
    watch_act fi max_attempts s [Began c] (Draining target c fl todo)"
| gather: "ws_phase s = Draining target c fl todo \<Longrightarrow> drain_gather fi (ws_rows s) target c fl todo = Some (c', todo') \<Longrightarrow>
    watch_act fi max_attempts s [] (Draining target c' fl todo')"
| finish: "ws_phase s = Draining target c fl todo \<Longrightarrow> drain_gather fi (ws_rows s) target c fl todo = None \<Longrightarrow> (\<And>i. view_ok (bvs i)) \<Longrightarrow>
    drain_finish bvs c fl todo = Some (failed, es) \<Longrightarrow> watch_act fi max_attempts s es Stopped"

text \<open>A store path has at least a name, no line break in it and no carriage return at its end.\<close>

definition clean_path :: "string \<Rightarrow> bool" where
  "clean_path p \<longleftrightarrow> p \<noteq> [] \<and> CHR 0x0A \<notin> set p \<and> last p \<noteq> CHR 0x0D"

definition MAX_ID :: int where "MAX_ID = 2 ^ 63 - 1"

inductive watch_step :: "filters \<Rightarrow> nat \<Rightarrow> watch_state \<Rightarrow> watch_state \<Rightarrow> bool" for fi max_attempts where
  validated: "ws_sequence s < i \<Longrightarrow> i \<le> MAX_ID \<Longrightarrow> clean_path p \<Longrightarrow>
    watch_step fi max_attempts s (s\<lparr>ws_rows := ws_rows s @ [(i, p, sigs)], ws_sequence := i\<rparr>)"
| invalidated: "watch_step fi max_attempts s (s\<lparr>ws_rows := filter P (ws_rows s)\<rparr>)"
| acted: "watch_act fi max_attempts s es ph \<Longrightarrow> watch_step fi max_attempts s ((fold apply_effect es s)\<lparr>ws_phase := ph\<rparr>)"
| killed_acting: "watch_act fi max_attempts s es ph \<Longrightarrow>
    watch_step fi max_attempts s ((fold apply_effect (take n es) s)\<lparr>ws_phase := Stopped\<rparr>)"
| killed: "watch_step fi max_attempts s (s\<lparr>ws_phase := Stopped\<rparr>)"

end
