(* ===== verification/Watcher_Laws.thy ===== *)
theory Watcher_Laws
  imports Watcher
begin

text \<open>
  What the watcher promises: its two files can be read back, a batch accounts for each of its paths,
  and no kill, at any point, loses a path the cursor has passed.
\<close>

section \<open>The files\<close>

lemma show_int_not_space: "c \<in> set (show_int i) \<Longrightarrow> \<not> is_space c"
  using show_int_chars [of c i] by (auto simp: is_digit_def is_space_def Let_def)

lemma trim_show_int [simp]: "trim (show_int i) = show_int i"
proof -
  have "dropWhile is_space xs = xs" if "\<And>c. c \<in> set xs \<Longrightarrow> \<not> is_space c" for xs
    using that by (cases xs) auto
  then have "dropWhile is_space (show_int i) = show_int i" "dropWhile is_space (rev (show_int i)) = rev (show_int i)"
    using show_int_not_space by (metis, metis set_rev)
  then show ?thesis by (simp add: trim_def)
qed

lemma read_written_cursor:
  assumes "- (2 ^ 63) \<le> c" "c < 2 ^ 63"
  shows "read_cursor (write_cursor c) = Inr (Some c)"
  by (simp add: read_cursor_def write_cursor_def parse_i64_show_int [OF assms])

lemma strip_cr_clean: "clean_path p \<Longrightarrow> strip_cr p = p"
  by (auto simp: strip_cr_def clean_path_def strip_suffix_Some split: option.splits)

lemma str_lines_from_line: "CHR 0x0A \<notin> set p \<Longrightarrow> str_lines_from acc (p @ CHR 0x0A # rest) = strip_cr (acc @ p) # str_lines_from [] rest"
  by (induction p arbitrary: acc) auto

lemma str_lines_written:
  "\<forall>p \<in> set ps. clean_path p \<Longrightarrow> str_lines (concat (map (\<lambda>p. p @ [CHR 0x0A]) ps)) = ps"
  unfolding str_lines_def
proof (induction ps)
  case (Cons p ps)
  then have "str_lines_from [] (p @ CHR 0x0A # concat (map (\<lambda>p. p @ [CHR 0x0A]) ps)) = p # ps"
    by (subst str_lines_from_line) (auto simp: strip_cr_clean, simp add: clean_path_def)
  then show ?case by simp
qed simp

definition clean_list :: "failed_list \<Rightarrow> bool" where
  "clean_list fl \<longleftrightarrow> finite (fa_paths fl) \<and> (\<forall>p \<in> fa_paths fl. clean_path p)"

lemma load_saved:
  assumes "clean_list fl"
  shows "load_failed (save_failed fl) = \<lparr>fa_paths = fa_paths fl, fa_attempts = Map.empty\<rparr>"
proof -
  have "set (listed fl) = fa_paths fl" using assms by (simp add: listed_def clean_list_def)
  moreover from this have "str_lines (concat (map (\<lambda>p. p @ [CHR 0x0A]) (listed fl))) = listed fl"
    using assms by (intro str_lines_written) (simp add: clean_list_def)
  ultimately show ?thesis using assms by (auto simp: load_failed_def save_failed_def clean_list_def clean_path_def)
qed

section \<open>The database\<close>

lemma take_covers:
  assumes "sorted_wrt (<) (map f xs)" "x \<in> set xs" "take n xs \<noteq> []" "f x \<le> (f (last (take n xs)) :: int)"
  shows "x \<in> set (take n xs)"
proof (rule ccontr)
  assume "x \<notin> set (take n xs)"
  then have "x \<in> set (drop n xs)" using assms(2) by (metis Un_iff append_take_drop_id set_append)
  moreover have "sorted_wrt (<) (map f (take n xs) @ map f (drop n xs))" using assms(1) by (simp flip: map_append)
  ultimately have "f (last (take n xs)) < f x" using assms(3) by (auto simp: sorted_wrt_append)
  then show False using assms(4) by simp
qed

lemma sorted_rows: "distinct (map fst rows) \<Longrightarrow> sorted_wrt (<) (map fst (sort_key fst (filter P rows)))"
  by (auto simp: strict_sorted_iff distinct_map intro: inj_on_subset)

lemma vp_of_row [simp]: "vp_id (to_valid_path r) = fst r" "vp_path (to_valid_path r) = fst (snd r)"
  by (cases r; simp add: to_valid_path_def)+

lemma paths_after_sound:
  assumes "v \<in> set (paths_after rows c n)"
  shows "\<exists>r \<in> set rows. v = to_valid_path r \<and> c < fst r"
  using assms by (auto simp: paths_after_def dest!: in_set_takeD)

lemma paths_after_covers:
  assumes "distinct (map fst rows)" "r \<in> set rows" "c < fst r" "paths_after rows c n \<noteq> []" "fst r \<le> vp_id (last (paths_after rows c n))"
  shows "to_valid_path r \<in> set (paths_after rows c n)"
proof -
  let ?xs = "sort_key fst (filter (\<lambda>r. fst r > c) rows)"
  have ne: "take n ?xs \<noteq> []" using assms(4) unfolding paths_after_def by (metis list.map_disc_iff)
  then have "vp_id (last (paths_after rows c n)) = fst (last (take n ?xs))" unfolding paths_after_def by (subst last_map) simp_all
  then have "r \<in> set (take n ?xs)" using assms ne by (intro take_covers [of fst] sorted_rows) auto
  then show ?thesis unfolding paths_after_def by (metis imageI set_map)
qed

lemma sorted_paths_after: "distinct (map fst rows) \<Longrightarrow> sorted_wrt (\<lambda>a b. vp_id a < vp_id b) (paths_after rows c n)"
  using sorted_wrt_take [OF sorted_rows, of rows n "\<lambda>r. fst r > c"] by (simp add: paths_after_def take_map sorted_wrt_map)

section \<open>A batch\<close>

lemma describe_each_paths:
  assumes "view_ok bv" "describe_each bv ps = (infos, failed)"
  shows "pi_path ` set infos \<union> set failed \<subseteq> set ps" "p \<in> set ps \<Longrightarrow> bv_exists bv p \<Longrightarrow> p \<in> pi_path ` set infos \<union> set failed"
  using assms(2)
proof (induction ps arbitrary: infos failed)
  case (Cons q ps)
  obtain infos' failed' where r: "describe_each bv ps = (infos', failed')" by fastforce
  have one: "pi_path ` set one = {q}" if "bv_info bv [q] = Some one" for one
    using assms(1) that unfolding view_ok_def by fastforce
  { case 1 then show ?case using Cons.IH(1) [OF r] one by (auto simp: r image_subset_iff split: option.splits if_splits) blast+ }
  { case 2 then show ?case using Cons.IH(2) [OF _ _ r] one by (auto simp: r image_Un split: option.splits if_splits) }
qed auto

lemma describe_paths:
  assumes "view_ok bv" "describe bv ps = (infos, failed)"
  shows "pi_path ` set infos \<union> set failed \<subseteq> set ps" "p \<in> set ps \<Longrightarrow> bv_exists bv p \<Longrightarrow> p \<in> pi_path ` set infos \<union> set failed"
proof -
  have "pi_path ` set is = set ps" if "bv_info bv ps = Some is" for "is"
    using assms(1) that unfolding view_ok_def by blast
  then show "pi_path ` set infos \<union> set failed \<subseteq> set ps" "p \<in> set ps \<Longrightarrow> bv_exists bv p \<Longrightarrow> p \<in> pi_path ` set infos \<union> set failed"
    using assms(2) describe_each_paths [OF assms(1), of ps infos failed] by (auto simp: describe_def split: option.splits)
qed

lemma set_negotiation_hashes: "set (negotiation_hashes infos) = (\<Union>i \<in> set infos. hash_of_store_path ` insert (pi_path i) (set (pi_references i)))"
  by (auto simp: negotiation_hashes_def)

text \<open>The upload of \<open>p\<close> was acknowledged, or the Negotiation of the batch did not ask for it.\<close>

definition held :: "batch_view \<Rightarrow> path_info list \<Rightarrow> string \<Rightarrow> bool" where
  "held bv infos p \<longleftrightarrow>
     (\<exists>ms. bv_negotiate bv (negotiation_hashes infos) = Inr ms
        \<and> (hash_of_store_path p \<notin> set ms
           \<or> (\<exists>info \<in> set infos. pi_path info = p
                \<and> (se_push (bv_session bv) 0 info = Inr Pushed \<or> se_push (bv_session bv) 0 info = Inr Deduped))))"

lemma push_described_exact:
  assumes "view_ok bv"
  obtains failed where "push_described bv infos = Some failed" and "set failed \<subseteq> pi_path ` set infos"
    and "\<And>p. p \<in> pi_path ` set infos \<Longrightarrow> p \<notin> set failed \<Longrightarrow> held bv infos p"
proof (cases "bv_negotiate bv (negotiation_hashes infos)")
  case (Inl e)
  then show ?thesis by (intro that [of "map pi_path infos"]) (auto simp: push_described_def)
next
  case (Inr ms)
  let ?todo = "retain_missing infos ms"
  have ok: "session_ok (bv_session bv)" using assms by (simp add: view_ok_def)
  obtain s failed where t: "push_tracked (bv_session bv) 0 ?todo = Some (s, failed)"
    and m: "mset failed = mset (map pi_path (filter (upload_failed (bv_session bv) 0) ?todo))"
    by (rule push_tracked_exact [OF ok, of 0 ?todo])
  from m have f: "set failed = pi_path ` {i \<in> set ?todo. upload_failed (bv_session bv) 0 i}"
    by (metis list.set_map set_filter set_mset_mset)
  have up: "se_push (bv_session bv) 0 i = Inr Pushed \<or> se_push (bv_session bv) 0 i = Inr Deduped"
    if i: "\<not> upload_failed (bv_session bv) 0 i" for i
    using i session_push [OF ok, of 0 i] by (cases "se_push (bv_session bv) 0 i") (auto simp: upload_failed_def)
  show ?thesis
  proof (rule that)
    have "?todo = [] \<Longrightarrow> failed = []" using m by simp
    then show "push_described bv infos = Some failed"
      using t Inr by (auto simp: push_described_def Let_def) (simp add: retain_missing_def)
    show "set failed \<subseteq> pi_path ` set infos" using f by (auto simp: retain_missing_def)
    show "held bv infos p" if "p \<in> pi_path ` set infos" "p \<notin> set failed" for p
      using that f up Inr unfolding held_def retain_missing_def by fastforce
  qed
qed

lemma push_batch_exact:
  assumes "view_ok bv"
  obtains failed where "push_batch bv ps = Some failed" and "set failed \<subseteq> set ps"
    and "\<And>p. p \<in> set ps \<Longrightarrow> p \<notin> set failed \<Longrightarrow> \<not> bv_exists bv p \<or> held bv (fst (describe bv ps)) p"
proof -
  obtain infos f1 where d: "describe bv ps = (infos, f1)" by fastforce
  obtain f2 where p: "push_described bv infos = Some f2" "set f2 \<subseteq> pi_path ` set infos"
    "\<And>p. p \<in> pi_path ` set infos \<Longrightarrow> p \<notin> set f2 \<Longrightarrow> held bv infos p"
    using push_described_exact [OF assms] by blast
  note paths = describe_paths [OF assms d]
  show ?thesis
  proof (cases "ps = []")
    case True
    then show ?thesis by (intro that [of "[]"]) (auto simp: push_batch_def)
  next
    case False
    show ?thesis
    proof (rule that [of "f1 @ f2"])
      show "push_batch bv ps = Some (f1 @ f2)" "set (f1 @ f2) \<subseteq> set ps" using False d p paths by (auto simp: push_batch_def)
      show "\<not> bv_exists bv q \<or> held bv (fst (describe bv ps)) q" if "q \<in> set ps" "q \<notin> set (f1 @ f2)" for q
        using that p(3) [of q] paths(2) [of q] d by auto
    qed
  qed
qed

section \<open>Chunks\<close>

lemma apply_chunk_paths:
  "fa_paths (snd (apply_chunk ps failed fl)) = fa_paths fl - (set ps - set failed) \<union> set ps \<inter> set failed"
  by (induction ps arbitrary: fl) (auto simp: record_failure_def record_success_def Let_def case_prod_unfold)

lemma fold_record_failure: "fa_paths (fold (\<lambda>p f. snd (record_failure p f)) ps fl) = fa_paths fl \<union> set ps"
  by (induction ps arbitrary: fl) (auto simp: record_failure_def Let_def)

definition settles :: "effect list \<Rightarrow> string set" where
  "settles es = (\<Union>e \<in> set es. case e of PushedBatch ps failed \<Rightarrow> set ps - set failed | _ \<Rightarrow> {})"

definition pushes_only :: "effect list \<Rightarrow> bool" where
  "pushes_only es \<longleftrightarrow> (\<forall>e \<in> set es. \<exists>ps failed. e = PushedBatch ps failed)"

lemma settles_simps [simp]:
  "settles [] = {}" "settles (PushedBatch ps failed # es) = (set ps - set failed) \<union> settles es"
  by (simp_all add: settles_def)

lemma pushes_only_simps [simp]:
  "pushes_only []" "pushes_only (e # es) \<longleftrightarrow> (\<exists>ps failed. e = PushedBatch ps failed) \<and> pushes_only es"
  by (auto simp: pushes_only_def)

lemma fold_pushes: "pushes_only es \<Longrightarrow> fold apply_effect es s = s\<lparr>ws_settled := ws_settled s \<union> settles es\<rparr>"
  by (induction es arbitrary: s) (auto simp: Un_assoc)

text \<open>A path of the chunks ends settled or listed, and only a settled path leaves the list.\<close>

lemma push_chunks_accounted:
  assumes "\<And>i. view_ok (bvs i)" "push_chunks bvs i cs fl = Some (fl', es)"
  shows "pushes_only es \<and> fa_paths fl \<union> set (concat cs) \<subseteq> fa_paths fl' \<union> settles es \<and> fa_paths fl' \<subseteq> fa_paths fl \<union> set (concat cs)"
  using assms(2)
proof (induction cs arbitrary: i fl es)
  case (Cons c cs)
  obtain failed where f: "push_batch (bvs i) c = Some failed" "set failed \<subseteq> set c" using push_batch_exact [OF assms(1)] by blast
  then obtain es' where es: "es = PushedBatch c failed # es'"
    and r: "push_chunks bvs (Suc i) cs (snd (apply_chunk c failed fl)) = Some (fl', es')"
    using Cons.prems by auto
  show ?case using Cons.IH [OF r] by (auto simp: es apply_chunk_paths)
qed simp

lemmas push_chunks_accounts = push_chunks_accounted [THEN conjunct1] push_chunks_accounted [THEN conjunct2, THEN conjunct1]
  push_chunks_accounted [THEN conjunct2, THEN conjunct2]

lemma push_chunks_total: "(\<And>i. view_ok (bvs i)) \<Longrightarrow> \<exists>fl' es. push_chunks bvs i cs fl = Some (fl', es)"
proof (induction cs arbitrary: i fl)
  case (Cons c cs)
  obtain failed where "push_batch (bvs i) c = Some failed" using push_batch_exact [OF Cons.prems] by blast
  then show ?case using Cons.IH [OF Cons.prems, of "Suc i" "snd (apply_chunk c failed fl)"] by auto
qed simp

section \<open>Nothing is lost\<close>

definition listed_on_disk :: "watch_state \<Rightarrow> string set" where
  "listed_on_disk s = fa_paths (load_failed (dk_failed (ws_disk s)))"

text \<open>The rows from where the cursor started up to \<open>newest\<close> that are worth pushing are settled, on the list, or in \<open>todo\<close>.\<close>

definition covered :: "filters \<Rightarrow> watch_state \<Rightarrow> int \<Rightarrow> string set \<Rightarrow> bool" where
  "covered fi s newest todo \<longleftrightarrow>
     (\<forall>r \<in> set (ws_rows s). ws_from s < fst r \<longrightarrow> fst r \<le> newest \<longrightarrow> should_skip fi (to_valid_path r) = None \<longrightarrow>
        fst (snd r) \<in> ws_settled s \<union> listed_on_disk s \<union> todo)"

definition rows_ok :: "watch_state \<Rightarrow> bool" where
  "rows_ok s \<longleftrightarrow> distinct (map fst (ws_rows s)) \<and> 0 \<le> ws_sequence s \<and> ws_sequence s \<le> MAX_ID
     \<and> (\<forall>r \<in> set (ws_rows s). 0 < fst r \<and> fst r \<le> ws_sequence s \<and> clean_path (fst (snd r)))"

definition disk_ok :: "filters \<Rightarrow> watch_state \<Rightarrow> bool" where
  "disk_ok fi s \<longleftrightarrow> (\<forall>p \<in> listed_on_disk s. clean_path p)
     \<and> (dk_cursor (ws_disk s) \<noteq> None \<longrightarrow>
          (\<exists>c. dk_cursor (ws_disk s) = write_cursor c \<and> 0 \<le> c \<and> c \<le> ws_sequence s \<and> covered fi s c {}))"

definition phase_ok :: "filters \<Rightarrow> watch_state \<Rightarrow> bool" where
  "phase_ok fi s \<longleftrightarrow>
     (case ws_phase s of
        Stopped \<Rightarrow> True
      | Running c fl \<Rightarrow> 0 \<le> c \<and> c \<le> ws_sequence s \<and> dk_cursor (ws_disk s) = write_cursor c \<and> fa_paths fl = listed_on_disk s
      | Draining target c fl todo \<Rightarrow> 0 \<le> c \<and> c \<le> ws_sequence s \<and> fa_paths fl = listed_on_disk s
          \<and> (\<forall>p \<in> set todo. clean_path p) \<and> set todo \<supseteq> fa_paths fl \<and> covered fi s c (set todo))"

definition watch_ok :: "filters \<Rightarrow> watch_state \<Rightarrow> bool" where
  "watch_ok fi s \<longleftrightarrow> rows_ok s \<and> disk_ok fi s \<and> phase_ok fi s"

lemma finite_listed [simp]: "finite (fa_paths (load_failed f))"
  by (auto simp: load_failed_def split: option.splits)

text \<open>When an effect may happen without losing a path.\<close>

fun safe_effect :: "filters \<Rightarrow> watch_state \<Rightarrow> effect \<Rightarrow> bool" where
  "safe_effect fi s (Began c) = True"
| "safe_effect fi s (PushedBatch ps failed) = True"
| "safe_effect fi s (SaveFailed fl) = (clean_list fl \<and> listed_on_disk s \<subseteq> fa_paths fl \<union> ws_settled s)"
| "safe_effect fi s (SaveCursor c) = (0 \<le> c \<and> c \<le> ws_sequence s \<and> covered fi s c {})"

fun safe_effects :: "filters \<Rightarrow> watch_state \<Rightarrow> effect list \<Rightarrow> bool" where
  "safe_effects fi s [] = True"
| "safe_effects fi s (e # es) = (safe_effect fi s e \<and> safe_effects fi (apply_effect e s) es)"

lemma listed_on_disk_saved [simp]:
  "clean_list fl \<Longrightarrow> listed_on_disk (s\<lparr>ws_disk := (ws_disk s)\<lparr>dk_failed := save_failed fl\<rparr>\<rparr>) = fa_paths fl"
  by (simp add: listed_on_disk_def load_saved)

lemma covered_mono:
  assumes "covered fi s newest todo" "set (ws_rows s') \<subseteq> set (ws_rows s)" "ws_from s' = ws_from s"
    "ws_settled s \<union> listed_on_disk s \<union> todo \<subseteq> ws_settled s' \<union> listed_on_disk s' \<union> todo'"
  shows "covered fi s' newest todo'"
  using assms unfolding covered_def by (metis (no_types, lifting) subsetD)

lemma disk_ok_effect: "disk_ok fi s \<Longrightarrow> safe_effect fi s e \<Longrightarrow> disk_ok fi (apply_effect e s)"
proof (cases e)
  case (SaveFailed fl)
  let ?s = "apply_effect e s"
  assume ok: "disk_ok fi s" and safe: "safe_effect fi s e"
  then have l: "listed_on_disk ?s = fa_paths fl" "listed_on_disk s \<subseteq> fa_paths fl \<union> ws_settled s" using SaveFailed by auto
  have "covered fi ?s c {}" if "covered fi s c {}" for c
    using l by (intro covered_mono [OF that]) (auto simp: SaveFailed)
  then show ?thesis using ok safe l(1) unfolding disk_ok_def by (auto simp: SaveFailed clean_list_def)
next
  case (SaveCursor c)
  assume "disk_ok fi s" "safe_effect fi s e"
  then show ?thesis using SaveCursor by (auto simp: disk_ok_def covered_def listed_on_disk_def)
qed (auto simp: disk_ok_def covered_def listed_on_disk_def)

lemma rows_ok_effect: "rows_ok (apply_effect e s) \<longleftrightarrow> rows_ok s"
  by (cases e) (auto simp: rows_ok_def)

lemma safe_prefix: "disk_ok fi s \<Longrightarrow> safe_effects fi s es \<Longrightarrow> disk_ok fi (fold apply_effect (take n es) s)"
proof (induction es arbitrary: s n)
  case (Cons e es)
  then show ?case using disk_ok_effect by (cases n) auto
qed simp

lemma rows_ok_effects: "rows_ok (fold apply_effect es s) \<longleftrightarrow> rows_ok s"
  by (induction es arbitrary: s) (auto simp: rows_ok_effect)

lemma safe_effects_append:
  "safe_effects fi s (es @ es') \<longleftrightarrow> safe_effects fi s es \<and> safe_effects fi (fold apply_effect es s) es'"
  by (induction es arbitrary: s) auto

lemma safe_pushes: "pushes_only es \<Longrightarrow> safe_effects fi s es"
  by (induction es arbitrary: s) auto

lemma write_cursor_inject:
  assumes "write_cursor c = write_cursor c'" "0 \<le> c" "c \<le> MAX_ID" "0 \<le> c'" "c' \<le> MAX_ID"
  shows "c = c'"
proof -
  have "read_cursor (write_cursor c) = Inr (Some c)" "read_cursor (write_cursor c') = Inr (Some c')"
    by (rule read_written_cursor; use assms(2-) in \<open>simp add: MAX_ID_def\<close>)+
  then show ?thesis using assms(1) by (metis option.inject sum.inject(2))
qed

lemma max_id_bounds: "rows_ok s \<Longrightarrow> 0 \<le> max_id (ws_rows s) \<and> max_id (ws_rows s) \<le> ws_sequence s"
proof (cases "ws_rows s = []")
  case False
  moreover assume "rows_ok s"
  moreover have "max_id (ws_rows s) \<in> fst ` set (ws_rows s)" using False unfolding max_id_def by (simp add: Max_in)
  ultimately show ?thesis by (fastforce simp: rows_ok_def)
qed (simp add: max_id_def rows_ok_def)

lemma cursor_found:
  assumes "rows_ok s" "disk_ok fi s" "read_cursor (dk_cursor (ws_disk s)) = Inr (Some c)"
  shows "dk_cursor (ws_disk s) = write_cursor c" "0 \<le> c" "c \<le> ws_sequence s" "covered fi s c {}"
proof -
  have "dk_cursor (ws_disk s) \<noteq> None" using assms(3) by (auto simp: read_cursor_def split: option.splits)
  then obtain c0 where c0: "dk_cursor (ws_disk s) = write_cursor c0" "0 \<le> c0" "c0 \<le> ws_sequence s" "covered fi s c0 {}"
    using assms(2) unfolding disk_ok_def by blast
  then have "c = c0" using assms(1,3) read_written_cursor [of c0] by (auto simp: rows_ok_def MAX_ID_def)
  then show "dk_cursor (ws_disk s) = write_cursor c" "0 \<le> c" "c \<le> ws_sequence s" "covered fi s c {}" using c0 by auto
qed

lemma covered_from_here: "ws_from s = c \<Longrightarrow> covered fi s c todo"
  by (simp add: covered_def)

lemma run_start_safe:
  assumes ok: "rows_ok s" "disk_ok fi s" and run: "run_start full_sync (ws_rows s) (ws_disk s) = Inr (c, fl, es)"
  shows "safe_effects fi s es" "phase_ok fi ((fold apply_effect es s)\<lparr>ws_phase := Running c fl\<rparr>)"
proof -
  obtain found where r: "read_cursor (dk_cursor (ws_disk s)) = Inr found"
    and c: "c = (case found of Some c \<Rightarrow> c | None \<Rightarrow> if full_sync then 0 else max_id (ws_rows s))"
    and rest: "fl = load_failed (dk_failed (ws_disk s))" "es = [Began c, SaveCursor c]"
    using run by (auto simp: run_start_def Let_def split: sum.splits)
  have safe: "0 \<le> c \<and> c \<le> ws_sequence s \<and> covered fi (apply_effect (Began c) s) c {}"
  proof (cases found)
    case None
    then have "dk_cursor (ws_disk s) = None" using r by (auto simp: read_cursor_def split: option.splits)
    then show ?thesis using None c max_id_bounds [OF ok(1)] ok(1) by (auto simp: rows_ok_def intro: covered_from_here)
  next
    case (Some c')
    note found = cursor_found [OF ok, of c]
    have "read_cursor (dk_cursor (ws_disk s)) = Inr (Some c)" using r c Some by simp
    then show ?thesis using found by (auto simp: write_cursor_def)
  qed
  then show "safe_effects fi s es" by (simp add: rest)
  show "phase_ok fi ((fold apply_effect es s)\<lparr>ws_phase := Running c fl\<rparr>)"
    using safe by (simp add: rest phase_ok_def listed_on_disk_def)
qed

lemma drain_start_safe:
  assumes ok: "rows_ok s" "disk_ok fi s" and run: "drain_start full_sync (ws_rows s) (ws_disk s) = Inr (target, c, fl, todo)"
  shows "phase_ok fi ((fold apply_effect [Began c] s)\<lparr>ws_phase := Draining target c fl todo\<rparr>)"
proof -
  obtain found where r: "read_cursor (dk_cursor (ws_disk s)) = Inr found" and c: "c = (case found of Some c \<Rightarrow> c | None \<Rightarrow> 0)"
    and rest: "fl = load_failed (dk_failed (ws_disk s))" "todo = listed fl"
    using run by (auto simp: drain_start_def Let_def split: sum.splits option.splits if_splits)
  have todo: "set todo = listed_on_disk s" by (simp add: rest listed_def listed_on_disk_def)
  have "0 \<le> c \<and> c \<le> ws_sequence s \<and> covered fi ((apply_effect (Began c) s)\<lparr>ws_phase := Draining target c fl todo\<rparr>) c (set todo)"
  proof (cases found)
    case None
    then have "dk_cursor (ws_disk s) = None" using r by (auto simp: read_cursor_def split: option.splits)
    then show ?thesis using None c ok(1) by (auto simp: rows_ok_def intro: covered_from_here)
  next
    case (Some c')
    note found = cursor_found [OF ok, of c]
    have "read_cursor (dk_cursor (ws_disk s)) = Inr (Some c)" using r c Some by simp
    then have here: "dk_cursor (ws_disk s) \<noteq> None" "0 \<le> c" "c \<le> ws_sequence s" "covered fi s c {}"
      using found by (simp_all add: write_cursor_def)
    have "covered fi ((apply_effect (Began c) s)\<lparr>ws_phase := Draining target c fl todo\<rparr>) c (set todo)"
      by (rule covered_mono [OF here(4)]) (use here(1) in \<open>auto simp: listed_on_disk_def\<close>)
    then show ?thesis using here by blast
  qed
  moreover have "\<forall>p \<in> listed_on_disk s. clean_path p" using ok(2) by (simp add: disk_ok_def)
  ultimately show ?thesis using todo rest by (simp add: phase_ok_def listed_on_disk_def)
qed

lemma clean_list_subset:
  assumes "disk_ok fi s" "fa_paths fl \<subseteq> listed_on_disk s \<union> set ps" "\<forall>p \<in> set ps. clean_path p"
  shows "clean_list fl"
  unfolding clean_list_def
proof
  show "finite (fa_paths fl)" by (rule finite_subset [OF assms(2)]) (simp add: listed_on_disk_def)
  show "\<forall>p \<in> fa_paths fl. clean_path p" using assms by (auto simp: disk_ok_def)
qed

text \<open>The pushes of a list of paths and the save after them.\<close>

lemma pushes_then_save:
  assumes ok: "disk_ok fi s" and views: "\<And>i. view_ok (bvs i)" and same: "fa_paths fl = listed_on_disk s"
    and run: "push_chunks bvs 0 (chunks BATCH_SIZE ps) fl = Some (fl', es)" and clean: "\<forall>p \<in> set ps. clean_path p"
  shows "safe_effects fi s (es @ [SaveFailed fl'])" "listed_on_disk (fold apply_effect (es @ [SaveFailed fl']) s) = fa_paths fl'"
    "fold apply_effect (es @ [SaveFailed fl']) s = s\<lparr>ws_settled := ws_settled s \<union> settles es, ws_disk := (ws_disk s)\<lparr>dk_failed := save_failed fl'\<rparr>\<rparr>"
    "listed_on_disk s \<union> set ps \<subseteq> fa_paths fl' \<union> settles es"
proof -
  note acc = push_chunks_accounts [OF views run]
  have ps: "concat (chunks BATCH_SIZE ps) = ps" by (simp add: BATCH_SIZE_def)
  have cl: "clean_list fl'" using acc(3) same clean unfolding ps by (intro clean_list_subset [OF ok, of _ ps]) auto
  show eq: "fold apply_effect (es @ [SaveFailed fl']) s = s\<lparr>ws_settled := ws_settled s \<union> settles es, ws_disk := (ws_disk s)\<lparr>dk_failed := save_failed fl'\<rparr>\<rparr>"
    by (simp add: fold_pushes [OF acc(1)])
  show "listed_on_disk (fold apply_effect (es @ [SaveFailed fl']) s) = fa_paths fl'"
    using listed_on_disk_saved [OF cl, of "s\<lparr>ws_settled := ws_settled s \<union> settles es\<rparr>"] by (simp add: fold_pushes [OF acc(1)])
  show sub: "listed_on_disk s \<union> set ps \<subseteq> fa_paths fl' \<union> settles es" using acc(2) same by (simp add: ps)
  have "listed_on_disk (s\<lparr>ws_settled := X\<rparr>) = listed_on_disk s" for X by (simp add: listed_on_disk_def)
  then show "safe_effects fi s (es @ [SaveFailed fl'])"
    using cl sub by (auto simp: safe_effects_append safe_pushes [OF acc(1)] fold_pushes [OF acc(1)])
qed

lemma set_select: "set (select fi batch) = {vp_path v | v. v \<in> set batch \<and> should_skip fi v = None}"
  by (auto simp: select_def)

lemma select_clean: "rows_ok s \<Longrightarrow> set batch \<subseteq> set (paths_after (ws_rows s) c n) \<Longrightarrow> p \<in> set (select fi batch) \<Longrightarrow> clean_path p"
  using paths_after_sound by (fastforce simp: rows_ok_def set_select)

lemma newest_bounds:
  assumes "rows_ok s" "set batch \<subseteq> set (paths_after (ws_rows s) c n)" "batch \<noteq> []"
  shows "c < vp_id (last batch)" "0 \<le> vp_id (last batch)" "vp_id (last batch) \<le> ws_sequence s"
proof -
  obtain r where "r \<in> set (ws_rows s)" "last batch = to_valid_path r" "c < fst r"
    using assms(2,3) paths_after_sound by (meson last_in_set subsetD)
  then show "c < vp_id (last batch)" "0 \<le> vp_id (last batch)" "vp_id (last batch) \<le> ws_sequence s"
    using assms(1) by (auto simp: rows_ok_def)
qed

text \<open>A batch extends what is covered up to its newest row.\<close>

lemma covered_batch:
  assumes "covered fi s c todo" "\<And>r. r \<in> set (ws_rows s) \<Longrightarrow> c < fst r \<Longrightarrow> fst r \<le> newest \<Longrightarrow> to_valid_path r \<in> set batch"
  shows "covered fi s newest (todo \<union> set (select fi batch))"
  unfolding covered_def
proof (intro ballI impI)
  fix r assume r: "r \<in> set (ws_rows s)" "ws_from s < fst r" "fst r \<le> newest" "should_skip fi (to_valid_path r) = None"
  show "fst (snd r) \<in> ws_settled s \<union> listed_on_disk s \<union> (todo \<union> set (select fi batch))"
  proof (cases "fst r \<le> c")
    case True
    then show ?thesis using assms(1) r by (auto simp: covered_def)
  next
    case False
    then have "to_valid_path r \<in> set batch" using assms(2) r by simp
    then have "vp_path (to_valid_path r) \<in> set (select fi batch)" using r(4) unfolding set_select by blast
    then show ?thesis by simp
  qed
qed

lemma sorted_wrt_last:
  assumes "sorted_wrt (\<lambda>a b. f a < (f b :: int)) xs" "x \<in> set xs"
  shows "f x \<le> f (last xs)"
proof (cases xs rule: rev_cases)
  case (snoc ys y)
  then show ?thesis using assms by (auto simp: sorted_wrt_append)
qed (use assms in simp)

lemma gathered_covers:
  assumes rows: "distinct (map fst rows)" "r \<in> set rows" "c < fst r"
    and batch: "batch = filter (\<lambda>e. vp_id e \<le> target) (paths_after rows c n)" "batch \<noteq> []" "fst r \<le> vp_id (last batch)"
  shows "to_valid_path r \<in> set batch"
proof -
  let ?ps = "paths_after rows c n"
  have le: "vp_id v \<le> vp_id (last ?ps)" if "v \<in> set ?ps" for v
    using sorted_wrt_last [OF sorted_paths_after [OF rows(1)] that] .
  have l: "last batch \<in> set ?ps" "vp_id (last batch) \<le> target" using last_in_set [OF batch(2)] unfolding batch(1) by auto
  then have "to_valid_path r \<in> set ?ps" using le [OF l(1)] rows batch(3) by (intro paths_after_covers) auto
  then show ?thesis using l(2) batch(3) unfolding batch(1) by simp
qed

lemma drain_gather_safe:
  assumes ok: "rows_ok s" "phase_ok fi s" and ph: "ws_phase s = Draining target c fl todo"
    and run: "drain_gather fi (ws_rows s) target c fl todo = Some (c', todo')"
  shows "phase_ok fi (s\<lparr>ws_phase := Draining target c' fl todo'\<rparr>)" "c < c' \<and> c' \<le> target"
proof -
  let ?batch = "filter (\<lambda>e. vp_id e \<le> target) (paths_after (ws_rows s) c BATCH_SIZE)"
  have ne: "?batch \<noteq> []" and c': "c' = vp_id (last ?batch)"
    and todo': "todo' = todo @ filter (\<lambda>p. p \<notin> fa_paths fl) (select fi ?batch)"
    using run by (auto simp: drain_gather_def Let_def split: if_splits)
  have inv: "fa_paths fl = listed_on_disk s" "\<forall>p \<in> set todo. clean_path p" "fa_paths fl \<subseteq> set todo" "covered fi s c (set todo)"
    using ok(2) ph by (auto simp: phase_ok_def)
  note b = newest_bounds [OF ok(1) _ ne, of c BATCH_SIZE]
  have "covered fi s c' (set todo \<union> set (select fi ?batch))"
    using ok(1) ne c' by (intro covered_batch [OF inv(4)] gathered_covers) (auto simp: rows_ok_def)
  then have "covered fi (s\<lparr>ws_phase := Draining target c' fl todo'\<rparr>) c' (set todo')"
    by (rule covered_mono) (use inv(1) in \<open>auto simp: todo' listed_on_disk_def\<close>)
  moreover have "\<forall>p \<in> set todo'. clean_path p"
    using inv(2) select_clean [OF ok(1), of ?batch c BATCH_SIZE] by (auto simp: todo')
  ultimately show "phase_ok fi (s\<lparr>ws_phase := Draining target c' fl todo'\<rparr>)"
    using inv b c' by (auto simp: phase_ok_def listed_on_disk_def todo')
  show "c < c' \<and> c' \<le> target" using b(1) c' last_in_set [OF ne] by auto
qed

lemma drain_finish_safe:
  assumes ok: "rows_ok s" "disk_ok fi s" "phase_ok fi s" and ph: "ws_phase s = Draining target c fl todo" and views: "\<And>i. view_ok (bvs i)"
    and run: "drain_finish bvs c fl todo = Some (failed, es)"
  shows "safe_effects fi s es"
proof -
  obtain fl' es' where r: "push_chunks bvs 0 (chunks BATCH_SIZE todo) fl = Some (fl', es')" and es: "es = (es' @ [SaveFailed fl']) @ [SaveCursor c]"
    using run by (auto simp: drain_finish_def)
  have inv: "0 \<le> c" "c \<le> ws_sequence s" "fa_paths fl = listed_on_disk s" "\<forall>p \<in> set todo. clean_path p" "covered fi s c (set todo)"
    using ok(3) ph by (simp_all add: phase_ok_def)
  note save = pushes_then_save [OF ok(2) views inv(3) r inv(4)]
  have "covered fi (fold apply_effect (es' @ [SaveFailed fl']) s) c {}"
    by (rule covered_mono [OF inv(5)]) (use save in auto)
  moreover have "ws_sequence (fold apply_effect (es' @ [SaveFailed fl']) s) = ws_sequence s" unfolding save(3) by simp
  ultimately have "safe_effects fi (fold apply_effect (es' @ [SaveFailed fl']) s) [SaveCursor c]" using inv(1,2) by (simp del: fold_append)
  with save(1) show ?thesis unfolding es safe_effects_append [of _ _ "es' @ [SaveFailed fl']"] by blast
qed

lemma poll_batch_safe:
  assumes ok: "rows_ok s" "disk_ok fi s" and cov: "covered fi s c {}" and same: "fa_paths fl = listed_on_disk s"
    and batch: "batch = paths_after (ws_rows s) c BATCH_SIZE" "batch \<noteq> []" and failed: "set failed \<subseteq> set (select fi batch)"
    and fl': "fl' = fold (\<lambda>p f. snd (record_failure p f)) failed fl" "newest = vp_id (last batch)"
    and es: "es = [PushedBatch (select fi batch) failed, SaveFailed fl', SaveCursor newest]"
  shows "safe_effects fi s es" "phase_ok fi ((fold apply_effect es s)\<lparr>ws_phase := Running newest fl'\<rparr>)"
proof -
  let ?s1 = "s\<lparr>ws_settled := ws_settled s \<union> (set (select fi batch) - set failed)\<rparr>"
  let ?s2 = "?s1\<lparr>ws_disk := (ws_disk ?s1)\<lparr>dk_failed := save_failed fl'\<rparr>\<rparr>"
  have p: "fa_paths fl' = listed_on_disk s \<union> set failed" using fl'(1) same by (simp add: fold_record_failure)
  have cl: "clean_list fl'"
    using p failed select_clean [OF ok(1), of batch c BATCH_SIZE] batch(1) by (intro clean_list_subset [OF ok(2), of _ failed]) auto
  have l: "listed_on_disk ?s1 = listed_on_disk s" "listed_on_disk ?s2 = fa_paths fl'"
    using listed_on_disk_saved [OF cl, of ?s1] by (simp_all add: listed_on_disk_def)
  note b = newest_bounds [OF ok(1) _ batch(2), of c BATCH_SIZE, folded fl'(2)]
  have "covered fi s newest ({} \<union> set (select fi batch))"
    using ok(1) batch fl'(2) by (intro covered_batch [OF cov]) (auto simp: rows_ok_def intro: paths_after_covers)
  then have "covered fi ?s2 newest {}" by (rule covered_mono) (use l p in auto)
  then show "safe_effects fi s es" using cl l p b batch(1) by (auto simp: es)
  have "(fold apply_effect es s)\<lparr>ws_phase := Running newest fl'\<rparr>
    = ?s2\<lparr>ws_disk := (ws_disk ?s2)\<lparr>dk_cursor := write_cursor newest\<rparr>, ws_phase := Running newest fl'\<rparr>" by (simp add: es)
  then show "phase_ok fi ((fold apply_effect es s)\<lparr>ws_phase := Running newest fl'\<rparr>)"
    using l(2) b batch(1) by (simp add: phase_ok_def listed_on_disk_def)
qed

lemma run_poll_safe:
  assumes ok: "rows_ok s" "disk_ok fi s" "phase_ok fi s" and ph: "ws_phase s = Running c fl" and views: "\<And>i. view_ok (bvs i)"
    and run: "run_poll fi max_attempts bvs (ws_rows s) c fl = Some (c', fl', es)"
  shows "safe_effects fi s es" "phase_ok fi ((fold apply_effect es s)\<lparr>ws_phase := Running c' fl'\<rparr>)"
proof -
  let ?batch = "paths_after (ws_rows s) c BATCH_SIZE"
  have inv: "dk_cursor (ws_disk s) = write_cursor c" "fa_paths fl = listed_on_disk s" "0 \<le> c" "c \<le> ws_sequence s" using ok(3) ph by (simp_all add: phase_ok_def)
  have "safe_effects fi s es \<and> phase_ok fi ((fold apply_effect es s)\<lparr>ws_phase := Running c' fl'\<rparr>)"
  proof (cases "?batch = []")
    case True
    then have c': "c' = c" and r: "retry_failed max_attempts bvs fl = Some (fl', es)" using run by (auto simp: run_poll_def)
    show ?thesis
    proof (cases "due max_attempts fl = []")
      case True
      then show ?thesis using r inv c' by (simp add: retry_failed_def phase_ok_def listed_on_disk_def)
    next
      case False
      then obtain es' where r': "push_chunks bvs 0 (chunks BATCH_SIZE (due max_attempts fl)) fl = Some (fl', es')" and es: "es = es' @ [SaveFailed fl']"
        using r by (auto simp: retry_failed_def)
      have "\<forall>p \<in> set (due max_attempts fl). clean_path p"
        using ok(2) inv(2) by (auto simp: due_def listed_def disk_ok_def listed_on_disk_def)
      note save = pushes_then_save [OF ok(2) views inv(2) r' this]
      have "listed_on_disk ((fold apply_effect es s)\<lparr>ws_phase := Running c' fl'\<rparr>) = fa_paths fl'"
        using save(2) unfolding es listed_on_disk_def by simp
      moreover have "dk_cursor (ws_disk (fold apply_effect es s)) = write_cursor c'" "ws_sequence (fold apply_effect es s) = ws_sequence s"
        using inv(1) c' unfolding es save(3) by simp_all
      ultimately show ?thesis using save(1) inv(3,4) c' by (simp add: es phase_ok_def)
    qed
  next
    case False
    obtain failed where f: "push_batch (bvs 0) (select fi ?batch) = Some failed" "set failed \<subseteq> set (select fi ?batch)"
      using push_batch_exact [OF views] by blast
    obtain c0 where c0: "write_cursor c = write_cursor c0" "0 \<le> c0" "c0 \<le> ws_sequence s" "covered fi s c0 {}"
      using ok(2) inv(1) unfolding disk_ok_def by (metis option.distinct(1) write_cursor_def)
    then have "c = c0" using inv(3,4) ok(1) by (intro write_cursor_inject) (auto simp: rows_ok_def)
    then have cov: "covered fi s c {}" using c0(4) by simp
    have "c' = vp_id (last ?batch)" "fl' = fold (\<lambda>p f. snd (record_failure p f)) failed fl"
      "es = [PushedBatch (select fi ?batch) failed, SaveFailed fl', SaveCursor c']"
      using run False f(1) by (auto simp: run_poll_def Let_def)
    then show ?thesis using poll_batch_safe [OF ok(1,2) cov inv(2) refl False f(2)] by blast
  qed
  then show "safe_effects fi s es" "phase_ok fi ((fold apply_effect es s)\<lparr>ws_phase := Running c' fl'\<rparr>)" by auto
qed

lemma watch_act_safe:
  assumes "watch_ok fi s" "watch_act fi max_attempts s es ph"
  shows "safe_effects fi s es \<and> phase_ok fi ((fold apply_effect es s)\<lparr>ws_phase := ph\<rparr>)"
proof -
  have ok: "rows_ok s" "disk_ok fi s" "phase_ok fi s" using assms(1) by (auto simp: watch_ok_def)
  show ?thesis
    using assms(2)
  proof cases
    case (run full_sync c fl)
    then show ?thesis using run_start_safe [OF ok(1,2)] by blast
  next
    case (poll c fl bvs c' fl')
    then show ?thesis using run_poll_safe [OF ok poll(2) poll(3) poll(4)] by blast
  next
    case (drain full_sync target c fl todo)
    then show ?thesis using drain_start_safe [OF ok(1,2)] by simp
  next
    case (gather target c fl todo c' todo')
    then show ?thesis using drain_gather_safe(1) [OF ok(1,3)] by simp
  next
    case (finish target c fl todo bvs failed)
    then show ?thesis using drain_finish_safe [OF ok finish(2) finish(4) finish(5)] by (simp add: phase_ok_def)
  qed
qed

lemma watch_ok_phase: "rows_ok (s\<lparr>ws_phase := ph\<rparr>) \<longleftrightarrow> rows_ok s" "disk_ok fi (s\<lparr>ws_phase := ph\<rparr>) \<longleftrightarrow> disk_ok fi s"
  by (simp_all add: rows_ok_def disk_ok_def covered_def listed_on_disk_def)

lemma watch_ok_rows:
  assumes "watch_ok fi s" "rows_ok (s\<lparr>ws_rows := rows, ws_sequence := i\<rparr>)" "ws_sequence s \<le> i"
    "\<And>r. r \<in> set rows \<Longrightarrow> r \<in> set (ws_rows s) \<or> ws_sequence s < fst r"
  shows "watch_ok fi (s\<lparr>ws_rows := rows, ws_sequence := i\<rparr>)"
proof -
  let ?s = "s\<lparr>ws_rows := rows, ws_sequence := i\<rparr>"
  have l: "listed_on_disk ?s = listed_on_disk s" by (simp add: listed_on_disk_def)
  have cov: "covered fi ?s c todo" if "covered fi s c todo" "c \<le> ws_sequence s" for c todo
    using that assms(4) l by (fastforce simp: covered_def)
  have "disk_ok fi ?s" using assms(1,3) cov l unfolding watch_ok_def disk_ok_def by (simp; metis order_trans)
  moreover have "phase_ok fi ?s" using assms(1,3) cov l by (auto simp: watch_ok_def phase_ok_def split: watch_phase.splits)
  ultimately show ?thesis using assms(2) by (simp add: watch_ok_def)
qed

lemma watch_step_ok: "watch_step fi max_attempts s s' \<Longrightarrow> watch_ok fi s \<Longrightarrow> watch_ok fi s'"
proof (induction rule: watch_step.induct)
  case (validated s i p sigs)
  then show ?case by (intro watch_ok_rows) (auto simp: watch_ok_def rows_ok_def)
next
  case (invalidated s P)
  then have "watch_ok fi (s\<lparr>ws_rows := filter P (ws_rows s), ws_sequence := ws_sequence s\<rparr>)"
    by (intro watch_ok_rows) (auto simp: watch_ok_def rows_ok_def distinct_map_filter)
  then show ?case by simp
next
  case (acted s es ph)
  then show ?case using watch_act_safe [OF acted(2,1)] safe_prefix [of fi s es "length es"] rows_ok_effects
    by (simp add: watch_ok_def watch_ok_phase)
next
  case (killed_acting s es ph n)
  then show ?case using watch_act_safe [OF killed_acting(2,1)] safe_prefix rows_ok_effects
    by (simp add: watch_ok_def watch_ok_phase) (simp add: phase_ok_def)
next
  case (killed s)
  then show ?case by (simp add: watch_ok_def watch_ok_phase) (simp add: phase_ok_def)
qed

section \<open>A whole drain\<close>

lemma drain_gather_None:
  assumes "drain_gather fi rows target c fl todo = None" "r \<in> set rows" "c < fst r" "fst r \<le> target"
  shows False
proof -
  let ?xs = "sort_key fst (filter (\<lambda>r. fst r > c) rows)"
  have r: "r \<in> set ?xs" using assms(2,3) by simp
  then obtain x xs where xs: "?xs = x # xs" by (cases ?xs) auto
  have "sorted (map fst (x # xs))" using sorted_sort_key [of fst "filter (\<lambda>r. fst r > c) rows"] unfolding xs .
  then have "fst x \<le> fst r" using r unfolding xs by auto
  then have "to_valid_path x \<in> set (filter (\<lambda>e. vp_id e \<le> target) (paths_after rows c BATCH_SIZE))"
    using assms(4) by (simp add: paths_after_def xs BATCH_SIZE_def)
  then show False using assms(1,3,4) by (auto simp: drain_gather_def Let_def filter_empty_conv split: if_splits)
qed

lemma drain_gather_takes:
  assumes "drain_gather fi rows target c fl todo = Some (c', todo')" "distinct (map fst rows)"
  shows "set todo \<subseteq> set todo'"
    "r \<in> set rows \<Longrightarrow> c < fst r \<Longrightarrow> fst r \<le> c' \<Longrightarrow> should_skip fi (to_valid_path r) = None \<Longrightarrow> fst (snd r) \<in> set todo' \<union> fa_paths fl"
proof -
  let ?batch = "filter (\<lambda>e. vp_id e \<le> target) (paths_after rows c BATCH_SIZE)"
  have ne: "?batch \<noteq> []" and c': "c' = vp_id (last ?batch)"
    and todo': "todo' = todo @ filter (\<lambda>p. p \<notin> fa_paths fl) (select fi ?batch)"
    using assms(1) by (auto simp: drain_gather_def Let_def split: if_splits)
  show "set todo \<subseteq> set todo'" by (simp add: todo')
  show "fst (snd r) \<in> set todo' \<union> fa_paths fl"
    if r: "r \<in> set rows" "c < fst r" "fst r \<le> c'" "should_skip fi (to_valid_path r) = None"
  proof -
    have "to_valid_path r \<in> set ?batch" using r ne c' by (intro gathered_covers [OF assms(2)]) auto
    then have "vp_path (to_valid_path r) \<in> set (select fi ?batch)" using r(4) unfolding set_select by blast
    then show ?thesis by (simp add: todo')
  qed
qed

lemma drain_loop_gathers:
  assumes "distinct (map fst rows)" "drain_loop fi rows target c fl todo = (c', todo')"
  shows "set todo \<subseteq> set todo' \<and> c \<le> c' \<and> (c' = c \<or> c' \<le> target)
    \<and> (\<forall>r \<in> set rows. c < fst r \<longrightarrow> fst r \<le> target \<longrightarrow> fst r \<le> c'
        \<and> (should_skip fi (to_valid_path r) = None \<longrightarrow> fst (snd r) \<in> set todo' \<union> fa_paths fl))"
  using assms
proof (induction fi rows target c fl todo rule: drain_loop.induct)
  case (1 fi rows target c fl todo)
  show ?case
  proof (cases "drain_gather fi rows target c fl todo")
    case None
    then have "c' = c" "todo' = todo" using 1(3) by (subst (asm) drain_loop.simps; simp)+
    then show ?thesis using drain_gather_None [OF None] by blast
  next
    case (Some p)
    obtain c1 todo1 where p: "p = (c1, todo1)" by fastforce
    note g = Some [unfolded p]
    have "drain_loop fi rows target c1 fl todo1 = (c', todo')" using 1(3) g by (subst (asm) drain_loop.simps) simp
    note IH = 1(1) [OF g refl 1(2) this]
    note adv = drain_gather_advances [OF g] and takes = drain_gather_takes [OF g 1(2)]
    have "fst r \<le> c' \<and> (should_skip fi (to_valid_path r) = None \<longrightarrow> fst (snd r) \<in> set todo' \<union> fa_paths fl)"
      if r: "r \<in> set rows" "c < fst r" "fst r \<le> target" for r
    proof (cases "fst r \<le> c1")
      case True
      then show ?thesis using takes(2) [OF r(1,2) True] IH by auto
    next
      case False
      then show ?thesis using IH r by auto
    qed
    then show ?thesis using IH adv takes(1) by auto
  qed
qed

lemma drain_loop_target:
  assumes "distinct (map fst rows)" "drain_loop fi rows (max_id rows) c fl todo = (c', todo')" "0 \<le> c"
  shows "c' = max c (max_id rows)"
proof (cases "c < max_id rows")
  case True
  then have "rows \<noteq> []" using assms(3) by (auto simp: max_id_def)
  then have "max_id rows \<in> fst ` set rows" unfolding max_id_def by (simp add: Max_in)
  then obtain r where "r \<in> set rows" "fst r = max_id rows" by auto
  then have "max_id rows \<le> c'" using drain_loop_gathers [OF assms(1,2)] True by fastforce
  then show ?thesis using drain_loop_gathers [OF assms(1,2)] True by auto
next
  case False
  then show ?thesis using assms(2) by (subst (asm) drain_loop.simps) (auto simp: drain_gather_def)
qed

lemma max_id_ge: "r \<in> set rows \<Longrightarrow> fst r \<le> max_id rows"
  by (auto simp: max_id_def)

text \<open>
  C15. A drain that finds a cursor (or is told to take everything) ends, and ends with a full account:
  each row past the cursor that is worth pushing, and each path of the failed list, was pushed without
  a report of failure or is in the result, which is what the saved list holds; the cursor it saves last
  is the newest id of the database.
\<close>

theorem drain_accounts_for_all:
  assumes rows: "distinct (map fst rows)" and views: "\<And>i. view_ok (bvs i)"
    and start: "drain_start full_sync rows d = Inr (target, c, fl, todo)" and c: "0 \<le> c"
  shows "\<exists>failed es. watch_drain full_sync fi bvs rows d = Inr (failed, es) \<and> last es = SaveCursor (max c (max_id rows))
    \<and> (\<forall>r \<in> set rows. c < fst r \<longrightarrow> should_skip fi (to_valid_path r) = None \<longrightarrow> fst (snd r) \<in> settles es \<union> set failed)
    \<and> fa_paths (load_failed (dk_failed d)) \<subseteq> settles es \<union> set failed"
proof -
  have st: "target = max_id rows" "fl = load_failed (dk_failed d)" "todo = listed fl"
    using start by (auto simp: drain_start_def Let_def split: sum.splits option.splits if_splits)
  obtain c' todo' where loop: "drain_loop fi rows target c fl todo = (c', todo')" by fastforce
  obtain fl' es' where run: "push_chunks bvs 0 (chunks BATCH_SIZE todo') fl = Some (fl', es')"
    using push_chunks_total [of bvs, OF views] by blast
  let ?es = "es' @ [SaveFailed fl', SaveCursor c']"
  note acc = push_chunks_accounts [OF views run]
  have cc: "concat (chunks BATCH_SIZE todo') = todo'" by (simp add: BATCH_SIZE_def)
  have "finite (fa_paths fl')" by (rule finite_subset [OF acc(3)]) (simp add: st)
  then have listed: "set (listed fl') = fa_paths fl'" by (simp add: listed_def)
  have s: "settles ?es = settles es'" by (simp add: settles_def)
  have "watch_drain full_sync fi bvs rows d = Inr (listed fl', ?es)"
    by (simp add: watch_drain_def start loop drain_finish_def run)
  moreover have "last ?es = SaveCursor (max c (max_id rows))" using drain_loop_target [OF rows loop [unfolded st(1)] c] by simp
  moreover have "fst (snd r) \<in> settles ?es \<union> set (listed fl')"
    if "r \<in> set rows" "c < fst r" "should_skip fi (to_valid_path r) = None" for r
    using drain_loop_gathers [OF rows loop] that max_id_ge [OF that(1)] acc(2) unfolding s listed cc st(1) by blast
  moreover have "fa_paths (load_failed (dk_failed d)) \<subseteq> settles ?es \<union> set (listed fl')"
    using acc(2) unfolding s listed st(2) by blast
  ultimately show ?thesis by blast
qed

section \<open>Witnesses and the properties\<close>

definition demo_filters :: filters where
  "demo_filters = \<lparr>fi_upstream_keys = [], fi_exclude_patterns = [], fi_own_keys = []\<rparr>"

definition demo_view :: batch_view where
  "demo_view = \<lparr>bv_info = \<lambda>ps. Some (map (\<lambda>p. demo_path p []) ps), bv_exists = \<lambda>_. True, bv_negotiate = \<lambda>hs. Inr hs, bv_session = demo_session\<rparr>"

lemma demo_view_ok: "view_ok demo_view"
  by (simp add: view_ok_def demo_view_def demo_session_ok demo_path_def image_image)

definition demo_rows :: "nix_row list" where
  "demo_rows = [(1, ''/nix/store/a'', None), (4, ''/nix/store/b'', None), (6, ''/nix/store/c.drv'', None)]"

definition demo_disk :: disk where
  "demo_disk = \<lparr>dk_cursor = write_cursor 1, dk_failed = save_failed \<lparr>fa_paths = {''/nix/store/x''}, fa_attempts = Map.empty\<rparr>\<rparr>"

lemma demo_disk_list: "fa_paths (load_failed (dk_failed demo_disk)) = {''/nix/store/x''}"
  by (simp add: demo_disk_def load_saved clean_list_def clean_path_def)

lemma demo_selected: "should_skip demo_filters (to_valid_path (4, ''/nix/store/b'', None)) = None"
  by (simp add: should_skip_def demo_filters_def to_valid_path_def strip_suffix_def)

theorem drain_accounts_for_all_witness:
  "\<exists>failed es. watch_drain False demo_filters (\<lambda>_. demo_view) demo_rows demo_disk = Inr (failed, es) \<and> last es = SaveCursor 6
    \<and> ''/nix/store/b'' \<in> settles es \<union> set failed \<and> ''/nix/store/x'' \<in> settles es \<union> set failed"
proof -
  have r: "read_cursor (dk_cursor demo_disk) = Inr (Some 1)" by (simp add: demo_disk_def read_written_cursor)
  have m: "max_id demo_rows = 6" by (simp add: max_id_def demo_rows_def)
  let ?fl = "load_failed (dk_failed demo_disk)"
  have start: "drain_start False demo_rows demo_disk = Inr (6, 1, ?fl, listed ?fl)" by (simp add: drain_start_def r m Let_def)
  have "distinct (map fst demo_rows)" "(0::int) \<le> 1" by (simp_all add: demo_rows_def)
  from drain_accounts_for_all [OF this(1) demo_view_ok start this(2), of demo_filters]
  obtain failed es where d: "watch_drain False demo_filters (\<lambda>_. demo_view) demo_rows demo_disk = Inr (failed, es)" "last es = SaveCursor 6"
    "\<forall>r \<in> set demo_rows. 1 < fst r \<longrightarrow> should_skip demo_filters (to_valid_path r) = None \<longrightarrow> fst (snd r) \<in> settles es \<union> set failed"
    "{''/nix/store/x''} \<subseteq> settles es \<union> set failed" unfolding m demo_disk_list by auto
  have "''/nix/store/b'' \<in> settles es \<union> set failed"
    using d(3) [rule_format, of "(4, ''/nix/store/b'', None)"] demo_selected by (simp add: demo_rows_def)
  then show ?thesis using d by blast
qed



definition new_store :: "nix_row list \<Rightarrow> int \<Rightarrow> watch_state" where
  "new_store rows i =
     \<lparr>ws_rows = rows, ws_sequence = i, ws_disk = \<lparr>dk_cursor = None, dk_failed = None\<rparr>, ws_phase = Stopped, ws_from = 0, ws_settled = {}\<rparr>"

lemma new_store_ok: "rows_ok (new_store rows i) \<Longrightarrow> watch_ok fi (new_store rows i)"
  by (simp add: watch_ok_def disk_ok_def phase_ok_def listed_on_disk_def new_store_def load_failed_def)

lemma reached_watch_ok: "(watch_step fi max_attempts)\<^sup>*\<^sup>* s s' \<Longrightarrow> watch_ok fi s \<Longrightarrow> watch_ok fi s'"
  by (induction rule: rtranclp_induct) (auto intro: watch_step_ok)

text \<open>
  C6. The watcher loses nothing. From a store without watcher files, through any sequence of starts,
  polls, retries, drains, new and deleted store paths, and kills between any two effects: a path still
  in the store that is worth pushing, newer than the first cursor and not newer than the saved one, was
  pushed without a report of failure or is on the saved failed list.
\<close>

theorem watcher_loses_nothing:
  assumes "rows_ok (new_store rows i)" and reach: "(watch_step fi max_attempts)\<^sup>*\<^sup>* (new_store rows i) s"
    and cursor: "read_cursor (dk_cursor (ws_disk s)) = Inr (Some c)"
    and r: "r \<in> set (ws_rows s)" "ws_from s < fst r" "fst r \<le> c" "should_skip fi (to_valid_path r) = None"
  shows "fst (snd r) \<in> ws_settled s \<or> fst (snd r) \<in> fa_paths (load_failed (dk_failed (ws_disk s)))"
proof -
  have "watch_ok fi s" using reached_watch_ok [OF reach new_store_ok [OF assms(1)]] .
  then have "covered fi s c {}" using cursor_found(4) [OF _ _ cursor] by (simp add: watch_ok_def)
  then show ?thesis using r by (auto simp: covered_def listed_on_disk_def)
qed

theorem watcher_loses_nothing_witness:
  "\<exists>s. (watch_step demo_filters 5)\<^sup>*\<^sup>* (new_store [] 0) s \<and> read_cursor (dk_cursor (ws_disk s)) = Inr (Some 1)
    \<and> (''/nix/store/a'' \<in> ws_settled s \<or> ''/nix/store/a'' \<in> fa_paths (load_failed (dk_failed (ws_disk s))))"
proof -
  let ?step = "watch_step demo_filters 5" and ?s0 = "new_store [] 0" and ?r = "(1::int, ''/nix/store/a'', None :: string option)"
  let ?none = "load_failed None" and ?batch = "[to_valid_path ?r]"
  let ?s1 = "(fold apply_effect [Began 0, SaveCursor 0] ?s0)\<lparr>ws_phase := Running 0 ?none\<rparr>"
  let ?s2 = "?s1\<lparr>ws_rows := ws_rows ?s1 @ [?r], ws_sequence := 1\<rparr>"
  have "run_start False (ws_rows ?s0) (ws_disk ?s0) = Inr (0, ?none, [Began 0, SaveCursor 0])"
    by (simp add: run_start_def new_store_def read_cursor_def max_id_def)
  then have one: "?step ?s0 ?s1" by (intro watch_step.acted watch_act.run) (simp_all add: new_store_def)
  have two: "?step ?s1 ?s2" by (rule watch_step.validated) (simp_all add: new_store_def MAX_ID_def clean_path_def)
  have rows: "ws_rows ?s2 = [?r]" by (simp add: new_store_def)
  have b: "paths_after [?r] 0 BATCH_SIZE = ?batch" by (simp add: paths_after_def BATCH_SIZE_def)
  obtain failed where f: "push_batch demo_view (select demo_filters ?batch) = Some failed" using push_batch_exact [OF demo_view_ok] by blast
  obtain fl' es where p: "run_poll demo_filters 5 (\<lambda>_. demo_view) (ws_rows ?s2) 0 ?none = Some (1, fl', es)"
    and es: "es = [PushedBatch (select demo_filters ?batch) failed, SaveFailed fl', SaveCursor 1]"
    unfolding rows by (simp add: run_poll_def b f Let_def)
  let ?s3 = "(fold apply_effect es ?s2)\<lparr>ws_phase := Running 1 fl'\<rparr>"
  have three: "?step ?s2 ?s3" by (rule watch_step.acted, rule watch_act.poll [OF _ demo_view_ok p]) simp
  have reach: "?step\<^sup>*\<^sup>* ?s0 ?s3" using one two three by (meson converse_rtranclp_into_rtranclp rtranclp.rtrancl_refl)
  have start: "rows_ok ?s0" by (simp add: rows_ok_def new_store_def MAX_ID_def)
  have cursor: "read_cursor (dk_cursor (ws_disk ?s3)) = Inr (Some 1)" by (simp add: es read_written_cursor)
  have "?r \<in> set (ws_rows ?s3)" "ws_from ?s3 < fst ?r" "fst ?r \<le> 1" by (simp_all add: es new_store_def)
  moreover have "should_skip demo_filters (to_valid_path ?r) = None"
    by (simp add: should_skip_def demo_filters_def to_valid_path_def strip_suffix_def)
  ultimately show ?thesis using watcher_loses_nothing [OF start reach cursor, of ?r] reach cursor by auto
qed

end
