(* ===== verification/Spec2Isabelle.thy ===== *)
theory Spec2Isabelle
  imports Protocol_Tasks Puller Watcher_Laws
begin

text \<open>
  HEADER
\<close>

section \<open>The services as a whole\<close>

text \<open>
  One task of the Pusher, run to its end among others that follow the protocol, or a flush of the
  Puller's last-accessed times into the database they share.
\<close>

inductive service_step ::
  "('s \<Rightarrow> string \<rightharpoonup> bytes) \<Rightarrow> ('s, 'd, 'k) pusher \<Rightarrow> ('s, 'k) admin_state \<Rightarrow> 's world \<Rightarrow> 's world \<Rightarrow> bool"
  for get :: "'s \<Rightarrow> string \<rightharpoonup> bytes" and P :: "('s, 'd, 'k) pusher" and st :: "('s, 'k) admin_state" where
  Push: "participant (\<lambda>s. dom (get s)) env \<Longrightarrow> upload env clock P sc h subject body w = Some (r, w') \<Longrightarrow> service_step get P st w w'"
| Negotiate: "participant (\<lambda>s. dom (get s)) env \<Longrightarrow> missing_paths env clock hashes w = (ms, w') \<Longrightarrow> service_step get P st w w'"
| Evict: "participant (\<lambda>s. dom (get s)) env \<Longrightarrow> evict env clock (sa_delete (ad_s3 st)) cfg w = Some (p, w') \<Longrightarrow> service_step get P st w w'"
| Sweep: "participant (\<lambda>s. dom (get s)) env \<Longrightarrow> sweep env clock (ad_s3 st) cfg w = Some (n, w') \<Longrightarrow> service_step get P st w w'"
| Admin: "participant (\<lambda>s. dom (get s)) env \<Longrightarrow> dispatch env clock st rq w = Some (a, w') \<Longrightarrow> service_step get P st w w'"
| Flush: "pu_db ps = Some (w_db w) \<Longrightarrow> bump_flush writes debounce now ps = (n, ps') \<Longrightarrow> pu_db ps' = Some d \<Longrightarrow> service_step get P st w (w\<lparr>w_db := d\<rparr>)"

text \<open>What is known of the services the Pusher talks to.\<close>

definition services_ok ::
  "('s \<Rightarrow> string \<rightharpoonup> bytes) \<Rightarrow> ('s \<Rightarrow> string \<Rightarrow> string \<Rightarrow> nat \<rightharpoonup> bytes) \<Rightarrow> ('s, 'd, 'k) pusher \<Rightarrow> ('s, 'k) admin_state \<Rightarrow> bool" where
  "services_ok get parts P st \<longleftrightarrow> pusher_ok P get parts \<and> s3_delete_law (sa_delete (ad_s3 st)) (\<lambda>s. dom (get s))
     \<and> (\<forall>s xs. dom (get (sa_aborted (ad_s3 st) s xs)) = dom (get s))"

lemma service_step_follows:
  assumes "services_ok get parts P st" and "service_step get P st w w'"
  shows "follows (\<lambda>s. dom (get s)) M w M w'"
  using assms(2)
proof cases
  case (Push env clock sc h subject body r)
  then show ?thesis using assms(1) upload_follows by (auto simp: services_ok_def)
next
  case (Negotiate env clock hashes ms)
  then show ?thesis using missing_paths_follows by blast
next
  case (Evict env clock cfg p)
  then show ?thesis using assms(1) evict_follows by (auto simp: services_ok_def)
next
  case (Sweep env clock cfg n)
  then show ?thesis using assms(1) sweep_follows [of "ad_s3 st" "\<lambda>s. dom (get s)"] by (auto simp: services_ok_def)
next
  case (Admin env clock rq a)
  then show ?thesis using assms(1) dispatch_follows by (auto simp: services_ok_def)
next
  case (Flush ps writes debounce now n ps' d)
  have "db_inv d \<and> db_keys d \<subseteq> db_keys (w_db w)" if "db_inv (w_db w)"
    using bump_flush_db [OF Flush(3)] Flush(2,4) that by auto
  then show ?thesis unfolding Flush(1) by (rule follows_fewer_rows)
qed


text \<open>An object store in memory, a registry and a database: the Pusher on them.\<close>

definition demo_state :: "(mem_s3, bytes) admin_state" where
  "demo_state = \<lparr>ad_codec = demo_codec, ad_crypto = demo_crypto, ad_keys = [], ad_store_dir = ''/nix/store'',
     ad_s3 = \<lparr>sa_list = (\<lambda>s tok. None), sa_mpus = (\<lambda>s m. None), sa_abort = (\<lambda>s x. False),
              sa_delete = (\<lambda>s ks. (Some [], (\<lambda>k. if k \<in> set ks then None else fst s k, snd s))), sa_aborted = (\<lambda>s xs. s)\<rparr>,
     ad_gc = None, ad_backup = (\<lambda>_. None), ad_wakes = 0\<rparr>"

lemma demo_services_ok: "services_ok fst (\<lambda>s k i n. snd s (k, i, n)) demo_pusher demo_state"
  by (auto simp: services_ok_def demo_pusher_ok demo_state_def s3_delete_law_def dom_def split: if_splits)

lemma alone_participant: "participant present alone"
  by (simp add: participant_def alone_def)

text \<open>A push of one object into the empty cache.\<close>

lemma demo_push:
  "\<exists>w'. service_step fst demo_pusher demo_state empty_world w' \<and> rep_hash CHR ''a'' \<in> db_keys (w_db w')"
  using demo_upload service_step.Push [OF alone_participant] by blast

lemma coupled_empty_world: "coupled Map.empty empty_world"
  by (simp add: coupled_def empty_world_def db_inv_empty new_in_flight_def fun_eq_iff)


lemma reached_ok:
  assumes "services_ok get parts P st" and "(service_step get P st)\<^sup>*\<^sup>* w w'"
    and "claims (w_fl w) = Map.empty" and "db_inv (w_db w)" and "\<forall>h \<in> db_keys (w_db w). key_for h \<in> dom (get (w_s3 w))"
  shows "protocol_ok (\<lambda>s. dom (get s)) w'"
proof -
  let ?pr = "\<lambda>s. dom (get s)"
  have "protocol_ok ?pr w" using protocol_ok_idle [of w ?pr] assms(3-5) by blast
  with assms(2) show ?thesis
    by (induction rule: rtranclp_induct) (auto intro: follows_ok [OF service_step_follows [OF assms(1)]])
qed


lemma empty_world_at_rest:
  "claims (w_fl empty_world) = Map.empty" "db_inv (w_db empty_world)"
  "\<forall>h \<in> db_keys (w_db empty_world). key_for h \<in> dom (fst (w_s3 empty_world))"
  by (simp_all add: empty_world_def db_inv_empty new_in_flight_def) (simp add: empty_db_def db_keys_def)




section \<open>The client and the cache\<close>

lemma missing_paths_exact:
  assumes "missing_paths env clock hs w = (ms, w')"
  shows "set ms = set hs - db_keys (w_db w')"
proof -
  obtain ms' d where m: "missing (w_db (await env w)) hs (clock (w_awaits w)) = (ms', d)" by fastforce
  have "db_keys d = db_keys (w_db (await env w))" "ms' = filter (\<lambda>h. h \<notin> db_keys (w_db (await env w))) hs"
    using missing_answer [of "w_db (await env w)" hs "clock (w_awaits w)"] db_keys_missing [of "w_db (await env w)" hs "clock (w_awaits w)"]
    unfolding m by simp_all
  moreover have "ms = ms'" "w_db w' = d" using assms m by (auto simp: missing_paths_def)
  ultimately show ?thesis by auto
qed

interpretation pusher_cache: negotiating_cache "missing_paths env clock" "\<lambda>w. db_keys (w_db w)" for env clock
  by unfold_locales (rule missing_paths_exact)


definition demo_pushed :: "path_info list" where
  "demo_pushed = [demo_path (''/nix/store/'' @ rep_hash CHR ''a'' @ ''-x'') []]"

lemma demo_pushed_hash: "map hash_of demo_pushed = [rep_hash CHR ''a'']"
  by code_simp


end
